(* ===== verification/Prelude.thy ===== *)
theory Prelude
  imports Main "HOL-Library.Word" "HOL-Library.Code_Target_Nat"
begin

section \<open>Shared vocabulary of the development\<close>

text \<open>
  What the C programs of the repository have in common and every component theory uses: results
  that carry a fault instead of undefined behaviour, byte strings and C strings, a heap of
  \<^verbatim>\<open>malloc\<close> blocks, and arrays of which a prefix is in use.
\<close>

named_theorems tsum_simps \<open>counting threads by the program point they are at\<close>

subsection \<open>Results with faults\<close>

text \<open>
  A call of the model returns either a value or the reason why it returns none: an operation C
  leaves undefined, a failed \<^verbatim>\<open>assert\<close>, a call on an asynchronous operation whose control block
  is no longer where the operation was started (\<open>MovedBlock\<close>), the destruction of a mutex that is
  held (\<open>BusyMutex\<close>), a signal that ends the process
  (\<open>SigPipe\<close>, where the program leaves it at its default action), or a system call that has not
  come back (\<open>Pending\<close>).
\<close>

datatype fault = DoubleFree | UseAfterFree | OutOfBounds | Overflow | AssertFailed | MovedBlock | BusyMutex | SigPipe | Pending

type_synonym 'a cres = "fault + 'a"

definition cbind :: "'a cres \<Rightarrow> ('a \<Rightarrow> 'b cres) \<Rightarrow> 'b cres" where
  "cbind m f = (case m of Inl e \<Rightarrow> Inl e | Inr x \<Rightarrow> f x)"

lemma cbind_simps [simp]: "cbind (Inl e) f = Inl e" "cbind (Inr x) f = f x"
  by (simp_all add: cbind_def)

lemma cbind_Inr_conv: "cbind m f = Inr y \<longleftrightarrow> (\<exists>x. m = Inr x \<and> f x = Inr y)"
  by (cases m) auto

lemma cbind_InrE [elim]:
  assumes "cbind m f = Inr y"
  obtains x where "m = Inr x" and "f x = Inr y"
  using assms by (auto simp: cbind_Inr_conv)

lemma cbind_cong [fundef_cong]:
  "m = m' \<Longrightarrow> (\<And>x. m' = Inr x \<Longrightarrow> f x = f' x) \<Longrightarrow> cbind m f = cbind m' f'"
  by (cases m') auto

text \<open>
  \<open>okin F P m\<close>: if the call returns, its result satisfies \<open>P\<close>, and if it does not, the reason is one
  of \<open>F\<close>. For \<open>okres\<close> the only excuse is a system call that has not come back: nothing undefined
  happens.
\<close>

definition okin :: "fault set \<Rightarrow> ('a \<Rightarrow> bool) \<Rightarrow> 'a cres \<Rightarrow> bool" where
  "okin F P m \<longleftrightarrow> (case m of Inl e \<Rightarrow> e \<in> F | Inr x \<Rightarrow> P x)"

abbreviation okres :: "('a \<Rightarrow> bool) \<Rightarrow> 'a cres \<Rightarrow> bool" where
  "okres \<equiv> okin {Pending}"

lemma okin_simps [simp]: "okin F P (Inl e) \<longleftrightarrow> e \<in> F" "okin F P (Inr x) \<longleftrightarrow> P x"
  by (simp_all add: okin_def)

lemma okin_bind: "okin F P m \<Longrightarrow> (\<And>x. P x \<Longrightarrow> okin F Q (f x)) \<Longrightarrow> okin F Q (cbind m f)"
  by (cases m) auto

lemma okin_bind_eq:
  "okin F P m \<Longrightarrow> (\<And>x. m = Inr x \<Longrightarrow> P x \<Longrightarrow> okin F Q (f x)) \<Longrightarrow> okin F Q (cbind m f)"
  by (cases m) auto

lemma okin_mono: "okin F P m \<Longrightarrow> (\<And>x. P x \<Longrightarrow> Q x) \<Longrightarrow> okin F Q m"
  by (cases m) auto

lemmas okres_bind = okin_bind [of "{Pending}"]
lemmas okres_bind_eq = okin_bind_eq [of "{Pending}"]
lemmas okres_mono = okin_mono [of "{Pending}"]

lemma okresI: "(\<And>e. m = Inl e \<Longrightarrow> e = Pending) \<Longrightarrow> (\<And>x. m = Inr x \<Longrightarrow> P x) \<Longrightarrow> okres P m"
  by (cases m) auto

lemma okresD: "okin F P m \<Longrightarrow> m = Inr x \<Longrightarrow> P x"
  by simp

subsection \<open>Bytes, strings and buffers\<close>

type_synonym bytes = "char list"

abbreviation NUL :: char where "NUL \<equiv> CHR 0x00"
abbreviation NL :: char where "NL \<equiv> CHR 0x0A"
abbreviation CR :: char where "CR \<equiv> CHR 0x0D"

text \<open>The C string that starts at the first byte of a buffer.\<close>

definition cstr :: "bytes \<Rightarrow> string" where
  "cstr b = takeWhile (\<lambda>c. c \<noteq> NUL) b"

lemma cstr_no_NUL [simp]: "NUL \<notin> set (cstr b)"
  by (auto simp: cstr_def dest: set_takeWhileD)

lemma cstr_stops: "NUL \<notin> set xs \<Longrightarrow> cstr (xs @ NUL # ys) = xs"
  by (induction xs) (auto simp: cstr_def)

lemma cstr_prefix: "NUL \<in> set xs \<Longrightarrow> cstr (xs @ ys) = cstr xs"
  by (induction xs) (auto simp: cstr_def)

lemma cstr_append_NUL [simp]: "cstr (xs @ [NUL]) = cstr xs"
  by (induction xs) (auto simp: cstr_def)

text \<open>\<^verbatim>\<open>memchr (b, c, n)\<close>: the first position below \<open>n\<close> that holds \<open>c\<close>.\<close>

definition memchr :: "bytes \<Rightarrow> char \<Rightarrow> nat \<Rightarrow> nat option" where
  "memchr b c n =
     (let k = length (takeWhile (\<lambda>x. x \<noteq> c) (take n b))
      in if k < min n (length b) then Some k else None)"

lemma memchr_Some:
  assumes "memchr b c n = Some k"
  shows "k < n" "k < length b" "b ! k = c" "c \<notin> set (take k b)"
proof -
  let ?t = "take n b"
  have k: "k = length (takeWhile (\<lambda>x. x \<noteq> c) ?t)" and less: "k < min n (length b)"
    using assms by (auto simp: memchr_def Let_def split: if_splits)
  show "k < n" "k < length b" using less by auto
  have lt: "k < length ?t" using less by simp
  have "?t ! k = c"
    using nth_length_takeWhile [of "\<lambda>x. x \<noteq> c" ?t] lt by (simp add: k)
  then show "b ! k = c" using less by simp
  have "take k ?t = takeWhile (\<lambda>x. x \<noteq> c) ?t"
    by (metis k takeWhile_eq_take)
  then have "c \<notin> set (take k ?t)" by (metis (mono_tags, lifting) set_takeWhileD)
  moreover have "min k n = k" using less by simp
  ultimately show "c \<notin> set (take k b)" by simp
qed

lemma memchr_None: "memchr b c n = None \<Longrightarrow> c \<notin> set (take n b)"
proof
  assume none: "memchr b c n = None" and c: "c \<in> set (take n b)"
  have "takeWhile (\<lambda>x. x \<noteq> c) (take n b) \<noteq> take n b"
    using c by (metis (mono_tags, lifting) set_takeWhileD)
  then have "length (takeWhile (\<lambda>x. x \<noteq> c) (take n b)) < length (take n b)"
    by (metis length_takeWhile_le linorder_neqE_nat not_less take_all_iff takeWhile_eq_take)
  then show False using none by (simp add: memchr_def Let_def)
qed

lemma memchr_split:
  assumes "memchr b c n = Some k" and "n \<le> length b"
  shows "take n b = take k b @ c # drop (Suc k) (take n b)"
proof -
  note m = memchr_Some [OF assms(1)]
  have "take n b = take k (take n b) @ take n b ! k # drop (Suc k) (take n b)"
    by (rule id_take_nth_drop) (use m assms(2) in simp)
  then show ?thesis using m by (simp add: min_def)
qed

text \<open>
  \<^verbatim>\<open>memmove (xs, xs + from, n)\<close>: the \<open>n\<close> elements that start at \<open>from\<close> move to the front
  of the array, the rest of the array keeps its content.
\<close>

definition memmove0 :: "'a list \<Rightarrow> nat \<Rightarrow> nat \<Rightarrow> 'a list" where
  "memmove0 xs from n = take n (drop from xs) @ drop n xs"

lemma length_memmove0 [simp]: "from + n \<le> length xs \<Longrightarrow> length (memmove0 xs from n) = length xs"
  by (simp add: memmove0_def)

lemma take_memmove0 [simp]:
  "from + n \<le> length xs \<Longrightarrow> take n (memmove0 xs from n) = take n (drop from xs)"
  by (simp add: memmove0_def)

text \<open>Bytes copied into a buffer at an offset (\<^verbatim>\<open>read\<close>, \<^verbatim>\<open>memcpy\<close>).\<close>

definition blit :: "'a list \<Rightarrow> nat \<Rightarrow> 'a list \<Rightarrow> 'a list" where
  "blit b off ys = take off b @ ys @ drop (off + length ys) b"

lemma length_blit [simp]: "off + length ys \<le> length b \<Longrightarrow> length (blit b off ys) = length b"
  by (simp add: blit_def)

lemma take_blit [simp]:
  "off + length ys \<le> length b \<Longrightarrow> take (off + length ys) (blit b off ys) = take off b @ ys"
  by (simp add: blit_def)

text \<open>\<^verbatim>\<open>strncpy\<close> into an array of \<open>n + 1\<close> bytes whose last byte is then set to zero.\<close>

definition strncpy :: "nat \<Rightarrow> string \<Rightarrow> string" where
  "strncpy n s = take n s"

lemma strncpy_id [simp]: "length s \<le> n \<Longrightarrow> strncpy n s = s"
  by (simp add: strncpy_def)

lemma length_strncpy [simp]: "length (strncpy n s) \<le> n"
  by (simp add: strncpy_def)

subsection \<open>Tables of which a prefix is in use\<close>

text \<open>Removing from a table by moving its last slot in use into the hole.\<close>

lemma swap_remove_set:
  assumes "i < n" "n \<le> length xs" "distinct (map f (take n xs))"
  shows "set (map f (take (n - 1) (xs[i := xs ! (n - 1)]))) = set (map f (take n xs)) - {f (xs ! i)}"
    and "distinct (map f (take (n - 1) (xs[i := xs ! (n - 1)])))"
proof -
  obtain m where n: "n = Suc m" using assms(1) by (cases n) auto
  have t: "take n xs = take m xs @ [xs ! m]"
    using assms(2) by (simp add: n take_Suc_conv_app_nth)
  have d: "distinct (map f (take m xs))" "f (xs ! m) \<notin> f ` set (take m xs)"
    using assms(3) unfolding t by auto
  have both: "set (map f (take (n - 1) (xs[i := xs ! (n - 1)]))) = set (map f (take n xs)) - {f (xs ! i)} \<and>
    distinct (map f (take (n - 1) (xs[i := xs ! (n - 1)])))"
  proof (cases "i = m")
    case True
    then show ?thesis using assms(2) d unfolding t by (auto simp: n take_update_swap list_update_beyond)
  next
    case False
    then have i: "i < m" "i < length (map f (take m xs))" using assms n by auto
    let ?l = "(map f (take m xs))[i := f (xs ! m)]"
    have eq: "map f (take (n - 1) (xs[i := xs ! (n - 1)])) = ?l"
      by (simp add: n take_update_swap map_update)
    have fi: "map f (take m xs) ! i = f (xs ! i)" using i assms(2) n by simp
    have "set ?l = insert (f (xs ! m)) (set (map f (take m xs)) - {f (xs ! i)})"
      using set_update_distinct [OF d(1) i(2)] fi by simp
    moreover have "f (xs ! i) \<noteq> f (xs ! m)" using d(2) fi i(2) by (metis nth_mem list.set_map)
    moreover have "distinct ?l" using d by (intro distinct_list_update) auto
    ultimately show ?thesis unfolding eq t by auto
  qed
  then show "set (map f (take (n - 1) (xs[i := xs ! (n - 1)]))) = set (map f (take n xs)) - {f (xs ! i)}"
    "distinct (map f (take (n - 1) (xs[i := xs ! (n - 1)])))" by blast+
qed

lemma swap_remove_nth:
  assumes "j < n - 1" "i < n" "n \<le> length xs"
  shows "\<exists>k<n. k \<noteq> i \<and> xs[i := xs ! (n - 1)] ! j = xs ! k"
proof (cases "j = i")
  case True
  with assms show ?thesis by (intro exI [of _ "n - 1"]) auto
next
  case False
  with assms show ?thesis by (intro exI [of _ j]) auto
qed

subsection \<open>The heap of malloc blocks\<close>

text \<open>
  A heap maps the addresses of the live blocks to their bytes; address 0 is \<^verbatim>\<open>NULL\<close>. The
  environment chooses what \<^verbatim>\<open>malloc\<close> returns, given the live blocks: no block, or an address that is not
  live, with whatever bytes the memory held before. A choice that is live counts as a failed
  allocation, so every answer an allocator may give is covered, and addresses may be reused after
  \<^verbatim>\<open>free\<close>. Reads and writes are checked against the bounds of the block.
\<close>

type_synonym addr = nat
type_synonym heap = "addr \<rightharpoonup> bytes"
type_synonym malloc_choice = "heap \<Rightarrow> (addr \<times> (nat \<Rightarrow> char)) option"

definition h_malloc :: "malloc_choice \<Rightarrow> nat \<Rightarrow> heap \<Rightarrow> (addr \<times> heap) option" where
  "h_malloc choice n h =
     (case choice h of None \<Rightarrow> None
      | Some (a, junk) \<Rightarrow>
          if a = 0 \<or> h a \<noteq> None then None else Some (a, h(a \<mapsto> map junk [0..<n])))"

definition h_free :: "addr \<Rightarrow> heap \<Rightarrow> heap cres" where
  "h_free a h =
     (if a = 0 then Inr h else if h a = None then Inl DoubleFree else Inr (h(a := None)))"

definition h_write :: "addr \<Rightarrow> nat \<Rightarrow> bytes \<Rightarrow> heap \<Rightarrow> heap cres" where
  "h_write a off bs h =
     (case h a of None \<Rightarrow> Inl UseAfterFree
      | Some b \<Rightarrow> if off + length bs \<le> length b then Inr (h(a \<mapsto> blit b off bs))
                  else Inl OutOfBounds)"

definition h_read :: "addr \<Rightarrow> nat \<Rightarrow> nat \<Rightarrow> heap \<Rightarrow> bytes cres" where
  "h_read a off n h =
     (case h a of None \<Rightarrow> Inl UseAfterFree
      | Some b \<Rightarrow> if off + n \<le> length b then Inr (take n (drop off b)) else Inl OutOfBounds)"

text \<open>An allocator that does not run out of memory.\<close>

definition gives_memory :: "malloc_choice \<Rightarrow> bool" where
  "gives_memory choice \<longleftrightarrow>
     (\<forall>h. finite (dom h) \<longrightarrow> (\<exists>a junk. choice h = Some (a, junk) \<and> a \<noteq> 0 \<and> h a = None))"

lemma h_malloc_gives: "gives_memory choice \<Longrightarrow> finite (dom h) \<Longrightarrow> h_malloc choice n h \<noteq> None"
  unfolding gives_memory_def h_malloc_def by fastforce

lemma h_malloc_SomeD:
  "h_malloc ch n h = Some (a, h') \<Longrightarrow>
     a \<noteq> 0 \<and> h a = None \<and> (\<exists>b. length b = n \<and> h' = h(a \<mapsto> b))"
  by (force simp: h_malloc_def split: option.splits if_splits)

lemma h_write_upd: "off + length bs \<le> length b \<Longrightarrow>
  h_write a off bs (h(a \<mapsto> b)) = Inr (h(a \<mapsto> blit b off bs))"
  by (simp add: h_write_def)

lemma h_read_upd: "off + n \<le> length b \<Longrightarrow> h_read a off n (h(a \<mapsto> b)) = Inr (take n (drop off b))"
  by (simp add: h_read_def)

lemma h_free_upd: "a \<noteq> 0 \<Longrightarrow> h_free a (h(a \<mapsto> b)) = Inr (h(a := None))"
  by (simp add: h_free_def)

end
