(* ===== verification/FileCache.thy ===== *)
theory FileCache
  imports Prelude
begin

section \<open>The response cache of the file servers\<close>

text \<open>
  The cache of \<^verbatim>\<open>file-server.c\<close> (\<^verbatim>\<open>CacheEntry\<close>, \<^verbatim>\<open>cache_lookup\<close>, \<^verbatim>\<open>cache_insert\<close>,
  \<^verbatim>\<open>cache_clear\<close>): a fixed array of which the first \<open>cache_size\<close> slots are in use, each slot a
  key and a pointer to a \<^verbatim>\<open>malloc\<close> block that holds a whole response. The functions are the loops
  of the source on that array and on the heap. They are shown to implement a bounded
  first-in-first-out map from keys to responses, and never to free a block twice, to drop a live
  block or to leave an entry without its block.
\<close>

subsection \<open>The array and its operations\<close>

definition MAX_CACHE_ENTRIES :: nat where "MAX_CACHE_ENTRIES = 16"
definition MAX_CACHE_FILE_SIZE :: nat where "MAX_CACHE_FILE_SIZE = 64 * 1024"
definition PATH_MAX :: nat where "PATH_MAX = 4096"

record CacheEntry =
  key :: string
  resp :: addr
  resp_size :: nat

record filecache =
  cache :: "CacheEntry list"
  cache_size :: nat

definition cache_init :: filecache where
  "cache_init = \<lparr>cache = replicate MAX_CACHE_ENTRIES \<lparr>key = [], resp = 0, resp_size = 0\<rparr>,
     cache_size = 0\<rparr>"

text \<open>The loop both functions start with: the first slot from \<open>i\<close> on that holds the key.\<close>

function cache_find :: "CacheEntry list \<Rightarrow> nat \<Rightarrow> nat \<Rightarrow> string \<Rightarrow> nat option" where
  "cache_find es i n k =
     (if i < n then (if key (es ! i) = k then Some i else cache_find es (Suc i) n k) else None)"
  by pat_completeness auto
termination
  by (relation "measure (\<lambda>(es, i, n, k). n - i)") auto

declare cache_find.simps [simp del]

definition cache_lookup :: "string \<Rightarrow> filecache \<Rightarrow> CacheEntry option" where
  "cache_lookup k c = map_option (\<lambda>i. cache c ! i) (cache_find (cache c) 0 (cache_size c) k)"

definition cache_evict :: "filecache \<Rightarrow> heap \<Rightarrow> (filecache \<times> heap) cres" where
  "cache_evict c h =
     (if cache_size c = MAX_CACHE_ENTRIES then
        cbind (h_free (resp (cache c ! 0)) h) (\<lambda>h'.
          Inr (c\<lparr>cache := memmove0 (cache c) 1 (MAX_CACHE_ENTRIES - 1),
                 cache_size := cache_size c - 1\<rparr>, h'))
      else Inr (c, h))"

definition cache_insert ::
  "string \<Rightarrow> addr \<Rightarrow> nat \<Rightarrow> filecache \<Rightarrow> heap \<Rightarrow> (filecache \<times> heap) cres" where
  "cache_insert k r sz c h =
     (case cache_find (cache c) 0 (cache_size c) k of
        Some i \<Rightarrow>
          cbind (h_free (resp (cache c ! i)) h) (\<lambda>h'.
            Inr (c\<lparr>cache := (cache c)[i := (cache c ! i)\<lparr>resp := r, resp_size := sz\<rparr>]\<rparr>, h'))
      | None \<Rightarrow>
          cbind (cache_evict c h) (\<lambda>(c', h').
            Inr (c'\<lparr>cache := (cache c')[cache_size c' :=
                      \<lparr>key = strncpy (PATH_MAX - 1) k, resp = r, resp_size = sz\<rparr>],
                    cache_size := cache_size c' + 1\<rparr>, h')))"

text \<open>The loop of \<^verbatim>\<open>cache_clear\<close>: free the block of every slot in use and reset the pointer.\<close>

function cache_free_loop ::
  "nat \<Rightarrow> nat \<Rightarrow> CacheEntry list \<Rightarrow> heap \<Rightarrow> (CacheEntry list \<times> heap) cres" where
  "cache_free_loop i n es h =
     (if i < n then
        cbind (h_free (resp (es ! i)) h) (\<lambda>h'.
          cache_free_loop (Suc i) n (es[i := (es ! i)\<lparr>resp := 0\<rparr>]) h')
      else Inr (es, h))"
  by pat_completeness auto
termination
  by (relation "measure (\<lambda>(i, n, es, h). n - i)") auto

declare cache_free_loop.simps [simp del]

definition cache_clear :: "filecache \<Rightarrow> heap \<Rightarrow> (filecache \<times> heap) cres" where
  "cache_clear c h =
     cbind (cache_free_loop 0 (cache_size c) (cache c) h) (\<lambda>(es, h').
       Inr (c\<lparr>cache := es, cache_size := 0\<rparr>, h'))"

subsection \<open>The invariant and the abstract content\<close>

abbreviation live :: "filecache \<Rightarrow> CacheEntry list" where
  "live c \<equiv> take (cache_size c) (cache c)"

definition cache_owned :: "filecache \<Rightarrow> addr set" where
  "cache_owned c = resp ` set (live c)"

definition entry_ok :: "heap \<Rightarrow> CacheEntry \<Rightarrow> bool" where
  "entry_ok h e \<longleftrightarrow> resp e \<noteq> 0 \<and> length (key e) < PATH_MAX \<and>
     (\<exists>b. h (resp e) = Some b \<and> resp_size e \<le> length b)"

definition cache_inv :: "filecache \<Rightarrow> heap \<Rightarrow> bool" where
  "cache_inv c h \<longleftrightarrow>
     length (cache c) = MAX_CACHE_ENTRIES \<and> cache_size c \<le> MAX_CACHE_ENTRIES \<and>
     distinct (map key (live c)) \<and> distinct (map resp (live c)) \<and>
     (\<forall>e\<in>set (live c). entry_ok h e)"

text \<open>The bytes a slot stands for: the first \<open>resp_size\<close> bytes of its block.\<close>

definition entry_bytes :: "heap \<Rightarrow> CacheEntry \<Rightarrow> bytes" where
  "entry_bytes h e = take (resp_size e) (the (h (resp e)))"

definition cache_entries :: "filecache \<Rightarrow> heap \<Rightarrow> (string \<times> bytes) list" where
  "cache_entries c h = map (\<lambda>e. (key e, entry_bytes h e)) (live c)"

text \<open>The abstract cache: a list of bindings, oldest first.\<close>

definition fifo_insert :: "nat \<Rightarrow> 'k \<Rightarrow> 'v \<Rightarrow> ('k \<times> 'v) list \<Rightarrow> ('k \<times> 'v) list" where
  "fifo_insert m k v xs =
     (if k \<in> fst ` set xs then map (\<lambda>(k', v'). if k' = k then (k', v) else (k', v')) xs
      else (if length xs = m then tl xs else xs) @ [(k, v)])"

subsection \<open>Searching the array\<close>

lemma cache_find_Some:
  "cache_find es i n k = Some j \<Longrightarrow>
     i \<le> j \<and> j < n \<and> key (es ! j) = k \<and> (\<forall>l. i \<le> l \<and> l < j \<longrightarrow> key (es ! l) \<noteq> k)"
proof (induction es i n k rule: cache_find.induct)
  case (1 es i n k)
  show ?case
  proof (cases "i < n \<and> key (es ! i) \<noteq> k")
    case True
    with "1.prems" have "cache_find es (Suc i) n k = Some j"
      by (simp add: cache_find.simps [of es i])
    with "1.IH" True have "Suc i \<le> j \<and> j < n \<and> key (es ! j) = k \<and>
        (\<forall>l. Suc i \<le> l \<and> l < j \<longrightarrow> key (es ! l) \<noteq> k)" by blast
    with True show ?thesis by (metis Suc_leD Suc_leI le_neq_implies_less)
  next
    case False
    with "1.prems" show ?thesis
      by (auto simp: cache_find.simps [of es i] split: if_splits)
  qed
qed

lemma cache_find_None:
  "cache_find es i n k = None \<Longrightarrow> i \<le> l \<Longrightarrow> l < n \<Longrightarrow> key (es ! l) \<noteq> k"
proof (induction es i n k rule: cache_find.induct)
  case (1 es i n k)
  then have "i < n" by simp
  with "1.prems" have ne: "key (es ! i) \<noteq> k" and none: "cache_find es (Suc i) n k = None"
    by (auto simp: cache_find.simps [of es i] split: if_splits)
  show ?case
  proof (cases "l = i")
    case True
    with ne show ?thesis by simp
  next
    case False
    with "1.IH" \<open>i < n\<close> ne none "1.prems" show ?thesis by simp
  qed
qed

lemma cache_find_live:
  assumes "cache_inv c h"
  shows "cache_find (cache c) 0 (cache_size c) k = None \<Longrightarrow> k \<notin> key ` set (live c)"
    and "cache_find (cache c) 0 (cache_size c) k = Some j \<Longrightarrow>
      j < cache_size c \<and> j < length (cache c) \<and> cache c ! j \<in> set (live c) \<and> key (cache c ! j) = k"
proof -
  have len: "cache_size c \<le> length (cache c)" using assms by (simp add: cache_inv_def)
  show "k \<notin> key ` set (live c)" if "cache_find (cache c) 0 (cache_size c) k = None"
    using cache_find_None [OF that] len by (fastforce simp: in_set_conv_nth)
  assume j: "cache_find (cache c) 0 (cache_size c) k = Some j"
  from cache_find_Some [OF j] len
  show "j < cache_size c \<and> j < length (cache c) \<and> cache c ! j \<in> set (live c) \<and> key (cache c ! j) = k"
    by (auto simp: in_set_conv_nth)
qed

lemma map_of_entries:
  assumes "distinct (map key es)" "e \<in> set es"
  shows "map_of (map (\<lambda>e. (key e, f e)) es) (key e) = Some (f e)"
  using assms by (induction es) (auto simp: rev_image_eqI)

lemma cache_lookup_entries:
  assumes inv: "cache_inv c h"
  shows "map_option (entry_bytes h) (cache_lookup k c) = map_of (cache_entries c h) k"
proof (cases "cache_find (cache c) 0 (cache_size c) k")
  case None
  with cache_find_live(1) [OF inv] have "k \<notin> key ` set (live c)" by blast
  then have "map_of (cache_entries c h) k = None"
    by (auto simp: cache_entries_def map_of_eq_None_iff)
  with None show ?thesis by (simp add: cache_lookup_def)
next
  case (Some j)
  with cache_find_live(2) [OF inv] have e: "cache c ! j \<in> set (live c)" "key (cache c ! j) = k"
    by blast+
  have "map_of (cache_entries c h) k = Some (entry_bytes h (cache c ! j))"
    unfolding cache_entries_def using map_of_entries [of "live c"] e inv
    by (auto simp: cache_inv_def)
  with Some show ?thesis by (simp add: cache_lookup_def)
qed

lemma cache_lookup_size:
  assumes "cache_inv c h" "cache_lookup k c = Some e"
  shows "h_read (resp e) 0 (resp_size e) h = Inr (entry_bytes h e)" "key e = k"
proof -
  from assms(2) obtain j where j: "cache_find (cache c) 0 (cache_size c) k = Some j" "e = cache c ! j"
    by (auto simp: cache_lookup_def)
  with cache_find_live(2) [OF assms(1) j(1)] have "e \<in> set (live c)" "key e = k" by auto
  with assms(1) show "h_read (resp e) 0 (resp_size e) h = Inr (entry_bytes h e)" "key e = k"
    by (auto simp: cache_inv_def entry_ok_def h_read_def entry_bytes_def)
qed

subsection \<open>Inserting\<close>

lemma entry_ok_upd: "entry_ok h e \<Longrightarrow> resp e \<noteq> a \<Longrightarrow> entry_ok (h(a := x)) e"
  by (auto simp: entry_ok_def)

lemma cache_inv_live_resp:
  assumes "cache_inv c h" "e \<in> set (live c)" "e' \<in> set (live c)" "resp e = resp e'"
  shows "e = e'"
  using assms by (auto simp: cache_inv_def distinct_map inj_on_def)

lemma cache_evict_ok:
  assumes inv: "cache_inv c h"
  obtains c' h' where "cache_evict c h = Inr (c', h')" "cache_inv c' h'"
    "cache_size c' < MAX_CACHE_ENTRIES"
    "live c' = (if cache_size c = MAX_CACHE_ENTRIES then tl (live c) else live c)"
    "h' = (if cache_size c = MAX_CACHE_ENTRIES then h(resp (cache c ! 0) := None) else h)"
    "cache_entries c' h' =
       (if cache_size c = MAX_CACHE_ENTRIES then tl (cache_entries c h) else cache_entries c h)"
proof (cases "cache_size c = MAX_CACHE_ENTRIES")
  case False
  then show ?thesis using that [of c h] inv by (auto simp: cache_evict_def cache_inv_def)
next
  case True
  let ?e = "cache c ! 0" and ?h = "h(resp (cache c ! 0) := None)"
  let ?c = "c\<lparr>cache := memmove0 (cache c) 1 (MAX_CACHE_ENTRIES - 1), cache_size := cache_size c - 1\<rparr>"
  have len: "length (cache c) = 16" and all: "live c = cache c"
    using inv True by (auto simp: cache_inv_def MAX_CACHE_ENTRIES_def)
  then obtain e0 es where es: "cache c = e0 # es" "length es = 15"
    by (cases "cache c") auto
  have live: "live ?c = es"
    using True len es by (simp add: memmove0_def MAX_CACHE_ENTRIES_def)
  have e: "entry_ok h e0" "distinct (map key (e0 # es))" "distinct (map resp (e0 # es))"
      "\<forall>e\<in>set es. entry_ok h e"
    using inv es True by (simp_all add: cache_inv_def MAX_CACHE_ENTRIES_def)
  have ne: "\<forall>e\<in>set es. resp e \<noteq> resp ?e" using e(3) es(1) by (metis (mono_tags) distinct.simps(2) image_eqI list.map(2) list.set_map nth_Cons_0)
  have free: "h_free (resp ?e) h = Inr ?h"
    using e(1) by (auto simp: h_free_def entry_ok_def es)
  have inv': "cache_inv ?c ?h"
    unfolding cache_inv_def live using True e ne len
    by (auto simp: MAX_CACHE_ENTRIES_def intro: entry_ok_upd)
  have ent: "cache_entries ?c ?h = tl (cache_entries c h)"
    unfolding cache_entries_def live all using ne by (subst es(1)) (auto simp: entry_bytes_def)
  show ?thesis
    by (rule that [of ?c ?h]) (use True free inv' live all es ent in
      \<open>auto simp: cache_evict_def MAX_CACHE_ENTRIES_def\<close>)
qed

lemma cache_push_ok:
  fixes c :: filecache and h :: heap and k :: string and r :: addr and b :: bytes and sz :: nat
  defines "e \<equiv> \<lparr>key = k, resp = r, resp_size = sz\<rparr>"
  defines "c' \<equiv> c\<lparr>cache := (cache c)[cache_size c := e], cache_size := cache_size c + 1\<rparr>"
  assumes inv: "cache_inv c h" and room: "cache_size c < MAX_CACHE_ENTRIES"
    and new: "k \<notin> key ` set (live c)" "r \<notin> cache_owned c" "h r = Some b" "r \<noteq> 0" "sz \<le> length b"
    and short: "length k < PATH_MAX"
  shows "cache_inv c' h" "live c' = live c @ [e]" "cache_entries c' h = cache_entries c h @ [(k, take sz b)]"
proof -
  have len: "length (cache c) = MAX_CACHE_ENTRIES" using inv by (simp add: cache_inv_def)
  show live: "live c' = live c @ [e]"
    using room len by (simp add: c'_def take_Suc_conv_app_nth)
  show "cache_inv c' h"
    unfolding cache_inv_def live using inv room new short len
    by (auto simp: c'_def e_def cache_inv_def cache_owned_def entry_ok_def)
  show "cache_entries c' h = cache_entries c h @ [(k, take sz b)]"
    using new(3) by (simp add: cache_entries_def live) (simp add: e_def entry_bytes_def)
qed

text \<open>Overwriting the response of slot \<open>j\<close>: no other slot has its key, its old block or its new one.\<close>

lemma slot_alone:
  assumes inv: "cache_inv c h" and j: "j < cache_size c" and i: "i < length (live c)" "i \<noteq> j" and r: "r \<notin> cache_owned c"
  shows "resp (live c ! i) \<noteq> resp (cache c ! j)" "key (live c ! i) \<noteq> key (cache c ! j)" "resp (live c ! i) \<noteq> r"
proof -
  have jl: "j < length (live c)" "live c ! j = cache c ! j" using inv j by (auto simp: cache_inv_def)
  show "resp (live c ! i) \<noteq> resp (cache c ! j)" "key (live c ! i) \<noteq> key (cache c ! j)" "resp (live c ! i) \<noteq> r"
    using i jl inv r nth_eq_iff_index_eq [of "map resp (live c)" i j]
      nth_eq_iff_index_eq [of "map key (live c)" i j] nth_mem [OF i(1)]
    by (auto simp: cache_inv_def cache_owned_def simp del: nth_take)
qed

lemma cache_update_ok:
  fixes c :: filecache and h :: heap and k :: string and r :: addr and b :: bytes and sz :: nat
  assumes inv: "cache_inv c h"
    and j: "j < cache_size c" "key (cache c ! j) = k"
    and new: "r \<notin> cache_owned c" "h r = Some b" "r \<noteq> 0" "sz \<le> length b"
  defines "e \<equiv> (cache c ! j)\<lparr>resp := r, resp_size := sz\<rparr>"
  defines "c' \<equiv> c\<lparr>cache := (cache c)[j := e]\<rparr>" and "h' \<equiv> h(resp (cache c ! j) := None)"
  shows "cache_inv c' h'" "live c' = (live c)[j := e]"
    "cache_entries c' h' = fifo_insert m k (take sz b) (cache_entries c h)"
proof -
  let ?o = "cache c ! j"
  have jl: "j < length (live c)" "live c ! j = ?o" using inv j by (auto simp: cache_inv_def)
  then have o: "?o \<in> set (live c)" by (metis nth_mem)
  show live: "live c' = (live c)[j := e]" by (simp add: c'_def take_update_swap)
  have keys: "map key ((live c)[j := e]) = map key (live c)"
    using jl by (simp add: map_update e_def list_update_same_conv)
  note other = slot_alone [OF inv j(1) _ _ new(1)]
  have r_new: "r \<noteq> resp ?o" using new(1) o by (auto simp: cache_owned_def)
  have ok: "entry_ok h' x" if "x \<in> set (live c')" for x
  proof -
    from that obtain i where i: "i < length (live c)" "x = (live c)[j := e] ! i" unfolding live by (auto simp: in_set_conv_nth)
    have "entry_ok h (live c ! i)" using inv nth_mem [OF i(1)] by (simp add: cache_inv_def del: nth_take)
    with i jl r_new new other(1) [OF i(1)] show ?thesis
      by (cases "i = j") (auto simp: entry_ok_def e_def h'_def simp del: nth_take)
  qed
  have "distinct (map resp ((live c)[j := e]))"
    unfolding map_update using inv new(1)
    by (intro distinct_list_update) (auto simp: cache_inv_def e_def cache_owned_def)
  then show "cache_inv c' h'" using inv ok keys unfolding cache_inv_def live by (simp add: c'_def)
  have kin: "k \<in> fst ` set (cache_entries c h)" using o j by (force simp: cache_entries_def)
  show "cache_entries c' h' = fifo_insert m k (take sz b) (cache_entries c h)"
  proof (rule nth_equalityI)
    fix i assume "i < length (cache_entries c' h')"
    then have i: "i < length (live c)" by (simp add: cache_entries_def live)
    with jl kin j r_new new other [OF i] show "cache_entries c' h' ! i = fifo_insert m k (take sz b) (cache_entries c h) ! i"
      by (cases "i = j") (simp_all add: cache_entries_def live fifo_insert_def e_def h'_def entry_bytes_def)
  qed (use kin in \<open>simp add: cache_entries_def live fifo_insert_def\<close>)
qed

text \<open>
  What an operation does to the heap, when it starts out owning the blocks \<open>A\<close> and ends
  owning \<open>A'\<close>: blocks of others are untouched, and what it no longer owns it has freed.
\<close>

definition owner_step :: "addr set \<Rightarrow> addr set \<Rightarrow> heap \<Rightarrow> heap \<Rightarrow> bool" where
  "owner_step A A' h h' \<longleftrightarrow>
     A' \<subseteq> A \<and> (\<forall>a. a \<notin> A - A' \<longrightarrow> h' a = h a) \<and> (\<forall>a\<in>A - A'. h' a = None)"

lemma cache_insert_hit:
  assumes inv: "cache_inv c h" and blk: "h r = Some b" "r \<noteq> 0" "r \<notin> cache_owned c" "sz \<le> length b"
    and Some: "cache_find (cache c) 0 (cache_size c) k = Some j"
  shows "\<exists>c' h'. cache_insert k r sz c h = Inr (c', h') \<and> cache_inv c' h' \<and>
    cache_entries c' h' = fifo_insert MAX_CACHE_ENTRIES k (take sz b) (cache_entries c h) \<and>
    r \<in> cache_owned c' \<and> owner_step (insert r (cache_owned c)) (cache_owned c') h h'"
proof -
  let ?o = "cache c ! j" and ?e = "(cache c ! j)\<lparr>resp := r, resp_size := sz\<rparr>"
  let ?c = "c\<lparr>cache := (cache c)[j := ?e]\<rparr>" and ?h = "h(resp ?o := None)"
  from cache_find_live(2) [OF inv Some] have j: "j < cache_size c" "?o \<in> set (live c)" "key ?o = k"
    "j < length (live c)" by auto
  note upd = cache_update_ok [OF inv j(1,3) blk(3,1,2,4)]
  have eo: "entry_ok h ?o" using inv j(2) by (simp add: cache_inv_def)
  have ins: "cache_insert k r sz c h = Inr (?c, ?h)"
    using Some eo by (auto simp: cache_insert_def h_free_def entry_ok_def)
  have set: "set ((live c)[j := ?e]) = insert ?e (set (live c) - {?o})"
    using j inv by (subst set_update_distinct) (auto simp: cache_inv_def distinct_map)
  have own: "cache_owned ?c = insert r (cache_owned c - {resp ?o})"
    unfolding cache_owned_def upd(2) set
    using cache_inv_live_resp [OF inv _ j(2)] by auto
  have "owner_step (insert r (cache_owned c)) (cache_owned ?c) h ?h"
    using own blk(3) j(2) by (auto simp: owner_step_def cache_owned_def)
  with ins upd(1) upd(3) [of MAX_CACHE_ENTRIES] own show ?thesis by blast
qed

text \<open>What a full cache owns besides its oldest entry.\<close>

lemma full_first:
  assumes inv: "cache_inv c h" and full: "cache_size c = MAX_CACHE_ENTRIES"
  shows "live c = cache c ! 0 # tl (live c) \<and> resp (cache c ! 0) \<in> cache_owned c"
  using assms by (cases "cache c") (auto simp: cache_inv_def cache_owned_def MAX_CACHE_ENTRIES_def)

lemma full_owned:
  assumes inv: "cache_inv c h" and live1: "live c1 = (if cache_size c = MAX_CACHE_ENTRIES then tl (live c) else live c)"
  shows "cache_owned c1 =
    (if cache_size c = MAX_CACHE_ENTRIES then cache_owned c - {resp (cache c ! 0)} else cache_owned c)"
proof (cases "cache_size c = MAX_CACHE_ENTRIES")
  case True
  note hd = full_first [OF inv True]
  have "distinct (map resp (live c))" using inv by (simp add: cache_inv_def)
  then have "distinct (map resp (cache c ! 0 # tl (live c)))" using hd by metis
  moreover have "cache_owned c = resp ` set (cache c ! 0 # tl (live c))" using hd by (metis cache_owned_def)
  ultimately show ?thesis using True live1 by (auto simp: cache_owned_def)
qed (simp add: cache_owned_def live1)

lemma cache_insert_new:
  assumes inv: "cache_inv c h" and blk: "h r = Some b" "r \<noteq> 0" "r \<notin> cache_owned c" "sz \<le> length b"
    and short: "length k < PATH_MAX" and None: "cache_find (cache c) 0 (cache_size c) k = None"
  shows "\<exists>c' h'. cache_insert k r sz c h = Inr (c', h') \<and> cache_inv c' h' \<and>
    cache_entries c' h' = fifo_insert MAX_CACHE_ENTRIES k (take sz b) (cache_entries c h) \<and>
    r \<in> cache_owned c' \<and> owner_step (insert r (cache_owned c)) (cache_owned c') h h'"
proof -
  have notin: "k \<notin> key ` set (live c)" by (rule cache_find_live(1) [OF inv None])
  obtain c1 h1 where ev: "cache_evict c h = Inr (c1, h1)" "cache_inv c1 h1"
    "cache_size c1 < MAX_CACHE_ENTRIES"
    and live1: "live c1 = (if cache_size c = MAX_CACHE_ENTRIES then tl (live c) else live c)"
    and h1: "h1 = (if cache_size c = MAX_CACHE_ENTRIES then h(resp (cache c ! 0) := None) else h)"
    and ent1: "cache_entries c1 h1 =
       (if cache_size c = MAX_CACHE_ENTRIES then tl (cache_entries c h) else cache_entries c h)"
    by (rule cache_evict_ok [OF inv])
  let ?e = "\<lparr>key = k, resp = r, resp_size = sz\<rparr>"
  let ?c = "c1\<lparr>cache := (cache c1)[cache_size c1 := ?e], cache_size := cache_size c1 + 1\<rparr>"
  have sub: "set (live c1) \<subseteq> set (live c)" using live1 by (auto simp: list.set_sel(2) split: if_splits)
      (metis list.sel(2) list.set_sel(2))
  note hd = full_first [OF inv]
  have r1: "r \<notin> cache_owned c1" "h1 r = Some b"
    using blk sub hd h1 by (auto simp: cache_owned_def split: if_splits)
  have k1: "k \<notin> key ` set (live c1)" using notin sub by auto
  note push = cache_push_ok [OF ev(2,3) k1 r1 blk(2,4) short]
  have own: "cache_owned ?c = insert r (cache_owned c1)" unfolding cache_owned_def push(2) by simp
  note own1 = full_owned [OF inv live1]
  have step: "owner_step (insert r (cache_owned c)) (cache_owned ?c) h h1"
    unfolding own own1 h1 using hd blk(3) by (auto simp: owner_step_def)
  have ins: "cache_insert k r sz c h = Inr (?c, h1)"
    using None ev(1) short by (simp add: cache_insert_def PATH_MAX_def)
  have "length (cache_entries c h) = cache_size c" "k \<notin> fst ` set (cache_entries c h)"
    using inv notin by (auto simp: cache_entries_def cache_inv_def)
  then have "cache_entries ?c h1 = fifo_insert MAX_CACHE_ENTRIES k (take sz b) (cache_entries c h)"
    using push(3) ent1 by (simp add: fifo_insert_def)
  with ins push(1) own step show ?thesis by blast
qed

lemma cache_insert_ok:
  assumes "cache_inv c h" "h r = Some b" "r \<noteq> 0" "r \<notin> cache_owned c" "sz \<le> length b" "length k < PATH_MAX"
  shows "\<exists>c' h'. cache_insert k r sz c h = Inr (c', h') \<and> cache_inv c' h' \<and>
    cache_entries c' h' = fifo_insert MAX_CACHE_ENTRIES k (take sz b) (cache_entries c h) \<and>
    r \<in> cache_owned c' \<and> owner_step (insert r (cache_owned c)) (cache_owned c') h h'"
  using cache_insert_hit [OF assms(1-5)] cache_insert_new [OF assms]
  by (cases "cache_find (cache c) 0 (cache_size c) k") blast+

subsection \<open>Clearing\<close>

lemma cache_free_loop_ok:
  assumes "i \<le> n" "n \<le> length es"
    and "distinct (map resp (drop i (take n es)))"
    and "\<forall>e\<in>set (drop i (take n es)). resp e \<noteq> 0 \<and> h (resp e) \<noteq> None"
  shows "\<exists>es'. length es' = length es \<and> cache_free_loop i n es h =
    Inr (es', \<lambda>a. if a \<in> resp ` set (drop i (take n es)) then None else h a)"
  using assms
proof (induction i n es h rule: cache_free_loop.induct)
  case (1 i n es h)
  show ?case
  proof (cases "i < n")
    case False
    then show ?thesis by (simp add: cache_free_loop.simps [of i])
  next
    case True
    let ?es = "es[i := (es ! i)\<lparr>resp := 0\<rparr>]" and ?h = "h(resp (es ! i) := None)"
    have split: "drop i (take n es) = es ! i # drop (Suc i) (take n es)"
      using True "1.prems"(2) by (simp add: Cons_nth_drop_Suc [symmetric])
    have rest: "drop (Suc i) (take n ?es) = drop (Suc i) (take n es)"
      by (simp add: take_update_swap)
    have free: "h_free (resp (es ! i)) h = Inr ?h"
      using "1.prems"(4) by (simp add: split h_free_def)
    have "\<exists>es'. length es' = length ?es \<and> cache_free_loop (Suc i) n ?es ?h =
        Inr (es', \<lambda>a. if a \<in> resp ` set (drop (Suc i) (take n ?es)) then None else ?h a)"
      by (rule "1.IH" [OF True free])
        (use True "1.prems" split in \<open>auto simp: rest image_iff\<close>)
    then show ?thesis
      using True free by (auto simp: cache_free_loop.simps [of i n es h] rest split fun_eq_iff)
  qed
qed

lemma cache_clear_ok:
  assumes inv: "cache_inv c h"
  shows "\<exists>c' h'. cache_clear c h = Inr (c', h') \<and> cache_inv c' h' \<and> cache_entries c' h' = [] \<and>
    cache_owned c' = {} \<and> owner_step (cache_owned c) {} h h'"
proof -
  have "\<exists>es'. length es' = length (cache c) \<and> cache_free_loop 0 (cache_size c) (cache c) h =
    Inr (es', \<lambda>a. if a \<in> resp ` set (drop 0 (live c)) then None else h a)"
    by (rule cache_free_loop_ok) (use inv in \<open>auto simp: cache_inv_def entry_ok_def\<close>)
  then obtain es where "length es = length (cache c)"
    "cache_free_loop 0 (cache_size c) (cache c) h =
      Inr (es, \<lambda>a. if a \<in> cache_owned c then None else h a)"
    by (auto simp: cache_owned_def)
  then show ?thesis using inv
    by (auto simp: cache_clear_def cache_inv_def cache_entries_def cache_owned_def owner_step_def)
qed

lemma cache_init_inv: "cache_inv cache_init h" "cache_entries cache_init h = []"
    "cache_owned cache_init = {}"
  by (simp_all add: cache_inv_def cache_init_def cache_entries_def cache_owned_def)

text \<open>A block of somebody else's comes or changes: the cache is not concerned.\<close>

lemma cache_inv_other:
  assumes "cache_inv c h" "a \<notin> cache_owned c"
  shows "cache_inv c (h(a := x))" "cache_entries c (h(a := x)) = cache_entries c h"
proof -
  have "\<forall>e\<in>set (live c). resp e \<noteq> a" using assms(2) by (auto simp: cache_owned_def)
  then show "cache_inv c (h(a := x))" "cache_entries c (h(a := x)) = cache_entries c h"
    using assms(1) by (auto simp: cache_inv_def cache_entries_def entry_bytes_def entry_ok_def)
qed

lemma cache_inv_owned: "cache_inv c h \<Longrightarrow> cache_owned c \<subseteq> dom h"
  by (auto simp: cache_inv_def cache_owned_def entry_ok_def)

lemma owner_step_dom: "owner_step A A' h h' \<Longrightarrow> dom h = A \<Longrightarrow> dom h' = A'"
proof (rule set_eqI)
  fix a
  assume step: "owner_step A A' h h'" and dom: "dom h = A"
  show "a \<in> dom h' \<longleftrightarrow> a \<in> A'"
  proof (cases "a \<in> A - A'")
    case True
    with step show ?thesis by (auto simp: owner_step_def)
  next
    case False
    with step have "h' a = h a" "A' \<subseteq> A" by (auto simp: owner_step_def)
    with False dom show ?thesis by (auto simp: dom_def)
  qed
qed

subsection \<open>The abstract first-in-first-out map\<close>

lemma fifo_insert_map_of:
  assumes "distinct (map fst xs)" "0 < m"
  shows "map_of (fifo_insert m k v xs) k = Some v"
proof (cases "k \<in> fst ` set xs")
  case True
  then show ?thesis
    by (simp add: fifo_insert_def) (induction xs, auto)
next
  case False
  then have "map_of (if length xs = m then tl xs else xs) k = None"
    by (cases xs) (auto simp: map_of_eq_None_iff)
  with False show ?thesis by (simp add: fifo_insert_def map_add_def)
qed

lemma fifo_insert_map_of_other:
  assumes "k' \<noteq> k" "distinct (map fst xs)"
  shows "map_of (fifo_insert m k v xs) k' \<in> {None, map_of xs k'}"
proof (cases "k \<in> fst ` set xs")
  case True
  have "map_of (map (\<lambda>(a, b). if a = k then (a, v) else (a, b)) xs) k' = map_of xs k'"
    using assms(1) by (induction xs) auto
  with True show ?thesis by (simp add: fifo_insert_def)
next
  case False
  have "map_of (tl xs) k' \<in> {None, map_of xs k'}"
    using assms by (cases xs) (auto simp: map_of_eq_None_iff)
  with False assms(1) show ?thesis
    by (auto simp: fifo_insert_def map_add_def split: option.splits)
qed

lemma fifo_insert_set: "set (fifo_insert m k v xs) \<subseteq> insert (k, v) (set xs)"
  by (cases xs) (auto simp: fifo_insert_def split: if_splits)

lemma fifo_insert_distinct:
  "distinct (map fst xs) \<Longrightarrow> distinct (map fst (fifo_insert m k v xs))"
proof -
  assume d: "distinct (map fst xs)"
  have "map fst (map (\<lambda>(a, b). if a = k then (a, v) else (a, b)) xs) = map fst xs"
    by (induction xs) auto
  moreover have "distinct (map fst ((if length xs = m then tl xs else xs) @ [(k, v)]))"
    if "k \<notin> fst ` set xs" using d that by (cases xs) auto
  ultimately show ?thesis using d unfolding fifo_insert_def by presburger
qed

lemma fifo_insert_length: "length xs \<le> m \<Longrightarrow> 0 < m \<Longrightarrow> length (fifo_insert m k v xs) \<le> m"
  by (auto simp: fifo_insert_def)

text \<open>Distinct keys inserted one after the other leave the last \<open>m\<close> of them, in order.\<close>

lemma fifo_insert_run:
  assumes "distinct (map fst (xs @ ys))" "length xs \<le> m" "0 < m"
  shows "fold (\<lambda>(k, v). fifo_insert m k v) ys xs = drop (length (xs @ ys) - m) (xs @ ys)"
  using assms
proof (induction ys arbitrary: xs)
  case Nil
  then show ?case by simp
next
  case (Cons y ys)
  obtain k v where y: "y = (k, v)" by (cases y)
  have k: "k \<notin> fst ` set xs" using Cons.prems(1) by (auto simp: y)
  show ?case
  proof (cases "length xs = m")
    case True
    with Cons.prems(3) obtain z zs where xs: "xs = z # zs" by (cases xs) auto
    have "fold (\<lambda>(k, v). fifo_insert m k v) ys (zs @ [y]) =
        drop (length ((zs @ [y]) @ ys) - m) ((zs @ [y]) @ ys)"
      by (rule Cons.IH) (use Cons.prems True xs in auto)
    moreover have "fifo_insert m k v xs = zs @ [y]"
      using k True by (simp add: y xs fifo_insert_def)
    ultimately show ?thesis using True by (simp add: y xs Suc_diff_le)
  next
    case False
    have "fold (\<lambda>(k, v). fifo_insert m k v) ys (xs @ [y]) =
        drop (length ((xs @ [y]) @ ys) - m) ((xs @ [y]) @ ys)"
      by (rule Cons.IH) (use Cons.prems False in auto)
    moreover have "fifo_insert m k v xs = xs @ [y]"
      using k False by (simp add: y fifo_insert_def)
    ultimately show ?thesis by (simp add: y)
  qed
qed

subsection \<open>The interface the servers rely on\<close>

text \<open>
  What the request handlers of both servers use of a response cache: the laws below and nothing
  about arrays. \<open>good\<close> is any property of a key and its response that the server establishes before
  it inserts; it then holds of every response a later lookup returns.
\<close>

locale response_cache =
  fixes inv :: "'c \<Rightarrow> heap \<Rightarrow> bool"
    and entries :: "'c \<Rightarrow> heap \<Rightarrow> (string \<times> bytes) list"
    and owned :: "'c \<Rightarrow> addr set"
    and lookup :: "string \<Rightarrow> 'c \<Rightarrow> heap \<Rightarrow> bytes option"
    and insrt :: "string \<Rightarrow> addr \<Rightarrow> nat \<Rightarrow> 'c \<Rightarrow> heap \<Rightarrow> ('c \<times> heap) cres"
    and clear :: "'c \<Rightarrow> heap \<Rightarrow> ('c \<times> heap) cres"
    and capacity :: nat
  assumes capacity_pos: "0 < capacity"
    and lookup_law: "inv c h \<Longrightarrow> lookup k c h = map_of (entries c h) k"
    and entries_law: "inv c h \<Longrightarrow> distinct (map fst (entries c h)) \<and> length (entries c h) \<le> capacity"
    and insert_law: "inv c h \<Longrightarrow> h r = Some b \<Longrightarrow> r \<noteq> 0 \<Longrightarrow> r \<notin> owned c \<Longrightarrow> sz \<le> length b \<Longrightarrow>
      length k < PATH_MAX \<Longrightarrow>
      \<exists>c' h'. insrt k r sz c h = Inr (c', h') \<and> inv c' h' \<and>
        entries c' h' = fifo_insert capacity k (take sz b) (entries c h) \<and>
        r \<in> owned c' \<and> owner_step (insert r (owned c)) (owned c') h h'"
    and clear_law: "inv c h \<Longrightarrow> \<exists>c' h'. clear c h = Inr (c', h') \<and> inv c' h' \<and>
        entries c' h' = [] \<and> owned c' = {} \<and> owner_step (owned c) {} h h'"
begin

definition all_good :: "(string \<Rightarrow> bytes \<Rightarrow> bool) \<Rightarrow> 'c \<Rightarrow> heap \<Rightarrow> bool" where
  "all_good good c h \<longleftrightarrow> (\<forall>(k, v)\<in>set (entries c h). good k v)"

lemma lookup_good: "inv c h \<Longrightarrow> all_good good c h \<Longrightarrow> lookup k c h = Some v \<Longrightarrow> good k v"
  by (auto simp: lookup_law all_good_def dest: map_of_SomeD)

lemma insert_good:
  assumes "inv c h" "h r = Some b" "r \<noteq> 0" "r \<notin> owned c" "sz \<le> length b" "length k < PATH_MAX"
    and "all_good good c h" "good k (take sz b)" "insrt k r sz c h = Inr (c', h')"
  shows "all_good good c' h' \<and> inv c' h'"
proof -
  from insert_law [OF assms(1-6)] assms(9)
  have "entries c' h' = fifo_insert capacity k (take sz b) (entries c h)" "inv c' h'" by auto
  with assms(7,8) fifo_insert_set [of capacity k "take sz b" "entries c h"] show ?thesis
    by (auto simp: all_good_def)
qed

lemma insert_lookup:
  assumes "inv c h" "h r = Some b" "r \<noteq> 0" "r \<notin> owned c" "sz \<le> length b" "length k < PATH_MAX"
  shows "\<exists>c' h'. insrt k r sz c h = Inr (c', h') \<and> inv c' h' \<and>
    lookup k c' h' = Some (take sz b) \<and> (\<forall>k'. k' \<noteq> k \<longrightarrow> lookup k' c' h' \<in> {None, lookup k' c h})"
proof -
  from insert_law [OF assms] obtain c' h' where *: "insrt k r sz c h = Inr (c', h')"
    "inv c' h'" "entries c' h' = fifo_insert capacity k (take sz b) (entries c h)" by auto
  have d: "distinct (map fst (entries c h))" using entries_law [OF assms(1)] by simp
  have "lookup k c' h' = Some (take sz b)"
    using * fifo_insert_map_of [OF d capacity_pos] by (simp add: lookup_law)
  moreover have "lookup k' c' h' \<in> {None, lookup k' c h}" if "k' \<noteq> k" for k'
    using * assms(1) fifo_insert_map_of_other [OF that d] by (simp add: lookup_law)
  ultimately show ?thesis using * by blast
qed

lemma clear_lookup:
  assumes "inv c h"
  shows "\<exists>c' h'. clear c h = Inr (c', h') \<and> inv c' h' \<and> (\<forall>k. lookup k c' h' = None)"
proof -
  from clear_law [OF assms] obtain c' h' where "clear c h = Inr (c', h')" "inv c' h'"
    "entries c' h' = []" by auto
  then show ?thesis by (auto simp: lookup_law)
qed

end

definition cache_get :: "string \<Rightarrow> filecache \<Rightarrow> heap \<Rightarrow> bytes option" where
  "cache_get k c h = map_option (entry_bytes h) (cache_lookup k c)"

lemma cache_entries_distinct:
  "cache_inv c h \<Longrightarrow> distinct (map fst (cache_entries c h)) \<and>
     length (cache_entries c h) \<le> MAX_CACHE_ENTRIES"
  by (auto simp: cache_inv_def cache_entries_def comp_def)

interpretation fc: response_cache cache_inv cache_entries cache_owned cache_get
  cache_insert cache_clear MAX_CACHE_ENTRIES
proof unfold_locales
  show "0 < MAX_CACHE_ENTRIES" by (simp add: MAX_CACHE_ENTRIES_def)
qed (simp_all add: cache_get_def cache_lookup_entries cache_entries_distinct cache_insert_ok
      cache_clear_ok)

subsection \<open>Properties\<close>

text \<open>C8: What \<^verbatim>\<open>cache_insert\<close> stored is what the next lookup of that key returns; every other key
  keeps its response or is no longer cached, it never shows another one's.\<close>

theorem cache_insert_lookup:
  assumes "cache_inv c h" "h r = Some b" "r \<noteq> 0" "r \<notin> cache_owned c" "sz \<le> length b"
    and "length k < PATH_MAX"
  shows "\<exists>c' h'. cache_insert k r sz c h = Inr (c', h') \<and> cache_inv c' h' \<and>
    cache_get k c' h' = Some (take sz b) \<and>
    (\<forall>k'. k' \<noteq> k \<longrightarrow> cache_get k' c' h' \<in> {None, cache_get k' c h})"
  by (rule fc.insert_lookup [OF assms])

theorem cache_insert_lookup_witness:
  "\<exists>c' h'. cache_insert ''/r/a'' 1 2 cache_init [1 \<mapsto> ''hi!''] = Inr (c', h') \<and>
     cache_get ''/r/a'' c' h' = Some ''hi''"
  using cache_insert_lookup [of cache_init "[1 \<mapsto> ''hi!'']" 1 "''hi!''" 2 "''/r/a''"] cache_init_inv
  by (auto simp: PATH_MAX_def)

text \<open>C7: The array refines a first-in-first-out map of sixteen bindings: an insertion updates the
  binding of its key in place or appends a new one, dropping the oldest when the array is full, and
  it frees exactly the blocks it stops owning.\<close>

theorem cache_insert_fifo:
  assumes "cache_inv c h" "h r = Some b" "r \<noteq> 0" "r \<notin> cache_owned c" "sz \<le> length b"
    and "length k < PATH_MAX" "dom h = insert r (cache_owned c)"
  shows "\<exists>c' h'. cache_insert k r sz c h = Inr (c', h') \<and>
    cache_entries c' h' = fifo_insert MAX_CACHE_ENTRIES k (take sz b) (cache_entries c h) \<and>
    dom h' = cache_owned c'"
proof -
  from cache_insert_ok [OF assms(1-6)] obtain c' h' where
    "cache_insert k r sz c h = Inr (c', h')"
    "cache_entries c' h' = fifo_insert MAX_CACHE_ENTRIES k (take sz b) (cache_entries c h)"
    "owner_step (insert r (cache_owned c)) (cache_owned c') h h'" by blast
  with owner_step_dom assms(7) show ?thesis by blast
qed

theorem cache_insert_fifo_witness:
  "\<exists>c' h'. cache_insert ''/r/a'' 1 2 cache_init [1 \<mapsto> ''hi!''] = Inr (c', h') \<and>
     cache_entries c' h' = [(''/r/a'', ''hi'')] \<and> dom h' = cache_owned c'"
  using cache_insert_fifo [of cache_init "[1 \<mapsto> ''hi!'']" 1 "''hi!''" 2 "''/r/a''"] cache_init_inv
  by (auto simp: PATH_MAX_def fifo_insert_def MAX_CACHE_ENTRIES_def)

text \<open>\<^verbatim>\<open>cache_clear\<close> frees every cached block once and leaves an empty cache.\<close>

lemma cache_clear_all:
  assumes "cache_inv c h" "dom h = cache_owned c"
  shows "\<exists>c' h'. cache_clear c h = Inr (c', h') \<and> cache_inv c' h' \<and> dom h' = {} \<and>
    (\<forall>k. cache_lookup k c' = None)"
proof -
  from cache_clear_ok [OF assms(1)] obtain c' h' where *: "cache_clear c h = Inr (c', h')"
    "cache_inv c' h'" "cache_entries c' h' = []" "owner_step (cache_owned c) {} h h'" by blast
  with owner_step_dom assms(2) have "dom h' = {}" by blast
  moreover have "cache_lookup k c' = None" for k
    using cache_lookup_entries [OF *(2), of k] *(3) by simp
  ultimately show ?thesis using * by blast
qed

end
