(* ===== verification/CArgs.thy ===== *)
theory CArgs
  imports Prelude
begin

section \<open>Command-line arguments, the integers of C and their decimal form\<close>

text \<open>
  The programs read their arguments with \<^verbatim>\<open>atoi\<close> and keep them in \<^verbatim>\<open>int\<close>, which has 32 bits in
  two's complement. A value outside that range is undefined behaviour, both as the result of
  \<^verbatim>\<open>atoi\<close> and as the result of signed arithmetic: it is the fault \<open>Overflow\<close> here.
\<close>

definition INT_MAX :: int where "INT_MAX = 2147483647"
definition INT_MIN :: int where "INT_MIN = - 2147483648"

definition int_ok :: "int \<Rightarrow> bool" where
  "int_ok x \<longleftrightarrow> INT_MIN \<le> x \<and> x \<le> INT_MAX"

definition chk :: "int \<Rightarrow> int cres" where
  "chk x = (if int_ok x then Inr x else Inl Overflow)"

lemma chk_Inr [simp]: "chk x = Inr y \<longleftrightarrow> int_ok x \<and> y = x"
  by (auto simp: chk_def)

lemma chk_ok: "int_ok x \<Longrightarrow> chk x = Inr x"
  by simp

lemmas int_ok_simps = int_ok_def INT_MIN_def INT_MAX_def

subsection \<open>atoi\<close>

definition isspace :: "char \<Rightarrow> bool" where
  "isspace c \<longleftrightarrow> c \<in> {CHR '' '', CHR 0x09, CHR 0x0A, CHR 0x0B, CHR 0x0C, CHR 0x0D}"

definition isdigit :: "char \<Rightarrow> bool" where
  "isdigit c \<longleftrightarrow> 48 \<le> (of_char c :: int) \<and> (of_char c :: int) \<le> 57"

fun digits_value :: "int \<Rightarrow> string \<Rightarrow> int" where
  "digits_value acc [] = acc"
| "digits_value acc (c # cs) = (if isdigit c then digits_value (10 * acc + (of_char c - 48)) cs else acc)"

fun signed_value :: "string \<Rightarrow> int" where
  "signed_value [] = 0"
| "signed_value (c # cs) =
     (if c = CHR ''-'' then - digits_value 0 cs
      else if c = CHR ''+'' then digits_value 0 cs else digits_value 0 (c # cs))"

definition atoi :: "string \<Rightarrow> int cres" where
  "atoi s = chk (signed_value (dropWhile isspace s))"

lemma atoi_ok: "atoi s = Inr x \<Longrightarrow> int_ok x"
  by (auto simp: atoi_def)

subsection \<open>Decimal numbers\<close>

definition digit :: "nat \<Rightarrow> char" where
  "digit n = char_of (48 + n)"

fun dec_nat :: "nat \<Rightarrow> string" where
  "dec_nat n = (if n < 10 then [digit n] else dec_nat (n div 10) @ [digit (n mod 10)])"

declare dec_nat.simps [simp del]

text \<open>\<^verbatim>\<open>%d\<close> and \<^verbatim>\<open>%lld\<close>\<close>

definition dec_int :: "int \<Rightarrow> string" where
  "dec_int x = (if x < 0 then CHR ''-'' # dec_nat (nat (- x)) else dec_nat (nat x))"

lemma length_dec_nat: "n < 10 ^ k \<Longrightarrow> 0 < k \<Longrightarrow> length (dec_nat n) \<le> k"
proof (induction n arbitrary: k rule: dec_nat.induct)
  case (1 n)
  show ?case
  proof (cases "n < 10")
    case True
    then show ?thesis using "1.prems" by (simp add: dec_nat.simps [of n])
  next
    case False
    obtain k' where k: "k = Suc k'" using "1.prems" by (cases k) auto
    moreover have "0 < k'" using "1.prems" False k by (cases k') auto
    ultimately have k: "k = Suc k'" "0 < k'" .
    with "1.prems" have "n div 10 < 10 ^ k'" by simp
    with "1.IH" [OF False] k False show ?thesis by (simp add: dec_nat.simps [of n])
  qed
qed

lemma dec_nat_digits: "c \<in> set (dec_nat n) \<Longrightarrow> \<exists>d<10. c = digit d"
proof (induction n rule: dec_nat.induct)
  case (1 n)
  then show ?case
    by (cases "n < 10") (auto simp: dec_nat.simps [of n] intro: exI [of _ "n mod 10"])
qed

lemma dec_nat_nonempty [simp]: "dec_nat n \<noteq> []"
  by (simp add: dec_nat.simps [of n])

subsection \<open>How a \<open>main\<close> starts\<close>

text \<open>\<^verbatim>\<open>main\<close> returns at once with an exit status, or goes on with what it read from its arguments.\<close>

datatype 'a started = Exit nat | Started 'a

text \<open>
  An array of variable length is undefined for a negative length; length 0 is the extension of the
  compiler the Makefiles call.
\<close>

definition vla :: "int \<Rightarrow> nat cres" where
  "vla n = (if n < 0 then Inl OutOfBounds else Inr (nat n))"

lemma vla_Inr [simp]: "vla n = Inr m \<longleftrightarrow> 0 \<le> n \<and> m = nat n"
  by (auto simp: vla_def)

end
