(* ===== verification/Syscalls.thy ===== *)
theory Syscalls
  imports CArgs
begin

section \<open>The system calls of the servers\<close>

text \<open>
  What the servers under \<^verbatim>\<open>event-based-concurrency/exercise\<close> use of the C library and of the
  kernel. The answers of the kernel are inputs of the model: the results of successive
  \<^verbatim>\<open>write\<close> calls are a list that is consumed call by call, the outcome of \<^verbatim>\<open>read\<close> on a
  socket is a function of the descriptor, and what \<^verbatim>\<open>realpath\<close>, \<^verbatim>\<open>stat\<close>, \<^verbatim>\<open>open\<close>,
  \<^verbatim>\<open>pread\<close>, \<^verbatim>\<open>read\<close> and \<^verbatim>\<open>malloc\<close> answer during one request is a record, which may
  differ from request to request. Counts are cut to what was asked for, as POSIX promises.
\<close>

datatype errno = EINTR | EAGAIN | ECONNRESET | EPIPE | EINPROGRESS | EOTHER

text \<open>Outcome of one \<^verbatim>\<open>write\<close> and of one \<^verbatim>\<open>read\<close> on a socket.\<close>

datatype wres = W nat | WErr errno
datatype rres = R bytes | RErr errno

text \<open>The file system and the allocator as the calls of one request see them.\<close>

record fstat =
  st_reg :: bool
  st_size :: int

record reqview =
  v_realpath :: "string \<Rightarrow> string option"
  v_stat :: "string \<Rightarrow> fstat option"
  v_open :: "string \<Rightarrow> bool"
  v_malloc :: malloc_choice
  v_pread :: "string \<Rightarrow> bytes option"
  v_chunks :: "string \<Rightarrow> bytes list"

subsection \<open>The listening socket\<close>

text \<open>
  What the calls that set up the listening socket answer; every one that is checked and fails ends
  the program. The port is cut to 16 bits. The result of \<^verbatim>\<open>setsockopt\<close> is ignored by the servers built
  on \<^verbatim>\<open>select\<close>.
\<close>

record listen_env =
  l_socket :: int
  l_setsockopt :: bool
  l_bind :: "nat \<Rightarrow> bool"
  l_listen :: bool

definition create_listen_socket :: "listen_env \<Rightarrow> int \<Rightarrow> int started" where
  "create_listen_socket e port_num =
     (if l_socket e < 0 then Exit 1
      else if \<not> l_bind e (nat (port_num mod 2 ^ 16)) then Exit 1
      else if \<not> l_listen e then Exit 1
      else Started (l_socket e))"

text \<open>A kernel that lets a server listen on one port, for the examples.\<close>

definition demo_listen :: "nat \<Rightarrow> listen_env" where
  "demo_listen port_num = \<lparr>l_socket = 3, l_setsockopt = True, l_bind = (\<lambda>p. p = port_num), l_listen = True\<rparr>"

subsection \<open>Formatted output\<close>

text \<open>
  \<^verbatim>\<open>n = snprintf (buf, size, ...)\<close> followed by a use of the first \<open>n\<close> bytes of \<^verbatim>\<open>buf\<close>: the
  text is cut to \<open>size - 1\<close> bytes and terminated, while \<open>n\<close> is the length of the whole text.
\<close>

definition snprintf_out :: "nat \<Rightarrow> string \<Rightarrow> bytes cres" where
  "snprintf_out sz s =
     (let b = take (sz - 1) s @ [NUL]
      in if length s \<le> length b then Inr (take (length s) b) else Inl OutOfBounds)"

lemma snprintf_out_fits [simp]: "length s < sz \<Longrightarrow> snprintf_out sz s = Inr s"
  by (simp add: snprintf_out_def)

subsection \<open>Writing a whole buffer\<close>

text \<open>
  The loop of \<^verbatim>\<open>write_all\<close> and \<^verbatim>\<open>sock_send\<close>: it yields the return code, the bytes the kernel
  took, and the outcomes not yet consumed; \<open>Pending\<close> says that the last call is still blocked.
\<close>

fun write_loop :: "wres list \<Rightarrow> bytes \<Rightarrow> (int \<times> bytes \<times> wres list) cres" where
  "write_loop ws [] = Inr (0, [], ws)"
| "write_loop [] (b # bs) = Inl Pending"
| "write_loop (WErr e # ws) (b # bs) =
     (if e = EINTR then write_loop ws (b # bs) else Inr (-1, [], ws))"
| "write_loop (W n # ws) (b # bs) =
     cbind (write_loop ws (drop n (b # bs))) (\<lambda>(r, out, ws').
       Inr (r, take n (b # bs) @ out, ws'))"

text \<open>Outcomes without an error other than an interrupted call.\<close>

definition no_error :: "wres list \<Rightarrow> bool" where
  "no_error ws \<longleftrightarrow> (\<forall>e. WErr e \<in> set ws \<longrightarrow> e = EINTR)"

lemma write_loop_prefix:
  "write_loop ws bs = Inr (r, out, ws') \<Longrightarrow>
     (\<exists>rest. bs = out @ rest \<and> (r = 0 \<longrightarrow> rest = [])) \<and> (r = 0 \<or> r = -1) \<and> set ws' \<subseteq> set ws"
proof (induction ws bs arbitrary: r out ws' rule: write_loop.induct)
  case (4 n ws b bs)
  from "4.prems" obtain out' where w: "write_loop ws (drop n (b # bs)) = Inr (r, out', ws')"
    and out: "out = take n (b # bs) @ out'"
    by (auto simp del: take_Cons' drop_Cons')
  from "4.IH" [OF w] obtain rest where "drop n (b # bs) = out' @ rest" "r = 0 \<longrightarrow> rest = []"
    "r = 0 \<or> r = -1" "set ws' \<subseteq> set ws" by blast
  then show ?case using out
    by (metis append.assoc append_take_drop_id set_subset_Cons subset_trans)
qed (auto split: if_splits)

lemma write_loop_complete:
  "write_loop ws bs = Inr (r, out, ws') \<Longrightarrow> no_error ws \<Longrightarrow> r = 0 \<and> out = bs \<and> no_error ws'"
proof (induction ws bs arbitrary: r out ws' rule: write_loop.induct)
  case (4 n ws b bs)
  from "4.prems"(1) obtain out' where w: "write_loop ws (drop n (b # bs)) = Inr (r, out', ws')"
    and out: "out = take n (b # bs) @ out'"
    by (auto simp del: take_Cons' drop_Cons')
  have "no_error ws" using "4.prems"(2) by (simp add: no_error_def)
  from "4.IH" [OF w this] out show ?case by (metis append_take_drop_id)
qed (auto simp: no_error_def split: if_splits)

text \<open>
  Enough progress for the loop to return: the kernel takes at least one byte often enough, however
  often the call is interrupted in between.
\<close>

definition progress_count :: "wres list \<Rightarrow> nat" where
  "progress_count ws = length (filter (\<lambda>w. \<exists>n. w = W (Suc n)) ws)"

lemma write_loop_returns:
  "length bs \<le> progress_count ws \<Longrightarrow> \<exists>r out ws'. write_loop ws bs = Inr (r, out, ws')"
proof (induction ws bs rule: write_loop.induct)
  case (4 n ws b bs)
  have "length (drop n (b # bs)) \<le> progress_count ws"
    using "4.prems" by (cases n) (auto simp: progress_count_def)
  with "4.IH" obtain r out ws' where "write_loop ws (drop n (b # bs)) = Inr (r, out, ws')" by blast
  then show ?case by simp
qed (auto simp: progress_count_def)

end
