(* ===== verification/Framing.thy ===== *)
theory Framing
  imports Prelude
begin

section \<open>Line framing\<close>

text \<open>
  All three servers collect the bytes of a connection in a buffer and act on every line that is
  complete. The loop bodies differ, the buffer arithmetic does not: find a newline, overwrite it
  with a terminator, hand the front of the buffer out as a C string, move the remaining bytes to
  the front. The reference is \<open>nl_split\<close>, which splits a byte stream into its complete lines and
  an unfinished rest; the lemmas relate one turn of the loop to it.
\<close>

lemma dropWhile_Cons_length: "dropWhile P b = x # r \<Longrightarrow> length r < length b"
  by (metis Suc_le_lessD length_Cons length_dropWhile_le)

function nl_split :: "bytes \<Rightarrow> bytes list \<times> bytes" where
  "nl_split b =
     (case dropWhile (\<lambda>c. c \<noteq> NL) b of
        [] \<Rightarrow> ([], b)
      | _ # r \<Rightarrow> (takeWhile (\<lambda>c. c \<noteq> NL) b # fst (nl_split r), snd (nl_split r)))"
  by pat_completeness auto
termination
  by (relation "measure length") (auto dest: dropWhile_Cons_length)

declare nl_split.simps [simp del]

abbreviation complete_lines :: "bytes \<Rightarrow> bytes list" where
  "complete_lines b \<equiv> fst (nl_split b)"

abbreviation unfinished :: "bytes \<Rightarrow> bytes" where
  "unfinished b \<equiv> snd (nl_split b)"

lemma nl_split_none: "NL \<notin> set b \<Longrightarrow> nl_split b = ([], b)"
proof -
  assume "NL \<notin> set b"
  then have "dropWhile (\<lambda>c. c \<noteq> NL) b = []" by (auto simp: dropWhile_eq_Nil_conv)
  then show ?thesis by (subst nl_split.simps) (simp only: list.case)
qed

lemma nl_split_line:
  assumes "NL \<notin> set l"
  shows "nl_split (l @ NL # r) = (l # complete_lines r, unfinished r)"
proof -
  have "dropWhile (\<lambda>c. c \<noteq> NL) (l @ NL # r) = NL # r" "takeWhile (\<lambda>c. c \<noteq> NL) (l @ NL # r) = l"
    using assms by (simp_all add: dropWhile_append3 takeWhile_tail)
      (induction l, auto)
  then show ?thesis by (subst nl_split.simps) simp
qed

lemma nl_split_cases:
  obtains "NL \<notin> set b" | l r where "b = l @ NL # r" "NL \<notin> set l"
  by (metis split_list_first)

lemma nl_split_induct [case_names unfinished line]:
  assumes "\<And>b. NL \<notin> set b \<Longrightarrow> P b"
    and "\<And>l r. NL \<notin> set l \<Longrightarrow> P r \<Longrightarrow> P (l @ NL # r)"
  shows "P b"
proof (induction "length b" arbitrary: b rule: less_induct)
  case less
  show ?case
  proof (cases b rule: nl_split_cases)
    case 1
    then show ?thesis by (rule assms(1))
  next
    case (2 l r)
    with less have "P r" by simp
    with 2 show ?thesis using assms(2) by simp
  qed
qed

text \<open>The lines do not depend on how the bytes were cut into segments.\<close>

lemma nl_split_append:
  "nl_split (b @ d) =
     (complete_lines b @ complete_lines (unfinished b @ d), unfinished (unfinished b @ d))"
proof (induction b rule: nl_split_induct)
  case (unfinished b)
  then show ?case by (simp add: nl_split_none)
next
  case (line l r)
  then show ?case by (simp add: nl_split_line)
qed

lemma nl_split_concat: "concat (map (\<lambda>l. l @ [NL]) (complete_lines b)) @ unfinished b = b"
proof (induction b rule: nl_split_induct)
  case (unfinished b)
  then show ?case by (simp add: nl_split_none)
next
  case (line l r)
  then show ?case by (simp add: nl_split_line)
qed

lemma unfinished_no_NL: "NL \<notin> set (unfinished b)"
proof (induction b rule: nl_split_induct)
  case (unfinished b)
  then show ?case by (simp add: nl_split_none)
next
  case (line l r)
  then show ?case by (simp add: nl_split_line)
qed

lemma complete_lines_no_NL: "l \<in> set (complete_lines b) \<Longrightarrow> NL \<notin> set l"
proof (induction b rule: nl_split_induct)
  case (unfinished b)
  then show ?case by (simp add: nl_split_none)
next
  case (line l r)
  then show ?case by (auto simp: nl_split_line)
qed

lemma length_unfinished: "length (unfinished b) \<le> length b"
  using nl_split_concat [of b] by (metis length_append le_add2)

lemma count_complete_lines: "length (complete_lines b) = count_list b NL"
proof (induction b rule: nl_split_induct)
  case (unfinished b)
  then show ?case by (simp add: nl_split_none count_list_0_iff)
next
  case (line l r)
  then show ?case by (simp add: nl_split_line count_list_0_iff)
qed

text \<open>
  A request line with its optional carriage return removed, read as a C string: a request with a
  zero byte in it is cut there.
\<close>

definition strip_cr :: "bytes \<Rightarrow> bytes" where
  "strip_cr l = (if l \<noteq> [] \<and> last l = CR then butlast l else l)"

definition request_of :: "bytes \<Rightarrow> string" where
  "request_of l = cstr (strip_cr l)"

subsection \<open>One turn of the loop\<close>

text \<open>\<open>terminate_line b p\<close> is the buffer after \<^verbatim>\<open>*nl = 0\<close> and the removal of the carriage return.\<close>

definition terminate_line :: "bytes \<Rightarrow> nat \<Rightarrow> bytes" where
  "terminate_line b p =
     (let b1 = b[p := NUL] in if 0 < p \<and> b1 ! (p - 1) = CR then b1[p - 1 := NUL] else b1)"

lemma length_terminate_line [simp]: "length (terminate_line b p) = length b"
  by (simp add: terminate_line_def Let_def)

lemma drop_terminate_line: "drop (Suc p) (terminate_line b p) = drop (Suc p) b"
  by (simp add: terminate_line_def Let_def)

lemma cstr_terminate_line:
  assumes "p < length b"
  shows "cstr (terminate_line b p) = request_of (take p b)"
proof (cases "0 < p \<and> b ! (p - 1) = CR")
  case True
  then have p: "0 < p" "b ! (p - 1) = CR" by auto
  let ?q = "take (p - 1) b"
  have l: "take p b = ?q @ [CR]"
    using p assms take_Suc_conv_app_nth [of "p - 1" b] by simp
  have "terminate_line b p = b[p := NUL, p - 1 := NUL]"
    using p by (simp add: terminate_line_def Let_def)
  also have "\<dots> = ?q @ NUL # drop p (b[p := NUL])"
    using p assms by (subst upd_conv_take_nth_drop) simp_all
  finally have t: "terminate_line b p = (?q @ [NUL]) @ drop p (b[p := NUL])" by simp
  have "cstr (terminate_line b p) = cstr (?q @ [NUL])"
    unfolding t by (rule cstr_prefix) simp
  then show ?thesis by (simp add: request_of_def l strip_cr_def)
next
  case False
  have last: "take p b \<noteq> [] \<Longrightarrow> last (take p b) \<noteq> CR"
    using False assms by (auto simp: last_conv_nth min_def)
  have "terminate_line b p = b[p := NUL]"
    using False by (auto simp: terminate_line_def Let_def)
  also have "\<dots> = (take p b @ [NUL]) @ drop (Suc p) b"
    using assms by (simp add: upd_conv_take_nth_drop)
  finally have t: "terminate_line b p = (take p b @ [NUL]) @ drop (Suc p) b" .
  have "cstr (terminate_line b p) = cstr (take p b @ [NUL])"
    unfolding t by (rule cstr_prefix) simp
  then show ?thesis using last by (auto simp: request_of_def strip_cr_def)
qed

lemma nl_split_turn:
  assumes "memchr b NL n = Some p" "n \<le> length b"
    and "n' = n - (p + 1)" "drop (Suc p) b' = drop (Suc p) b" "length b' = length b"
  shows "nl_split (take n b) =
      (take p b # complete_lines (take n' (memmove0 b' (p + 1) n')),
       unfinished (take n' (memmove0 b' (p + 1) n')))"
    and "take n' (memmove0 b' (p + 1) n') = drop (Suc p) (take n b)"
proof -
  note m = memchr_Some [OF assms(1)]
  have "take n' (memmove0 b' (p + 1) n') = take n' (drop (p + 1) b')"
    using assms m by (intro take_memmove0) simp
  also have "\<dots> = take n' (drop (Suc p) b)" using assms(4) by simp
  finally show t: "take n' (memmove0 b' (p + 1) n') = drop (Suc p) (take n b)"
    using assms(3) by (simp add: drop_take)
  show "nl_split (take n b) =
      (take p b # complete_lines (take n' (memmove0 b' (p + 1) n')),
       unfinished (take n' (memmove0 b' (p + 1) n')))"
    unfolding t by (subst memchr_split [OF assms(1,2)]) (rule nl_split_line [OF m(4)])
qed

end
