(* ===== verification/Transitions.thy ===== *)
theory Transitions
  imports Prelude
begin

section \<open>Interleaved executions\<close>

text \<open>
  The threaded programs of the repository are modelled by a function that runs the next atomic
  statement of one thread, \<open>tstep i s\<close>, and returns \<open>None\<close> where that thread is blocked or has
  returned. A step of the program is a step of any of its threads; an execution is any sequence of
  such steps, so a statement about the reachable states holds under every scheduling. The
  locales state what is shown of a program (an inductive invariant, absence of deadlock, absence
  of endless executions) and derive what holds of all executions from it.
\<close>

subsection \<open>Steps, reachable states, schedules\<close>

definition par_step :: "nat \<Rightarrow> (nat \<Rightarrow> 's \<Rightarrow> 's option) \<Rightarrow> 's \<Rightarrow> 's \<Rightarrow> bool" where
  "par_step n tstep s s' \<longleftrightarrow> (\<exists>i<n. tstep i s = Some s')"

inductive reachable :: "('s \<Rightarrow> 's \<Rightarrow> bool) \<Rightarrow> 's \<Rightarrow> 's \<Rightarrow> bool" for R s0 where
  start: "reachable R s0 s0"
| step: "reachable R s0 s \<Longrightarrow> R s t \<Longrightarrow> reachable R s0 t"

lemma reachable_trans: "reachable R s t \<Longrightarrow> reachable R r s \<Longrightarrow> reachable R r t"
  by (induction rule: reachable.induct) (auto intro: reachable.step)

lemma reachable_rtranclp: "reachable R s t \<longleftrightarrow> R\<^sup>*\<^sup>* s t"
proof
  show "reachable R s t \<Longrightarrow> R\<^sup>*\<^sup>* s t"
    by (induction rule: reachable.induct) auto
  show "R\<^sup>*\<^sup>* s t \<Longrightarrow> reachable R s t"
    by (induction rule: rtranclp_induct) (auto intro: reachable.intros)
qed

lemma reachable_mono: "reachable R s t \<Longrightarrow> (\<And>x y. R x y \<Longrightarrow> S x y) \<Longrightarrow> reachable S s t"
  by (induction rule: reachable.induct) (auto intro: reachable.intros)

text \<open>An execution given by its schedule, the list of the threads that move.\<close>

fun run_sched :: "(nat \<Rightarrow> 's \<Rightarrow> 's option) \<Rightarrow> nat list \<Rightarrow> 's \<Rightarrow> 's option" where
  "run_sched tstep [] s = Some s"
| "run_sched tstep (i # is) s =
     (case tstep i s of None \<Rightarrow> None | Some s' \<Rightarrow> run_sched tstep is s')"

lemma run_sched_append:
  "run_sched f (xs @ ys) s = Option.bind (run_sched f xs s) (run_sched f ys)"
  by (induction xs arbitrary: s) (auto split: option.splits)

lemma run_sched_reachable:
  "run_sched tstep is s = Some t \<Longrightarrow> \<forall>i\<in>set is. i < n \<Longrightarrow> reachable (par_step n tstep) s t"
proof (induction "is" arbitrary: s)
  case Nil
  then show ?case by (auto intro: reachable.start)
next
  case (Cons i "is")
  then obtain s' where s': "tstep i s = Some s'" "run_sched tstep is s' = Some t"
    by (auto split: option.splits)
  then have "par_step n tstep s s'" using Cons.prems by (auto simp: par_step_def)
  then have "reachable (par_step n tstep) s s'" by (blast intro: reachable.intros)
  moreover have "reachable (par_step n tstep) s' t" using Cons s' by simp
  ultimately show ?case by (blast intro: reachable_trans)
qed

lemma reachable_run_sched:
  assumes "reachable (par_step n tstep) s t"
  shows "\<exists>is. (\<forall>i\<in>set is. i < n) \<and> run_sched tstep is s = Some t"
  using assms
proof (induction rule: reachable.induct)
  case start
  have "run_sched tstep [] s = Some s" by simp
  then show ?case by (metis empty_iff empty_set)
next
  case (step u t)
  then obtain "is" i where "\<forall>i\<in>set is. i < n" "run_sched tstep is s = Some u"
    and "i < n" "tstep i u = Some t"
    by (auto simp: par_step_def)
  then have "run_sched tstep (is @ [i]) s = Some t" "\<forall>i\<in>set (is @ [i]). i < n"
    by (auto simp: run_sched_append)
  then show ?case by blast
qed

subsection \<open>Contracts of a transition system\<close>

text \<open>An inductive invariant holds in every reachable state.\<close>

locale invariant_system =
  fixes R :: "'s \<Rightarrow> 's \<Rightarrow> bool" and s0 :: 's and inv :: "'s \<Rightarrow> bool"
  assumes inv_start: "inv s0"
    and inv_step: "inv s \<Longrightarrow> R s t \<Longrightarrow> inv t"
begin

lemma reachable_inv: "reachable R s0 s \<Longrightarrow> inv s"
  by (induction rule: reachable.induct) (auto intro: inv_start inv_step)

lemma reachable_inv_step: "reachable R s0 s \<Longrightarrow> R s t \<Longrightarrow> inv s \<and> inv t"
  using reachable_inv inv_step by blast

end

text \<open>Every reachable state that is not final has a successor.\<close>

locale deadlock_free_system = invariant_system +
  fixes final :: "'s \<Rightarrow> bool"
  assumes progress: "inv s \<Longrightarrow> \<not> final s \<Longrightarrow> \<exists>t. R s t"
begin

lemma no_deadlock: "reachable R s0 s \<Longrightarrow> \<not> final s \<Longrightarrow> \<exists>t. R s t"
  using reachable_inv progress by blast

end

text \<open>
  A bound that decreases with every step: no execution is endless, so a program that is also free
  of deadlock returns under every scheduler, fair or not.
\<close>

locale terminating_system = deadlock_free_system +
  fixes bound :: "'s \<Rightarrow> nat"
  assumes bound_decreases: "inv s \<Longrightarrow> R s t \<Longrightarrow> bound t < bound s"
begin

lemma no_endless_run: "\<not> (f 0 = s0 \<and> (\<forall>k. R (f k) (f (Suc k))))"
proof
  assume run: "f 0 = s0 \<and> (\<forall>k. R (f k) (f (Suc k)))"
  have reach: "reachable R s0 (f k)" for k
    by (induction k) (use run in \<open>auto intro: reachable.intros\<close>)
  have "bound (f k) + k \<le> bound s0" for k
  proof (induction k)
    case 0
    then show ?case using run by simp
  next
    case (Suc k)
    moreover have "bound (f (Suc k)) < bound (f k)"
      using bound_decreases reachable_inv reach run by blast
    ultimately show ?case by simp
  qed
  from this [of "Suc (bound s0)"] show False by simp
qed

lemma reaches_final: "inv s \<Longrightarrow> \<exists>t. reachable R s t \<and> final t"
proof (induction "bound s" arbitrary: s rule: less_induct)
  case less
  show ?case
  proof (cases "final s")
    case True
    then show ?thesis by (blast intro: reachable.start)
  next
    case False
    with less.prems obtain t where t: "R s t" using progress by blast
    then have "inv t" "bound t < bound s" using less.prems inv_step bound_decreases by blast+
    then obtain u where "reachable R t u" "final u" using less.hyps by blast
    moreover have "reachable R s t" using t by (blast intro: reachable.intros)
    ultimately show ?thesis by (blast intro: reachable_trans)
  qed
qed

lemma always_can_finish: "reachable R s0 s \<Longrightarrow> \<exists>t. reachable R s t \<and> final t"
  using reachable_inv reaches_final by blast

end

subsection \<open>Sums over threads\<close>

text \<open>
  \<open>tsum n w p\<close> adds up the weight \<open>w\<close> of the program points of the threads below \<open>n\<close>. The
  value of a semaphore plus the number of threads at certain points is constant in most programs
  of the repository; one step changes one summand. Weights are integers in the invariants, so that
  an update is a linear equation, and natural numbers in the bounds on the steps left.
\<close>

definition tsum :: "nat \<Rightarrow> ('p \<Rightarrow> 'a::comm_monoid_add) \<Rightarrow> (nat \<Rightarrow> 'p) \<Rightarrow> 'a" where
  "tsum n w p = (\<Sum>i<n. w (p i))"

lemma tsum_split: "i < n \<Longrightarrow> tsum n w p = w (p i) + (\<Sum>j\<in>{..<n} - {i}. w (p j))"
  unfolding tsum_def by (rule sum.remove) auto

lemma tsum_upd [tsum_simps]:
  fixes w :: "'p \<Rightarrow> int"
  assumes "i < n"
  shows "tsum n w (p(i := x)) = tsum n w p - w (p i) + w x"
proof -
  have "(\<Sum>j\<in>{..<n} - {i}. w ((p(i := x)) j)) = (\<Sum>j\<in>{..<n} - {i}. w (p j))"
    by (rule sum.cong) auto
  with tsum_split [OF assms, of w p] tsum_split [OF assms, of w "p(i := x)"] show ?thesis by simp
qed

lemma tsum_ge:
  fixes w :: "'p \<Rightarrow> int"
  shows "i < n \<Longrightarrow> (\<And>x. 0 \<le> w x) \<Longrightarrow> w (p i) \<le> tsum n w p"
  unfolding tsum_def by (rule member_le_sum) auto

lemma tsum_nonneg:
  fixes w :: "'p \<Rightarrow> int"
  shows "(\<And>i. i < n \<Longrightarrow> 0 \<le> w (p i)) \<Longrightarrow> 0 \<le> tsum n w p"
  unfolding tsum_def by (rule sum_nonneg) auto

text \<open>At most one thread carries weight.\<close>

lemma tsum_unique:
  fixes w :: "'p \<Rightarrow> int"
  assumes "tsum n w p \<le> 1" "\<And>x. 0 \<le> w x" "i < n" "j < n" "0 < w (p i)" "0 < w (p j)"
  shows "i = j"
proof (rule ccontr)
  assume "i \<noteq> j"
  then have "(\<Sum>k\<in>{i, j}. w (p k)) \<le> (\<Sum>k<n. w (p k))"
    using assms by (intro sum_mono2) auto
  with \<open>i \<noteq> j\<close> assms show False by (simp add: tsum_def)
qed

lemma tsum_pos:
  fixes w :: "'p \<Rightarrow> int"
  assumes "0 < tsum n w p"
  shows "\<exists>i<n. 0 < w (p i)"
proof (rule ccontr)
  assume "\<not> ?thesis"
  then have "tsum n w p \<le> 0" unfolding tsum_def by (intro sum_nonpos) auto
  with assms show False by simp
qed

lemma tsum_zero: "(\<And>i. i < n \<Longrightarrow> w (p i) = 0) \<Longrightarrow> tsum n w p = 0"
  unfolding tsum_def by simp

lemma tsum_const:
  fixes w :: "'p \<Rightarrow> int"
  shows "(\<And>i. i < n \<Longrightarrow> w (p i) = c) \<Longrightarrow> tsum n w p = int n * c"
  unfolding tsum_def by simp

lemma tsum_mono:
  fixes w :: "'p \<Rightarrow> int"
  shows "(\<And>i. i < n \<Longrightarrow> v (p i) \<le> w (q i)) \<Longrightarrow> tsum n v p \<le> tsum n w q"
  unfolding tsum_def by (rule sum_mono) auto

lemma tsum_add: "tsum n (\<lambda>x. v x + w x) p = tsum n v p + tsum n w p"
  unfolding tsum_def by (rule sum.distrib)

lemma tsum_cong: "(\<And>i. i < n \<Longrightarrow> v (p i) = w (q i)) \<Longrightarrow> tsum n v p = tsum n w q"
  unfolding tsum_def by (rule sum.cong) auto

text \<open>All threads carry weight when the sum is as large as it can be.\<close>

lemma tsum_full:
  fixes w :: "'p \<Rightarrow> int"
  assumes "int n \<le> tsum n w p" "\<And>x. w x \<le> 1" "i < n"
  shows "w (p i) = 1"
proof (rule ccontr)
  assume ne: "w (p i) \<noteq> 1"
  with assms(2) [of "p i"] have "w (p i) < 1" by simp
  then have "(\<Sum>k<n. w (p k)) < (\<Sum>k<n. 1)"
    by (intro sum_strict_mono_ex1) (use assms in auto)
  then show False using assms(1) by (simp add: tsum_def)
qed

lemma tsum_decrease:
  fixes w :: "'p \<Rightarrow> nat"
  assumes "i < n" "w x < w (p i)"
  shows "tsum n w (p(i := x)) < tsum n w p"
  unfolding tsum_def by (rule sum_strict_mono_ex1) (use assms in auto)

lemma tsum_bounded:
  fixes w :: "'p \<Rightarrow> nat"
  assumes "\<And>x. w x \<le> c"
  shows "tsum n w p \<le> n * c"
proof -
  have "(\<Sum>i<n. w (p i)) \<le> (\<Sum>i<n. c)" by (rule sum_mono) (rule assms)
  then show ?thesis by (simp add: tsum_def)
qed

text \<open>Two states that weigh the same for every thread but one.\<close>

lemma tsum_differ:
  fixes v :: "'p \<Rightarrow> int" and w :: "'q \<Rightarrow> int"
  assumes "j < n" "\<And>k. k < n \<Longrightarrow> k \<noteq> j \<Longrightarrow> v (p k) = w (q k)"
  shows "tsum n v p = tsum n w q + v (p j) - w (q j)"
proof -
  have "(\<Sum>k\<in>{..<n} - {j}. v (p k)) = (\<Sum>k\<in>{..<n} - {j}. w (q k))"
    by (rule sum.cong) (use assms in auto)
  with tsum_split [OF assms(1), of v p] tsum_split [OF assms(1), of w q] show ?thesis by simp
qed

end
