(* ===== verification/FileServer.thy ===== *)
theory FileServer
  imports FileCache Syscalls Framing Transitions
begin

section \<open>The select-based file server\<close>

text \<open>
  \<^verbatim>\<open>file-server.c\<close>: the connection table, the request handler \<^verbatim>\<open>serve_file\<close>, the line framing of
  \<^verbatim>\<open>process_requests\<close>, and the event loop with its two signal flags. The state record holds the
  globals of the program and what the outside sees of it: the bytes sent and received so far on the
  connection of each descriptor, the sockets that are open, and the number of files that are open.
\<close>

subsection \<open>State\<close>

definition MAX_CLIENTS :: nat where "MAX_CLIENTS = 64"
definition REQ_BUF_SIZE :: nat where "REQ_BUF_SIZE = 512"
definition FILE_BUF_SIZE :: nat where "FILE_BUF_SIZE = 4096"

record Client =
  fd :: int
  ip :: string
  port :: nat
  buf :: bytes
  buf_len :: nat

definition client0 :: Client where
  "client0 = \<lparr>fd = 0, ip = [], port = 0, buf = replicate REQ_BUF_SIZE NUL, buf_len = 0\<rparr>"

record fserver =
  running :: bool
  cache_clear_requested :: bool
  docroot :: string
  fcache :: filecache
  fheap :: heap
  clients :: "Client list"
  num_clients :: nat
  wrs :: "wres list"
  sent :: "int \<Rightarrow> bytes"
  rcvd :: "int \<Rightarrow> bytes"
  socks :: "int set"
  open_files :: nat
  clock :: nat

definition handle_sigint :: "fserver \<Rightarrow> fserver" where
  "handle_sigint s = s\<lparr>running := False\<rparr>"

definition handle_sigusr1 :: "fserver \<Rightarrow> fserver" where
  "handle_sigusr1 s = s\<lparr>cache_clear_requested := True\<rparr>"

subsection \<open>The connection table\<close>

definition remove_client :: "nat \<Rightarrow> fserver \<Rightarrow> fserver" where
  "remove_client i s =
     s\<lparr>socks := socks s - {fd (clients s ! i)},
       clients := (clients s)[i := clients s ! (num_clients s - 1)],
       num_clients := num_clients s - 1\<rparr>"

text \<open>
  \<^verbatim>\<open>accept\<close> hands over a descriptor with the peer's address and port; the table takes it, or the
  descriptor is closed at once. The slot keeps the bytes its buffer held before.
\<close>

definition add_client :: "int \<times> string \<times> nat \<Rightarrow> fserver \<Rightarrow> fserver" where
  "add_client conn s =
     (case conn of (cfd, cip, cport) \<Rightarrow>
        if MAX_CLIENTS \<le> num_clients s then s
        else s\<lparr>socks := insert cfd (socks s),
               sent := (sent s)(cfd := []), rcvd := (rcvd s)(cfd := []),
               clients := (clients s)[num_clients s :=
                 (clients s ! num_clients s)\<lparr>fd := cfd, buf_len := 0, port := cport, ip := cip\<rparr>],
               num_clients := num_clients s + 1\<rparr>)"

subsection \<open>Replies\<close>

definition write_all :: "int \<Rightarrow> bytes \<Rightarrow> fserver \<Rightarrow> (int \<times> fserver) cres" where
  "write_all cfd bs s =
     cbind (write_loop (wrs s) bs) (\<lambda>(r, out, ws).
       Inr (r, s\<lparr>wrs := ws, sent := (sent s)(cfd := sent s cfd @ out)\<rparr>))"

definition send_error :: "int \<Rightarrow> string \<Rightarrow> fserver \<Rightarrow> fserver cres" where
  "send_error cfd reason s =
     cbind (snprintf_out 256 (''-ERR '' @ reason @ [NL])) (\<lambda>msg.
       cbind (write_all cfd msg s) (\<lambda>(_, s'). Inr s'))"

text \<open>\<^verbatim>\<open>send_error\<close> followed by \<^verbatim>\<open>return 0\<close>.\<close>

definition refuse :: "int \<Rightarrow> string \<Rightarrow> fserver \<Rightarrow> (int \<times> fserver) cres" where
  "refuse cfd reason s = cbind (send_error cfd reason s) (\<lambda>s'. Inr (0, s'))"

definition candidate :: "string \<Rightarrow> string \<Rightarrow> string" where
  "candidate root filename = take (PATH_MAX * 2 - 1) (root @ ''/'' @ filename)"

text \<open>The prefix test: \<^verbatim>\<open>strncmp\<close> over the length of the root and a look at the next byte.\<close>

definition in_docroot :: "string \<Rightarrow> string \<Rightarrow> bool" where
  "in_docroot root p \<longleftrightarrow>
     take (length root) p = root \<and>
     (case drop (length root) p of [] \<Rightarrow> True | c # _ \<Rightarrow> c = CHR ''/'')"

text \<open>The streaming path: successive \<^verbatim>\<open>read\<close>s of the open file until one returns nothing.\<close>

fun stream_loop :: "int \<Rightarrow> bytes list \<Rightarrow> fserver \<Rightarrow> (int \<times> fserver) cres" where
  "stream_loop cfd [] s = Inr (0, s)"
| "stream_loop cfd (c # cs) s =
     (if take FILE_BUF_SIZE c = [] then Inr (0, s)
      else cbind (write_all cfd (take FILE_BUF_SIZE c) s) (\<lambda>(r, s').
             if r < 0 then Inr (-1, s') else stream_loop cfd cs s'))"

definition close_file :: "fserver \<Rightarrow> fserver" where
  "close_file s = s\<lparr>open_files := open_files s - 1\<rparr>"

definition serve_stream :: "reqview \<Rightarrow> int \<Rightarrow> string \<Rightarrow> bytes \<Rightarrow> fserver \<Rightarrow> (int \<times> fserver) cres" where
  "serve_stream v cfd resolved header s =
     cbind (write_all cfd header s) (\<lambda>(r, s1).
       if r < 0 then Inr (-1, close_file s1)
       else cbind (stream_loop cfd (v_chunks v resolved) s1) (\<lambda>(r2, s2).
              Inr (r2, close_file s2)))"

text \<open>\<^verbatim>\<open>pread\<close> into the response block behind the header.\<close>

definition pread_into :: "reqview \<Rightarrow> string \<Rightarrow> nat \<Rightarrow> addr \<Rightarrow> nat \<Rightarrow> heap \<Rightarrow> (int \<times> heap) cres" where
  "pread_into v resolved fsize r hlen h =
     (if fsize = 0 then Inr (0, h)
      else case v_pread v resolved of
             None \<Rightarrow> Inr (-1, h)
           | Some d \<Rightarrow> cbind (h_write r hlen (take fsize d) h) (\<lambda>h'.
                         Inr (int (length (take fsize d)), h')))"

text \<open>The cache-eligible path: the whole response in one block, sent, then handed to the cache.\<close>

definition serve_small ::
  "reqview \<Rightarrow> int \<Rightarrow> string \<Rightarrow> bytes \<Rightarrow> nat \<Rightarrow> fserver \<Rightarrow> (int \<times> fserver) cres" where
  "serve_small v cfd resolved header fsize s =
     (let hlen = length header; size = hlen + fsize
      in case h_malloc (v_malloc v) (size + 1) (fheap s) of
           None \<Rightarrow> serve_stream v cfd resolved header s
         | Some (r, h0) \<Rightarrow>
             cbind (h_write r 0 header h0) (\<lambda>h1.
             cbind (pread_into v resolved fsize r hlen h1) (\<lambda>(nr, h2).
               if nr = int fsize then
                 cbind (h_read r 0 size h2) (\<lambda>response.
                 cbind (write_all cfd response (close_file (s\<lparr>fheap := h2\<rparr>))) (\<lambda>(rc, s3).
                   if rc < 0 then
                     cbind (h_free r (fheap s3)) (\<lambda>h4. Inr (-1, s3\<lparr>fheap := h4\<rparr>))
                   else
                     cbind (cache_insert resolved r size (fcache s3) (fheap s3)) (\<lambda>(c4, h4).
                       Inr (0, s3\<lparr>fcache := c4, fheap := h4\<rparr>))))
               else
                 cbind (h_free r h2) (\<lambda>h3.
                   serve_stream v cfd resolved header (s\<lparr>fheap := h3\<rparr>)))))"

definition serve_miss :: "reqview \<Rightarrow> int \<Rightarrow> string \<Rightarrow> fserver \<Rightarrow> (int \<times> fserver) cres" where
  "serve_miss v cfd resolved s =
     (case v_stat v resolved of
        None \<Rightarrow> refuse cfd ''stat failed'' s
      | Some st \<Rightarrow>
          if \<not> st_reg st then refuse cfd ''not a regular file'' s
          else if \<not> v_open v resolved then refuse cfd ''open failed'' s
          else
            let s1 = s\<lparr>open_files := open_files s + 1\<rparr>
            in cbind (snprintf_out 64 (''+OK '' @ dec_int (st_size st) @ [NL])) (\<lambda>header.
                 if 0 \<le> st_size st \<and> nat (st_size st) \<le> MAX_CACHE_FILE_SIZE
                 then serve_small v cfd resolved header (nat (st_size st)) s1
                 else serve_stream v cfd resolved header s1))"

definition serve_file ::
  "(nat \<Rightarrow> reqview) \<Rightarrow> int \<Rightarrow> string \<Rightarrow> fserver \<Rightarrow> (int \<times> fserver) cres" where
  "serve_file env cfd filename s0 =
     (let v = env (clock s0); s = s0\<lparr>clock := clock s0 + 1\<rparr>
      in if filename = [] then refuse cfd ''empty filename'' s
         else if hd filename = CHR ''/'' then refuse cfd ''absolute paths not allowed'' s
         else case v_realpath v (candidate (docroot s) filename) of
                None \<Rightarrow> refuse cfd ''not found'' s
              | Some resolved \<Rightarrow>
                  if \<not> in_docroot (docroot s) resolved then refuse cfd ''access denied'' s
                  else case cache_lookup resolved (fcache s) of
                         Some e \<Rightarrow>
                           cbind (h_read (resp e) 0 (resp_size e) (fheap s)) (\<lambda>response.
                           cbind (write_all cfd response s) (\<lambda>(rc, s1).
                             Inr (if rc < 0 then -1 else 0, s1)))
                       | None \<Rightarrow> serve_miss v cfd resolved s)"

subsection \<open>Requests of one connection\<close>

text \<open>
  \<^verbatim>\<open>process_requests\<close> works on one slot of the table through a pointer; the slot is passed and
  returned here, next to the rest of the state.
\<close>

function process_requests ::
  "(nat \<Rightarrow> reqview) \<Rightarrow> Client \<Rightarrow> fserver \<Rightarrow> (int \<times> Client \<times> fserver) cres" where
  "process_requests env c s =
     (case memchr (buf c) NL (buf_len c) of
        None \<Rightarrow> Inr (if REQ_BUF_SIZE - 1 \<le> buf_len c then -1 else 0, c, s)
      | Some p \<Rightarrow>
          let b = terminate_line (buf c) p
          in cbind (serve_file env (fd c) (cstr b) s) (\<lambda>(r, s').
               if r < 0 then Inr (-1, c\<lparr>buf := b\<rparr>, s')
               else let n = buf_len c - (p + 1)
                    in process_requests env (c\<lparr>buf := memmove0 b (p + 1) n, buf_len := n\<rparr>) s'))"
  by pat_completeness auto
termination
  by (relation "measure (\<lambda>(env, c, s). buf_len c)") (auto dest: memchr_Some(1))

declare process_requests.simps [simp del]

subsection \<open>The event loop\<close>

text \<open>
  What the kernel answers during one turn of the loop: the outcome of \<^verbatim>\<open>select\<close> (an error or
  the ready descriptors), the connections \<^verbatim>\<open>accept\<close> hands out before it fails, and what
  \<^verbatim>\<open>read\<close> yields on each socket.
\<close>

record loop_env =
  e_select :: "errno + int set"
  e_accept :: "(int \<times> string \<times> nat) list"
  e_read :: "int \<Rightarrow> rres"

definition client_body ::
  "(nat \<Rightarrow> reqview) \<Rightarrow> (int \<Rightarrow> rres) \<Rightarrow> int set \<Rightarrow> nat \<Rightarrow> fserver \<Rightarrow> fserver cres" where
  "client_body env rd ready i s =
     (let c = clients s ! i
      in if fd c \<notin> ready then Inr s
         else case rd (fd c) of
                RErr e \<Rightarrow> Inr (remove_client i s)
              | R bs \<Rightarrow>
                  let d = take (REQ_BUF_SIZE - 1 - buf_len c) bs
                  in if d = [] then Inr (remove_client i s)
                     else cbind (process_requests env
                              (c\<lparr>buf := blit (buf c) (buf_len c) d,
                                 buf_len := buf_len c + length d\<rparr>)
                              (s\<lparr>rcvd := (rcvd s)(fd c := rcvd s (fd c) @ d)\<rparr>)) (\<lambda>(r, c', s').
                            let s2 = s'\<lparr>clients := (clients s')[i := c']\<rparr>
                            in Inr (if r < 0 then remove_client i s2 else s2)))"

text \<open>The loop over the table, from the last slot in use down to the first.\<close>

fun client_loop ::
  "(nat \<Rightarrow> reqview) \<Rightarrow> (int \<Rightarrow> rres) \<Rightarrow> int set \<Rightarrow> nat \<Rightarrow> fserver \<Rightarrow> fserver cres" where
  "client_loop env rd ready 0 s = Inr s"
| "client_loop env rd ready (Suc i) s =
     cbind (client_body env rd ready i s) (client_loop env rd ready i)"

definition live_fds :: "fserver \<Rightarrow> int list" where
  "live_fds s = map fd (take (num_clients s) (clients s))"

definition event_turn ::
  "(nat \<Rightarrow> reqview) \<Rightarrow> loop_env \<Rightarrow> int \<Rightarrow> fserver \<Rightarrow> (bool \<times> fserver) cres" where
  "event_turn env le listen_fd s0 =
     cbind (if cache_clear_requested s0
            then cbind (cache_clear (fcache s0) (fheap s0)) (\<lambda>(c, h).
                   Inr (s0\<lparr>cache_clear_requested := False, fcache := c, fheap := h\<rparr>))
            else Inr s0) (\<lambda>s.
       case e_select le of
         Inl e \<Rightarrow> Inr (e = EINTR, s)
       | Inr rdy \<Rightarrow>
           let ready = rdy \<inter> insert listen_fd (set (live_fds s));
               s1 = (if listen_fd \<in> ready then fold add_client (e_accept le) s else s)
           in cbind (client_loop env (e_read le) ready (num_clients s1) s1) (\<lambda>s2. Inr (True, s2)))"

text \<open>
  Executions, with a flag that says whether control is still in the loop: turns while \<^verbatim>\<open>running\<close>,
  with signals delivered between them, until \<^verbatim>\<open>select\<close> fails or \<^verbatim>\<open>SIGINT\<close> has been seen. \<^verbatim>\<open>accept\<close>
  returns descriptors that are not in use, and \<^verbatim>\<open>write\<close> goes on being answered, which the list \<open>ws\<close>
  provides for; \<open>wok\<close> restricts the answers where a property needs it.
\<close>

definition accept_ok :: "int \<Rightarrow> loop_env \<Rightarrow> fserver \<Rightarrow> bool" where
  "accept_ok listen_fd le s \<longleftrightarrow>
     distinct (map fst (e_accept le)) \<and>
     set (map fst (e_accept le)) \<inter> insert listen_fd (socks s) = {}"

inductive event_step ::
  "(wres list \<Rightarrow> bool) \<Rightarrow> (nat \<Rightarrow> reqview) \<Rightarrow> int \<Rightarrow> bool \<times> fserver \<Rightarrow> bool \<times> fserver \<Rightarrow> bool"
  for wok env listen_fd where
  sigint: "event_step wok env listen_fd (b, s) (b, handle_sigint s)"
| sigusr1: "event_step wok env listen_fd (b, s) (b, handle_sigusr1 s)"
| turn: "running s \<Longrightarrow> accept_ok listen_fd le s \<Longrightarrow> wok ws \<Longrightarrow>
    event_turn env le listen_fd (s\<lparr>wrs := ws\<rparr>) = Inr (go, s') \<Longrightarrow>
    event_step wok env listen_fd (True, s) (go, s')"
| stop: "\<not> running s \<Longrightarrow> event_step wok env listen_fd (True, s) (False, s)"

inductive_cases event_stepE: "event_step wok env listen_fd (b, s) (b', s')"

text \<open>The state \<^verbatim>\<open>main\<close> enters the loop with, once the root is resolved.\<close>

definition server_init :: "string \<Rightarrow> fserver" where
  "server_init root =
     \<lparr>running = True, cache_clear_requested = False, docroot = root, fcache = cache_init,
      fheap = Map.empty, clients = replicate MAX_CLIENTS client0, num_clients = 0, wrs = [],
      sent = (\<lambda>_. []), rcvd = (\<lambda>_. []), socks = {}, open_files = 0, clock = 0\<rparr>"

text \<open>\<^verbatim>\<open>main\<close>: \<^verbatim>\<open>realpath\<close> of the root argument may fail; on return every connection and then the
  listening socket is closed, and the cache is cleared. The result has the descriptors closed, in order.\<close>

definition main_start :: "(string \<Rightarrow> string option) \<Rightarrow> string list \<Rightarrow> fserver option" where
  "main_start realpath argv =
     map_option server_init
       (realpath (if 3 \<le> length argv then argv ! 2 else ''./docroot''))"

definition server_main :: "listen_env \<Rightarrow> (string \<Rightarrow> string option) \<Rightarrow> string list \<Rightarrow> (int \<times> fserver) started cres" where
  "server_main e realpath argv =
     cbind (if 2 \<le> length argv then atoi (argv ! 1) else Inr 8082) (\<lambda>port_num.
       Inr (case main_start realpath argv of
              None \<Rightarrow> Exit 1
            | Some s \<Rightarrow> (case create_listen_socket e port_num of
                Exit n \<Rightarrow> Exit n
              | Started listen_fd \<Rightarrow> Started (listen_fd, s))))"

definition main_finish :: "int \<Rightarrow> fserver \<Rightarrow> (int list \<times> fserver) cres" where
  "main_finish listen_fd s =
     cbind (cache_clear (fcache s) (fheap s)) (\<lambda>(c, h).
       Inr (live_fds s @ [listen_fd], s\<lparr>socks := socks s - set (live_fds s), fcache := c, fheap := h\<rparr>))"

end
