(* ===== verification/FileRequests.thy ===== *)
theory FileRequests
  imports FileServer
begin

section \<open>Requests of the file server\<close>

text \<open>
  What \<^verbatim>\<open>serve_file\<close> and \<^verbatim>\<open>process_requests\<close> do on every branch: which reply goes out, what is left in
  memory and in the cache, and that nothing undefined happens. \<^verbatim>\<open>process_requests\<close> is compared with a
  reference that splits the buffer into lines.
\<close>

subsection \<open>What a sequence of writes does\<close>

text \<open>
  \<open>io_step\<close> is the effect of sending \<open>reply\<close> to \<open>cfd\<close>: the kernel took a prefix of it, nothing
  else changed, and without a write error all of it went out. With \<open>strict\<close> a return code of 0
  means that all of it went out in any case.
\<close>

definition io_step :: "bool \<Rightarrow> int \<Rightarrow> bytes \<Rightarrow> int \<Rightarrow> fserver \<Rightarrow> fserver \<Rightarrow> bool" where
  "io_step strict cfd reply r s s' \<longleftrightarrow>
     (\<exists>out rest ws. reply = out @ rest \<and> (r = 0 \<or> r = -1) \<and> (strict \<and> r = 0 \<longrightarrow> rest = []) \<and>
        (no_error (wrs s) \<longrightarrow> r = 0 \<and> rest = [] \<and> no_error ws) \<and>
        s' = s\<lparr>wrs := ws, sent := (sent s)(cfd := sent s cfd @ out)\<rparr>)"

lemma io_step_weaken: "io_step True cfd reply r s s' \<Longrightarrow> io_step b cfd reply r s s'"
  by (auto simp: io_step_def)

lemma io_step_ignore: "io_step True cfd reply r s s' \<Longrightarrow> io_step False cfd reply 0 s s'"
  unfolding io_step_def by blast

lemma io_step_nil: "io_step strict cfd [] 0 s s"
  unfolding io_step_def by (rule exI [of _ "[]"], rule exI [of _ "[]"], rule exI [of _ "wrs s"]) simp

lemma io_step_code: "io_step strict cfd reply r s s' \<Longrightarrow> r = 0 \<or> r = -1"
  by (auto simp: io_step_def)

lemma io_step_frame:
  assumes "io_step strict cfd reply r s s'"
  shows "fcache s' = fcache s" "fheap s' = fheap s" "open_files s' = open_files s"
    "clients s' = clients s" "num_clients s' = num_clients s" "socks s' = socks s"
    "docroot s' = docroot s" "running s' = running s" "clock s' = clock s"
    "cache_clear_requested s' = cache_clear_requested s" "rcvd s' = rcvd s"
  using assms by (auto simp: io_step_def)

lemma io_step_seq:
  assumes "io_step True cfd a 0 s s1" "io_step True cfd b r s1 s2"
  shows "io_step True cfd (a @ b) r s s2"
proof -
  from assms(1) obtain ws where a: "no_error (wrs s) \<longrightarrow> no_error ws"
    "s1 = s\<lparr>wrs := ws, sent := (sent s)(cfd := sent s cfd @ a)\<rparr>" by (auto simp: io_step_def)
  from assms(2) obtain out rest ws' where b: "b = out @ rest" "r = 0 \<or> r = -1"
    "r = 0 \<longrightarrow> rest = []" "no_error (wrs s1) \<longrightarrow> r = 0 \<and> rest = [] \<and> no_error ws'"
    "s2 = s1\<lparr>wrs := ws', sent := (sent s1)(cfd := sent s1 cfd @ out)\<rparr>" by (auto simp: io_step_def)
  show ?thesis unfolding io_step_def
    by (rule exI [of _ "a @ out"], rule exI [of _ rest], rule exI [of _ ws']) (use a b in auto)
qed

lemma io_step_stop:
  assumes "io_step True cfd a r s s1" "r < 0"
  shows "io_step True cfd (a @ b) (-1) s s1"
proof -
  from assms obtain out rest ws where *: "a = out @ rest" "r = -1" "\<not> no_error (wrs s)"
    "s1 = s\<lparr>wrs := ws, sent := (sent s)(cfd := sent s cfd @ out)\<rparr>"
    by (auto simp: io_step_def)
  show ?thesis unfolding io_step_def
    by (rule exI [of _ out], rule exI [of _ "rest @ b"], rule exI [of _ ws]) (use * in simp)
qed

lemma write_all_step:
  assumes "write_all cfd bs s = Inr (r, s')"
  shows "io_step True cfd bs r s s'"
proof -
  from assms obtain out ws where w: "write_loop (wrs s) bs = Inr (r, out, ws)"
    and s': "s' = s\<lparr>wrs := ws, sent := (sent s)(cfd := sent s cfd @ out)\<rparr>"
    by (auto simp: write_all_def)
  from write_loop_prefix [OF w] obtain rest where "bs = out @ rest" "r = 0 \<longrightarrow> rest = []"
    "r = 0 \<or> r = -1" by blast
  with write_loop_complete [OF w] s' show ?thesis unfolding io_step_def by auto
qed

lemma write_all_fault: "write_all cfd bs s = Inl e \<Longrightarrow> e = Pending"
proof -
  have "write_loop ws bs = Inl e \<Longrightarrow> e = Pending" for ws
    by (induction ws bs rule: write_loop.induct) (auto simp: cbind_def split: if_splits sum.splits)
  then show "write_all cfd bs s = Inl e \<Longrightarrow> e = Pending"
    by (auto simp: write_all_def cbind_def split: sum.splits prod.splits)
qed

subsection \<open>Replies of the request handler\<close>

definition err_reply :: "string \<Rightarrow> bytes" where
  "err_reply reason = ''-ERR '' @ reason @ [NL]"

definition ok_header :: "int \<Rightarrow> bytes" where
  "ok_header n = ''+OK '' @ dec_int n @ [NL]"

text \<open>The bytes the streaming loop reads from a file.\<close>

definition streamed :: "reqview \<Rightarrow> string \<Rightarrow> bytes" where
  "streamed v p = concat (takeWhile (\<lambda>c. c \<noteq> []) (map (take FILE_BUF_SIZE) (v_chunks v p)))"

text \<open>What a \<^verbatim>\<open>+OK\<close> reply for a file on disk may be.\<close>

definition disk_reply :: "reqview \<Rightarrow> string \<Rightarrow> bytes \<Rightarrow> bool" where
  "disk_reply v p reply \<longleftrightarrow>
     (\<exists>st. v_stat v p = Some st \<and> st_reg st \<and> v_open v p \<and>
        (reply = ok_header (st_size st) @ streamed v p \<or>
         (\<exists>d. reply = ok_header (st_size st) @ d \<and> int (length d) = st_size st \<and>
              length d \<le> MAX_CACHE_FILE_SIZE \<and>
              (d = [] \<or> (\<exists>e. v_pread v p = Some e \<and> d = take (length d) e)))))"

lemma refuse_step:
  assumes "refuse cfd reason s = Inr (r, s')" "length reason < 250"
  shows "r = 0 \<and> io_step False cfd (err_reply reason) r s s'"
proof -
  from assms obtain r' where "write_all cfd (err_reply reason) s = Inr (r', s')" "r = 0"
    by (auto simp: refuse_def send_error_def err_reply_def cbind_Inr_conv)
  with write_all_step io_step_ignore show ?thesis by blast
qed

lemma refuse_fault: "refuse cfd reason s = Inl e \<Longrightarrow> length reason < 250 \<Longrightarrow> e = Pending"
  by (auto simp: refuse_def send_error_def cbind_def split: sum.splits prod.splits
      dest: write_all_fault)

lemma stream_loop_step:
  "stream_loop cfd cs s = Inr (r, s') \<Longrightarrow>
     io_step True cfd (concat (takeWhile (\<lambda>c. c \<noteq> []) (map (take FILE_BUF_SIZE) cs))) r s s'"
proof (induction cfd cs s rule: stream_loop.induct)
  case (1 cfd s)
  then show ?case by (simp add: io_step_nil)
next
  case (2 cfd c cs s)
  show ?case
  proof (cases "take FILE_BUF_SIZE c = []")
    case True
    with "2.prems" show ?thesis by (simp add: io_step_nil)
  next
    case False
    with "2.prems" obtain r1 s1 where w: "write_all cfd (take FILE_BUF_SIZE c) s = Inr (r1, s1)"
      and rest: "(if r1 < 0 then Inr (-1, s1) else stream_loop cfd cs s1) = Inr (r, s')"
      by (auto simp: cbind_Inr_conv)
    note st = write_all_step [OF w]
    show ?thesis
    proof (cases "r1 < 0")
      case True
      with rest st False show ?thesis by (auto intro: io_step_stop)
    next
      case nonneg: False
      with io_step_code [OF st] have "r1 = 0" by auto
      with "2.IH" [OF False w refl] rest nonneg st False show ?thesis
        by (auto intro: io_step_seq)
    qed
  qed
qed

lemma stream_loop_fault: "stream_loop cfd cs s = Inl e \<Longrightarrow> e = Pending"
  by (induction cfd cs s rule: stream_loop.induct)
    (auto simp: cbind_def split: sum.splits if_splits prod.splits dest: write_all_fault)

lemma serve_stream_step:
  assumes "serve_stream v cfd p hdr s = Inr (r, s')"
  shows "\<exists>s1. io_step True cfd (hdr @ streamed v p) r s s1 \<and> s' = close_file s1"
proof -
  from assms obtain r1 s1 where w: "write_all cfd hdr s = Inr (r1, s1)"
    and rest: "(if r1 < 0 then Inr (-1, close_file s1)
       else cbind (stream_loop cfd (v_chunks v p) s1) (\<lambda>(r2, s2). Inr (r2, close_file s2))) = Inr (r, s')"
    by (auto simp: serve_stream_def cbind_Inr_conv)
  note st = write_all_step [OF w]
  show ?thesis
  proof (cases "r1 < 0")
    case True
    with rest st show ?thesis by (auto intro: io_step_stop)
  next
    case False
    with io_step_code [OF st] have "r1 = 0" by auto
    moreover from False rest obtain s2 where "stream_loop cfd (v_chunks v p) s1 = Inr (r, s2)"
      "s' = close_file s2" by (auto simp: cbind_Inr_conv)
    ultimately show ?thesis using st
      unfolding streamed_def by (blast intro: io_step_seq stream_loop_step)
  qed
qed

lemma serve_stream_fault: "serve_stream v cfd p hdr s = Inl e \<Longrightarrow> e = Pending"
  by (auto simp: serve_stream_def cbind_def split: sum.splits if_splits prod.splits
      dest: write_all_fault stream_loop_fault)

subsection \<open>Memory of the request handler\<close>

text \<open>Between requests the only live blocks are those of the cache.\<close>

definition mem_inv :: "fserver \<Rightarrow> bool" where
  "mem_inv s \<longleftrightarrow> cache_inv (fcache s) (fheap s) \<and> dom (fheap s) = cache_owned (fcache s)"

abbreviation centries :: "fserver \<Rightarrow> (string \<times> bytes) list" where
  "centries s \<equiv> cache_entries (fcache s) (fheap s)"

text \<open>
  \<open>handled\<close> is the effect of one request: the reply goes out as in \<open>io_step\<close>, the memory
  invariant holds, and the cache is as before or has the reply as its newest entry.
\<close>

definition handled :: "bool \<Rightarrow> int \<Rightarrow> string \<Rightarrow> bytes \<Rightarrow> int \<Rightarrow> fserver \<Rightarrow> fserver \<Rightarrow> bool" where
  "handled strict cfd p reply r s s' \<longleftrightarrow>
     (\<exists>s1 c h n t. io_step strict cfd reply r s s1 \<and>
        s' = s1\<lparr>fcache := c, fheap := h, open_files := n, clock := t\<rparr>) \<and>
     mem_inv s' \<and>
     centries s' \<in> {centries s, fifo_insert MAX_CACHE_ENTRIES p reply (centries s)}"

lemma handled_io:
  assumes "io_step strict cfd reply r s s1" "mem_inv s"
    and "s' = s1\<lparr>open_files := n\<rparr>"
  shows "handled strict cfd p reply r s s'"
proof -
  have "s' = s1\<lparr>fcache := fcache s', fheap := fheap s', open_files := n, clock := clock s'\<rparr>"
    using assms(3) by simp
  moreover have "mem_inv s'" "centries s' = centries s"
    using assms io_step_frame [OF assms(1)] by (auto simp: mem_inv_def)
  ultimately show ?thesis using assms(1) unfolding handled_def by blast
qed

lemma pread_into_ok:
  assumes "length b = hlen + n + m"
  shows "\<exists>nr b'. pread_into v p n r hlen (h(r \<mapsto> b)) = Inr (nr, h(r \<mapsto> b')) \<and> length b' = length b \<and>
    (nr = int n \<longrightarrow> (\<exists>d. take (hlen + n) b' = take hlen b @ d \<and> length d = n \<and>
       (d = [] \<or> (\<exists>e. v_pread v p = Some e \<and> d = take n e))))"
proof (cases "n = 0 \<or> v_pread v p = None")
  case True
  then show ?thesis by (auto simp: pread_into_def intro!: exI [of _ b])
next
  case False
  then obtain e where e: "v_pread v p = Some e" "n \<noteq> 0" by auto
  let ?d = "take n e"
  have fits: "hlen + length ?d \<le> length b" using assms by simp
  have "pread_into v p n r hlen (h(r \<mapsto> b)) = Inr (int (length ?d), h(r \<mapsto> blit b hlen ?d))"
    using e h_write_upd [OF fits] by (simp add: pread_into_def)
  moreover have "take (hlen + n) (blit b hlen ?d) = take hlen b @ ?d" if "length ?d = n"
    using take_blit [OF fits] that by simp
  ultimately show ?thesis using e length_blit [OF fits] by auto
qed

lemma write_all_ok: "okres (\<lambda>(r, s'). io_step True cfd bs r s s') (write_all cfd bs s)"
  by (rule okresI) (auto intro: write_all_fault write_all_step)

lemma io_step_heap:
  "io_step strict cfd rep r (s\<lparr>fheap := h, open_files := n\<rparr>) s3 \<Longrightarrow>
     io_step strict cfd rep r s (s3\<lparr>fheap := fheap s, open_files := open_files s\<rparr>)"
proof -
  assume "io_step strict cfd rep r (s\<lparr>fheap := h, open_files := n\<rparr>) s3"
  then obtain out rest ws where *: "rep = out @ rest" "r = 0 \<or> r = -1" "strict \<and> r = 0 \<longrightarrow> rest = []"
    "no_error (wrs s) \<longrightarrow> r = 0 \<and> rest = [] \<and> no_error ws"
    "s3 = s\<lparr>fheap := h, open_files := n, wrs := ws, sent := (sent s)(cfd := sent s cfd @ out)\<rparr>"
    unfolding io_step_def by auto
  show ?thesis unfolding io_step_def
    by (rule exI [of _ out], rule exI [of _ rest], rule exI [of _ ws]) (use * in simp)
qed

lemma small_finish_ok:
  assumes mem: "mem_inv s" and short: "length p < PATH_MAX"
    and r: "r \<noteq> 0" "fheap s r = None" and b: "length b = sz + 1" "take sz b = rep"
    and io: "io_step True cfd rep rc (close_file (s\<lparr>fheap := (fheap s)(r \<mapsto> b)\<rparr>)) s3"
  shows "okres (\<lambda>(r', s'). handled True cfd p rep r' s s' \<and> open_files s' = open_files s - 1)
    (if rc < 0 then cbind (h_free r (fheap s3)) (\<lambda>h4. Inr (-1, s3\<lparr>fheap := h4\<rparr>))
     else cbind (cache_insert p r sz (fcache s3) (fheap s3)) (\<lambda>(c4, h4).
            Inr (0, s3\<lparr>fcache := c4, fheap := h4\<rparr>)))"
proof -
  let ?h = "(fheap s)(r \<mapsto> b)" and ?s1 = "s3\<lparr>fheap := fheap s, open_files := open_files s\<rparr>"
  have io1: "io_step True cfd rep rc s ?s1"
    by (rule io_step_heap [where h = ?h and n = "open_files s - 1"]) (use io in \<open>simp add: close_file_def\<close>)
  have s3: "fheap s3 = ?h" "fcache s3 = fcache s" "open_files s3 = open_files s - 1"
    using io_step_frame [OF io] by (simp_all add: close_file_def)
  have own: "r \<notin> cache_owned (fcache s)" using r(2) mem by (auto simp: mem_inv_def)
  have build: "handled True cfd p rep rc s (s3\<lparr>fcache := c, fheap := h\<rparr>)"
    if "cache_inv c h" "dom h = cache_owned c"
      "cache_entries c h \<in> {centries s, fifo_insert MAX_CACHE_ENTRIES p rep (centries s)}" for c h
  proof -
    have "s3\<lparr>fcache := c, fheap := h\<rparr> =
        ?s1\<lparr>fcache := c, fheap := h, open_files := open_files s3, clock := clock s3\<rparr>" by simp
    with io1 have "\<exists>s1 c' h' n t. io_step True cfd rep rc s s1 \<and> s3\<lparr>fcache := c, fheap := h\<rparr> =
        s1\<lparr>fcache := c', fheap := h', open_files := n, clock := t\<rparr>" by blast
    with that show ?thesis unfolding handled_def mem_inv_def by simp
  qed
  show ?thesis
  proof (cases "rc < 0")
    case True
    have undo: "(fheap s)(r := None) = fheap s" using r(2) by auto
    have free: "h_free r (fheap s3) = Inr (fheap s)" using r(1) by (simp add: s3 h_free_upd undo)
    have "s3\<lparr>fheap := fheap s\<rparr> = s3\<lparr>fcache := fcache s, fheap := fheap s\<rparr>" using s3(2) by simp
    then have "handled True cfd p rep rc s (s3\<lparr>fheap := fheap s\<rparr>)"
      using build [of "fcache s" "fheap s"] mem by (auto simp: mem_inv_def)
    with True free s3(3) io_step_code [OF io] show ?thesis by auto
  next
    case False
    then have rc: "rc = 0" using io_step_code [OF io] by auto
    have inv: "cache_inv (fcache s) ?h" "cache_entries (fcache s) ?h = centries s"
      using cache_inv_other [OF _ own] mem by (auto simp: mem_inv_def)
    from cache_insert_ok [OF inv(1) _ r(1) own _ short, of b sz] b obtain c4 h4 where
      ins: "cache_insert p r sz (fcache s) ?h = Inr (c4, h4)" "cache_inv c4 h4"
      "cache_entries c4 h4 = fifo_insert MAX_CACHE_ENTRIES p rep (centries s)"
      "owner_step (insert r (cache_owned (fcache s))) (cache_owned c4) ?h h4"
      by (auto simp: inv(2))
    have "dom ?h = insert r (cache_owned (fcache s))" using mem by (simp add: mem_inv_def)
    with owner_step_dom [OF ins(4)] have "dom h4 = cache_owned c4" by simp
    then have "handled True cfd p rep rc s (s3\<lparr>fcache := c4, fheap := h4\<rparr>)"
      using build [of c4 h4] ins by simp
    with rc ins(1) s3 show ?thesis by simp
  qed
qed

text \<open>Both ways to send a file from the disk end with its reply sent and the file closed.\<close>

definition disk_served :: "reqview \<Rightarrow> int \<Rightarrow> string \<Rightarrow> fserver \<Rightarrow> int \<times> fserver \<Rightarrow> bool" where
  "disk_served v cfd p s = (\<lambda>(r, s'). \<exists>reply. disk_reply v p reply \<and> handled True cfd p reply r s s' \<and>
     open_files s' = open_files s - 1)"

lemma serve_stream_ok:
  assumes mem: "mem_inv s" and st: "v_stat v p = Some st" "st_reg st" "v_open v p"
  shows "okres (disk_served v cfd p s) (serve_stream v cfd p (ok_header (st_size st)) s)"
proof (rule okresI)
  fix x assume x: "serve_stream v cfd p (ok_header (st_size st)) s = Inr x"
  obtain r s' where x': "x = (r, s')" by (cases x)
  from serve_stream_step x x' obtain s1 where
    "io_step True cfd (ok_header (st_size st) @ streamed v p) r s s1" "s' = close_file s1" by blast
  then show "disk_served v cfd p s x"
    using x' st mem handled_io io_step_frame(3) unfolding disk_served_def disk_reply_def close_file_def by fastforce
qed (rule serve_stream_fault)

text \<open>The whole file is in the block \<open>r\<close> behind its header.\<close>

lemma serve_small_full:
  assumes mem: "mem_inv s" and short: "length p < PATH_MAX"
    and st: "v_stat v p = Some st" "st_reg st" "v_open v p" "int n = st_size st" "n \<le> MAX_CACHE_FILE_SIZE"
    and r: "r \<noteq> 0" "fheap s r = None" and b: "length b = length (ok_header (st_size st)) + n + 1"
    and d: "take (length (ok_header (st_size st)) + n) b = ok_header (st_size st) @ d" "length d = n"
      "d = [] \<or> (\<exists>e. v_pread v p = Some e \<and> d = take n e)"
  shows "okres (disk_served v cfd p s)
    (cbind (write_all cfd (ok_header (st_size st) @ d) (close_file (s\<lparr>fheap := (fheap s)(r \<mapsto> b)\<rparr>))) (\<lambda>(rc, s3).
       if rc < 0 then cbind (h_free r (fheap s3)) (\<lambda>h4. Inr (-1, s3\<lparr>fheap := h4\<rparr>))
       else cbind (cache_insert p r (length (ok_header (st_size st)) + n) (fcache s3) (fheap s3)) (\<lambda>(c4, h4).
              Inr (0, s3\<lparr>fcache := c4, fheap := h4\<rparr>))))"
proof (rule okres_bind [OF write_all_ok], clarify)
  let ?rep = "ok_header (st_size st) @ d" and ?sz = "length (ok_header (st_size st)) + n"
  fix rc s3 assume "io_step True cfd ?rep rc (close_file (s\<lparr>fheap := (fheap s)(r \<mapsto> b)\<rparr>)) s3"
  note fin = small_finish_ok [OF mem short r b d(1) this]
  have "disk_reply v p ?rep" unfolding disk_reply_def using st d by (auto intro!: exI [of _ d])
  with fin show "okres (disk_served v cfd p s)
      (if rc < 0 then cbind (h_free r (fheap s3)) (\<lambda>h4. Inr (-1, s3\<lparr>fheap := h4\<rparr>))
       else cbind (cache_insert p r ?sz (fcache s3) (fheap s3)) (\<lambda>(c4, h4). Inr (0, s3\<lparr>fcache := c4, fheap := h4\<rparr>)))"
    by (elim okres_mono) (auto simp: disk_served_def)
qed

lemma serve_small_ok:
  assumes mem: "mem_inv s" and short: "length p < PATH_MAX"
    and st: "v_stat v p = Some st" "st_reg st" "v_open v p" "int n = st_size st" "n \<le> MAX_CACHE_FILE_SIZE"
  shows "okres (disk_served v cfd p s) (serve_small v cfd p (ok_header (st_size st)) n s)"
proof -
  let ?hdr = "ok_header (st_size st)"
  let ?hl = "length ?hdr" and ?sz = "length ?hdr + n"
  note stream = serve_stream_ok [OF mem st(1-3), of cfd]
  show ?thesis
  proof (cases "h_malloc (v_malloc v) (?sz + 1) (fheap s)")
    case (Some rh)
    then obtain r h0 where mal: "h_malloc (v_malloc v) (?sz + 1) (fheap s) = Some (r, h0)" by (cases rh) auto
    from h_malloc_SomeD [OF mal] obtain b0 where r: "r \<noteq> 0" "fheap s r = None"
      and b0: "length b0 = ?sz + 1" "h0 = (fheap s)(r \<mapsto> b0)" by auto
    let ?b1 = "blit b0 0 ?hdr"
    have w1: "h_write r 0 ?hdr h0 = Inr ((fheap s)(r \<mapsto> ?b1))"
      unfolding b0(2) by (rule h_write_upd) (simp add: b0)
    have b1: "length ?b1 = ?hl + n + 1" "take ?hl ?b1 = ?hdr" using b0(1) by (simp_all add: blit_def)
    from pread_into_ok [OF b1(1)] obtain nr b2 where
      pr: "pread_into v p n r ?hl ((fheap s)(r \<mapsto> ?b1)) = Inr (nr, (fheap s)(r \<mapsto> b2))"
      and b2: "length b2 = ?sz + 1"
      and full: "nr = int n \<longrightarrow> (\<exists>d. take ?sz b2 = ?hdr @ d \<and> length d = n \<and>
         (d = [] \<or> (\<exists>e. v_pread v p = Some e \<and> d = take n e)))"
      using b1 by metis
    show ?thesis
    proof (cases "nr = int n")
      case False
      have "(fheap s)(r := None) = fheap s" using r(2) by auto
      then have "serve_small v cfd p ?hdr n s = serve_stream v cfd p ?hdr s"
        using mal w1 pr False r(1) by (simp add: serve_small_def Let_def h_free_upd)
      with stream show ?thesis by simp
    next
      case True
      with full obtain d where d: "take ?sz b2 = ?hdr @ d" "length d = n"
        "d = [] \<or> (\<exists>e. v_pread v p = Some e \<and> d = take n e)" by blast
      have "h_read r 0 ?sz ((fheap s)(r \<mapsto> b2)) = Inr (?hdr @ d)" using b2 d(1) by (simp add: h_read_upd)
      then show ?thesis
        using serve_small_full [OF mem short st r b2 d, of cfd] mal w1 pr True by (simp add: serve_small_def Let_def)
    qed
  qed (use stream in \<open>simp add: serve_small_def Let_def\<close>)
qed

subsection \<open>The request handler\<close>

text \<open>
  Documented behaviour of the library: \<^verbatim>\<open>realpath\<close> fits its result into \<^verbatim>\<open>PATH_MAX\<close> bytes, and
  \<^verbatim>\<open>off_t\<close> has 64 bits.
\<close>

definition view_ok :: "reqview \<Rightarrow> bool" where
  "view_ok v \<longleftrightarrow>
     (\<forall>p q. v_realpath v p = Some q \<longrightarrow> length q < PATH_MAX) \<and>
     (\<forall>p st. v_stat v p = Some st \<longrightarrow> - (2 ^ 63) \<le> st_size st \<and> st_size st < 2 ^ 63)"

text \<open>The protocol: which reply a request gets, branch by branch.\<close>

definition reply_ok :: "reqview \<Rightarrow> string \<Rightarrow> (string \<times> bytes) list \<Rightarrow> string \<Rightarrow> bytes \<Rightarrow> bool" where
  "reply_ok v root es filename reply \<longleftrightarrow>
     (if filename = [] then reply = err_reply ''empty filename''
      else if hd filename = CHR ''/'' then reply = err_reply ''absolute paths not allowed''
      else case v_realpath v (candidate root filename) of
        None \<Rightarrow> reply = err_reply ''not found''
      | Some p \<Rightarrow>
          if \<not> in_docroot root p then reply = err_reply ''access denied''
          else case map_of es p of
            Some r \<Rightarrow> reply = r
          | None \<Rightarrow>
              (case v_stat v p of
                 None \<Rightarrow> reply = err_reply ''stat failed''
               | Some st \<Rightarrow>
                   if \<not> st_reg st then reply = err_reply ''not a regular file''
                   else if \<not> v_open v p then reply = err_reply ''open failed''
                   else disk_reply v p reply))"

lemma length_ok_header:
  assumes "- (2 ^ 63) \<le> n" "n < 2 ^ 63"
  shows "length (ok_header n) < 64"
proof -
  have "nat n < 10 ^ 19" "nat (- n) < 10 ^ 19" using assms by auto
  then have "length (dec_nat (nat n)) \<le> 19" "length (dec_nat (nat (- n))) \<le> 19"
    by (auto intro: length_dec_nat)
  then show ?thesis by (simp add: ok_header_def dec_int_def)
qed

text \<open>What one request does, with the entry it may leave in the cache.\<close>

definition request_done ::
  "reqview \<Rightarrow> int \<Rightarrow> (bytes \<Rightarrow> bool) \<Rightarrow> int \<Rightarrow> fserver \<Rightarrow> fserver \<Rightarrow> bool" where
  "request_done v cfd good r s s' \<longleftrightarrow>
     (\<exists>strict p reply. good reply \<and> handled strict cfd p reply r s s' \<and>
        open_files s' = open_files s \<and>
        (centries s' = centries s \<or>
         in_docroot (docroot s) p \<and> disk_reply v p reply \<and>
         centries s' = fifo_insert MAX_CACHE_ENTRIES p reply (centries s)))"

lemma refuse_ok:
  assumes "mem_inv s" "length reason < 250" "good (err_reply reason)"
  shows "okres (\<lambda>(r, s'). request_done v cfd good r s s') (refuse cfd reason s)"
proof (rule okresI)
  fix x assume x: "refuse cfd reason s = Inr x"
  obtain r s' where rs: "x = (r, s')" by (cases x)
  with refuse_step x assms(2) have io: "io_step False cfd (err_reply reason) r s s'" by blast
  then have "handled False cfd [] (err_reply reason) r s s'"
    by (rule handled_io [where n = "open_files s'"]) (use assms in simp_all)
  moreover have "centries s' = centries s" "open_files s' = open_files s"
    using io_step_frame [OF io] by simp_all
  ultimately show "case x of (r, s') \<Rightarrow> request_done v cfd good r s s'"
    using assms(3) rs unfolding request_done_def by auto
qed (use refuse_fault assms(2) in blast)

lemma handled_open_files:
  assumes "handled strict cfd p reply r (s\<lparr>open_files := n\<rparr>) s'"
  shows "handled strict cfd p reply r s s'"
proof -
  from assms obtain s1 c h m t where io: "io_step strict cfd reply r (s\<lparr>open_files := n\<rparr>) s1"
    and s': "s' = s1\<lparr>fcache := c, fheap := h, open_files := m, clock := t\<rparr>"
    and rest: "mem_inv s'" "centries s' \<in> {centries s, fifo_insert MAX_CACHE_ENTRIES p reply (centries s)}"
    by (auto simp: handled_def)
  let ?s1 = "s1\<lparr>fheap := fheap s, open_files := open_files s\<rparr>"
  have "io_step strict cfd reply r s ?s1"
    by (rule io_step_heap [where h = "fheap s" and n = n]) (use io in simp)
  moreover have "s' = ?s1\<lparr>fcache := c, fheap := h, open_files := m, clock := t\<rparr>"
    using s' by simp
  ultimately show ?thesis using rest unfolding handled_def by blast
qed

lemma disk_done:
  assumes "handled strict cfd p reply r (s\<lparr>open_files := n\<rparr>) s'" "disk_reply v p reply"
    and "good reply" "in_docroot (docroot s) p" "open_files s' = open_files s"
  shows "request_done v cfd good r s s'"
proof -
  note h = handled_open_files [OF assms(1)]
  moreover from h have
    "centries s' = centries s \<or> centries s' = fifo_insert MAX_CACHE_ENTRIES p reply (centries s)"
    by (auto simp: handled_def)
  ultimately show ?thesis using assms(2-5) unfolding request_done_def by blast
qed

lemma serve_miss_ok:
  assumes mem: "mem_inv s" and ok: "view_ok v" and short: "length p < PATH_MAX"
    and root: "in_docroot (docroot s) p"
    and good: "\<And>reply. (case v_stat v p of None \<Rightarrow> reply = err_reply ''stat failed''
        | Some st \<Rightarrow> if \<not> st_reg st then reply = err_reply ''not a regular file''
            else if \<not> v_open v p then reply = err_reply ''open failed''
            else disk_reply v p reply) \<Longrightarrow> good reply"
  shows "okres (\<lambda>(r, s'). request_done v cfd good r s s') (serve_miss v cfd p s)"
proof (cases "v_stat v p")
  case None
  then show ?thesis using refuse_ok [OF mem] good by (simp add: serve_miss_def)
next
  case (Some st)
  show ?thesis
  proof (cases "st_reg st \<and> v_open v p")
    case False
    then show ?thesis using refuse_ok [OF mem] good Some by (simp add: serve_miss_def)
  next
    case True
    let ?s = "s\<lparr>open_files := open_files s + 1\<rparr>"
    have mem': "mem_inv ?s" using mem by (simp add: mem_inv_def)
    have hdr: "snprintf_out 64 (''+OK '' @ dec_int (st_size st) @ [NL]) = Inr (ok_header (st_size st))"
      using length_ok_header [of "st_size st"] ok Some by (simp add: view_ok_def ok_header_def)
    have good': "good reply" if "disk_reply v p reply" for reply
      using good [of reply] that Some True by simp
    have fin: "okres (\<lambda>(r, s'). request_done v cfd good r s s') m" if "okres (disk_served v cfd p ?s) m" for m
      by (rule okres_mono [OF that])
        (auto simp: disk_served_def intro!: disk_done [where n = "open_files s + 1"] good' root)
    have small: "okres (\<lambda>(r, s'). request_done v cfd good r s s')
        (serve_small v cfd p (ok_header (st_size st)) (nat (st_size st)) ?s)"
      if "0 \<le> st_size st \<and> nat (st_size st) \<le> MAX_CACHE_FILE_SIZE"
      by (rule fin, rule serve_small_ok [OF mem' short Some]) (use that True in auto)
    have stream: "okres (\<lambda>(r, s'). request_done v cfd good r s s') (serve_stream v cfd p (ok_header (st_size st)) ?s)"
      by (rule fin, rule serve_stream_ok [OF mem' Some]) (use True in auto)
    show ?thesis using True Some hdr small stream by (simp add: serve_miss_def Let_def)
  qed
qed

text \<open>A cache hit.\<close>

lemma serve_hit_ok:
  assumes mem: "mem_inv s" and hit: "cache_lookup p (fcache s) = Some e"
    and good: "good (entry_bytes (fheap s) e)"
  shows "okres (\<lambda>(r, s'). request_done v cfd good r s s')
    (cbind (h_read (resp e) 0 (resp_size e) (fheap s)) (\<lambda>response.
     cbind (write_all cfd response s) (\<lambda>(rc, s1). Inr (if rc < 0 then -1 else 0, s1))))"
proof -
  have "h_read (resp e) 0 (resp_size e) (fheap s) = Inr (entry_bytes (fheap s) e)"
    using cache_lookup_size(1) [OF _ hit] mem by (simp add: mem_inv_def)
  moreover have "okres (\<lambda>(r, s'). request_done v cfd good r s s')
    (cbind (write_all cfd (entry_bytes (fheap s) e) s) (\<lambda>(rc, s1). Inr (if rc < 0 then -1 else 0, s1)))"
  proof (rule okres_bind [OF write_all_ok], clarify)
    fix rc s1 assume io: "io_step True cfd (entry_bytes (fheap s) e) rc s s1"
    then have "handled True cfd p (entry_bytes (fheap s) e) rc s s1"
      by (rule handled_io [where n = "open_files s1"]) (use mem in simp_all)
    moreover have "open_files s1 = open_files s" "centries s1 = centries s"
      using io_step_frame [OF io] by simp_all
    moreover have "(if rc < 0 then -1 else 0) = rc" using io_step_code [OF io] by auto
    ultimately show "okres (\<lambda>(r, s'). request_done v cfd good r s s')
        (Inr (if rc < 0 then -1 else 0, s1))"
      using good by (auto simp: request_done_def)
  qed
  ultimately show ?thesis by simp
qed

lemma request_done_clock:
  assumes "request_done v cfd good r (s\<lparr>clock := t\<rparr>) s'"
  shows "request_done v cfd good r s s'"
proof -
  have io: "io_step strict cfd reply r s (s1\<lparr>clock := clock s\<rparr>)"
    if "io_step strict cfd reply r (s\<lparr>clock := t\<rparr>) s1" for strict reply s1
  proof -
    from that obtain out rest ws where *: "reply = out @ rest" "r = 0 \<or> r = -1"
      "strict \<and> r = 0 \<longrightarrow> rest = []" "no_error (wrs s) \<longrightarrow> r = 0 \<and> rest = [] \<and> no_error ws"
      "s1 = s\<lparr>clock := t, wrs := ws, sent := (sent s)(cfd := sent s cfd @ out)\<rparr>"
      unfolding io_step_def by auto
    show ?thesis unfolding io_step_def
      by (rule exI [of _ out], rule exI [of _ rest], rule exI [of _ ws]) (use * in simp)
  qed
  have "handled strict cfd p reply r s s'"
    if "handled strict cfd p reply r (s\<lparr>clock := t\<rparr>) s'" for strict p reply
  proof -
    from that obtain s1 c h n u where "io_step strict cfd reply r (s\<lparr>clock := t\<rparr>) s1"
      and s': "s' = s1\<lparr>fcache := c, fheap := h, open_files := n, clock := u\<rparr>"
      and rest: "mem_inv s'"
        "centries s' \<in> {centries s, fifo_insert MAX_CACHE_ENTRIES p reply (centries s)}"
      by (auto simp: handled_def)
    then have "io_step strict cfd reply r s (s1\<lparr>clock := clock s\<rparr>)" by (intro io)
    moreover have "s' = (s1\<lparr>clock := clock s\<rparr>)\<lparr>fcache := c, fheap := h, open_files := n, clock := u\<rparr>"
      using s' by simp
    ultimately show ?thesis using rest unfolding handled_def by blast
  qed
  moreover from assms obtain strict p reply where "good reply"
    "handled strict cfd p reply r (s\<lparr>clock := t\<rparr>) s'" "open_files s' = open_files s"
    "centries s' = centries s \<or> in_docroot (docroot s) p \<and> disk_reply v p reply \<and>
      centries s' = fifo_insert MAX_CACHE_ENTRIES p reply (centries s)"
    unfolding request_done_def by auto
  ultimately show ?thesis unfolding request_done_def by blast
qed

lemma serve_file_ok:
  assumes mem: "mem_inv s" and ok: "view_ok (env (clock s))"
  shows "okres (\<lambda>(r, s'). request_done (env (clock s)) cfd
      (reply_ok (env (clock s)) (docroot s) (centries s) filename) r s s')
    (serve_file env cfd filename s)"
proof -
  let ?v = "env (clock s)" and ?s = "s\<lparr>clock := clock s + 1\<rparr>"
  let ?good = "reply_ok ?v (docroot s) (centries s) filename"
  have mem': "mem_inv ?s" using mem by (simp add: mem_inv_def)
  have refuse: "okres (\<lambda>(r, s'). request_done ?v cfd ?good r ?s s') (refuse cfd reason ?s)"
    if "length reason < 250" "?good (err_reply reason)" for reason
    by (rule refuse_ok [OF mem' that(1)]) (rule that(2))
  have "okres (\<lambda>(r, s'). request_done ?v cfd ?good r ?s s') (serve_file env cfd filename s)"
  proof (cases "filename = [] \<or> hd filename = CHR ''/''")
    case True
    then show ?thesis using refuse by (auto simp: serve_file_def Let_def reply_ok_def)
  next
    case False
    show ?thesis
    proof (cases "v_realpath ?v (candidate (docroot s) filename)")
      case None
      then show ?thesis using False refuse by (simp add: serve_file_def Let_def reply_ok_def)
    next
      case (Some p)
      show ?thesis
      proof (cases "in_docroot (docroot s) p")
        case out: False
        then show ?thesis using False Some refuse by (simp add: serve_file_def Let_def reply_ok_def)
      next
        case root: True
        have look: "map_of (centries s) p = map_option (entry_bytes (fheap s)) (cache_lookup p (fcache s))"
          using cache_lookup_entries [of "fcache s" "fheap s" p] mem by (simp add: mem_inv_def)
        show ?thesis
        proof (cases "cache_lookup p (fcache s)")
          case None
          have "okres (\<lambda>(r, s'). request_done ?v cfd ?good r ?s s') (serve_miss ?v cfd p ?s)"
            by (rule serve_miss_ok [OF mem' ok])
              (use root Some False ok look None in \<open>auto simp: view_ok_def reply_ok_def\<close>)
          with False Some root None show ?thesis by (simp add: serve_file_def Let_def)
        next
          case (Some e)
          then have "?good (entry_bytes (fheap s) e)"
            using look False \<open>v_realpath ?v _ = Some p\<close> root by (auto simp: reply_ok_def)
          with serve_hit_ok [OF mem', of p e ?good ?v cfd] Some
          show ?thesis using False \<open>v_realpath ?v _ = Some p\<close> root
            by (simp add: serve_file_def Let_def)
        qed
      qed
    qed
  qed
  then show ?thesis by (rule okres_mono) (auto intro: request_done_clock)
qed

subsection \<open>Requests of one connection, against the line framing\<close>

definition pending :: "Client \<Rightarrow> bytes" where
  "pending c = take (buf_len c) (buf c)"

text \<open>The reference: the requests of the complete lines, served one after the other.\<close>

fun serve_lines :: "(nat \<Rightarrow> reqview) \<Rightarrow> int \<Rightarrow> string list \<Rightarrow> fserver \<Rightarrow> (int \<times> fserver) cres" where
  "serve_lines env cfd [] s = Inr (0, s)"
| "serve_lines env cfd (l # ls) s =
     cbind (serve_file env cfd l s) (\<lambda>(r, s').
       if r < 0 then Inr (-1, s') else serve_lines env cfd ls s')"

lemma process_requests_serve_lines:
  assumes "buf_len c \<le> length (buf c)" "process_requests env c s = Inr (r, c', s')"
  shows "\<exists>r0. serve_lines env (fd c) (map request_of (complete_lines (pending c))) s = Inr (r0, s') \<and>
    fd c' = fd c \<and> length (buf c') = length (buf c) \<and>
    (if r0 < 0 then r = -1
     else pending c' = unfinished (pending c) \<and> buf_len c' \<le> length (buf c') \<and>
       r = (if REQ_BUF_SIZE - 1 \<le> length (unfinished (pending c)) then -1 else 0))"
  using assms
proof (induction env c s arbitrary: r c' s' rule: process_requests.induct)
  case (1 env c s)
  show ?case
  proof (cases "memchr (buf c) NL (buf_len c)")
    case None
    then have "NL \<notin> set (pending c)" unfolding pending_def by (rule memchr_None)
    moreover have "length (pending c) = buf_len c" using "1.prems"(1) by (simp add: pending_def)
    ultimately show ?thesis
      using "1.prems" None by (auto simp: process_requests.simps [of env c] nl_split_none split: if_splits)
  next
    case (Some p)
    let ?b = "terminate_line (buf c) p" and ?n = "buf_len c - (p + 1)"
    let ?c = "c\<lparr>buf := memmove0 ?b (p + 1) ?n, buf_len := ?n\<rparr>"
    note m = memchr_Some [OF Some]
    have turn: "nl_split (pending c) =
        (take p (buf c) # complete_lines (pending ?c), unfinished (pending ?c))"
      using nl_split_turn(1) [OF Some "1.prems"(1) refl, of ?b]
      by (simp add: pending_def drop_terminate_line)
    have req: "cstr ?b = request_of (take p (buf c))" by (rule cstr_terminate_line [OF m(2)])
    have len: "length (memmove0 ?b (p + 1) ?n) = length (buf c)"
      using m "1.prems"(1) by (subst length_memmove0) auto
    from "1.prems"(2) have "cbind (serve_file env (fd c) (cstr ?b) s) (\<lambda>(r, s').
        if r < 0 then Inr (-1, c\<lparr>buf := ?b\<rparr>, s') else process_requests env ?c s') = Inr (r, c', s')"
      unfolding process_requests.simps [of env c] Some option.case Let_def .
    then obtain r1 s1 where sv: "serve_file env (fd c) (cstr ?b) s = Inr (r1, s1)"
      and rest: "(if r1 < 0 then Inr (-1, c\<lparr>buf := ?b\<rparr>, s1) else process_requests env ?c s1)
        = Inr (r, c', s')"
      by (auto simp: cbind_Inr_conv)
    show ?thesis
    proof (cases "r1 < 0")
      case True
      with rest sv turn req show ?thesis by auto
    next
      case False
      with rest have "process_requests env ?c s1 = Inr (r, c', s')" by simp
      note ih = "1.IH" [OF Some refl sv refl False refl _ this]
      define c1 where "c1 = ?c"
      have c1: "buf_len ?c \<le> length (buf ?c)" "fd c1 = fd c" "length (buf c1) = length (buf c)"
        using len m "1.prems"(1) by (auto simp: c1_def)
      from ih [OF c1(1), folded c1_def] obtain r0 where
        "serve_lines env (fd c) (map request_of (complete_lines (pending c1))) s1 = Inr (r0, s')"
        "fd c' = fd c" "length (buf c') = length (buf c)"
        "if r0 < 0 then r = -1
         else pending c' = unfinished (pending c1) \<and> buf_len c' \<le> length (buf c') \<and>
           r = (if REQ_BUF_SIZE - 1 \<le> length (unfinished (pending c1)) then -1 else 0)"
        unfolding c1(2,3) by blast
      with sv req False turn [folded c1_def] show ?thesis
        by (intro exI [of _ r0]) (simp split: if_split_asm)
    qed
  qed
qed

lemma request_done_frame:
  assumes "request_done v cfd good r s s'"
  shows "mem_inv s'" "open_files s' = open_files s" "clients s' = clients s"
    "num_clients s' = num_clients s" "socks s' = socks s" "docroot s' = docroot s"
    "running s' = running s" "cache_clear_requested s' = cache_clear_requested s" "r = 0 \<or> r = -1"
    "rcvd s' = rcvd s"
    "\<exists>reply out rest. good reply \<and> reply = out @ rest \<and>
       sent s' = (sent s)(cfd := sent s cfd @ out) \<and>
       (no_error (wrs s) \<longrightarrow> r = 0 \<and> rest = [] \<and> no_error (wrs s'))"
proof -
  from assms obtain strict p reply s1 c h n t where good: "good reply"
    and io: "io_step strict cfd reply r s s1"
    and s': "s' = s1\<lparr>fcache := c, fheap := h, open_files := n, clock := t\<rparr>"
    and rest: "mem_inv s'" "open_files s' = open_files s"
    unfolding request_done_def handled_def by blast
  show "mem_inv s'" "open_files s' = open_files s" using rest by blast+
  show "clients s' = clients s" "num_clients s' = num_clients s" "socks s' = socks s"
    "docroot s' = docroot s" "running s' = running s"
    "cache_clear_requested s' = cache_clear_requested s" "rcvd s' = rcvd s"
    using io_step_frame [OF io] s' by simp_all
  show "r = 0 \<or> r = -1" by (rule io_step_code [OF io])
  show "\<exists>reply out rest. good reply \<and> reply = out @ rest \<and>
       sent s' = (sent s)(cfd := sent s cfd @ out) \<and>
       (no_error (wrs s) \<longrightarrow> r = 0 \<and> rest = [] \<and> no_error (wrs s'))"
  proof -
    from io obtain out rest ws where "reply = out @ rest"
      "no_error (wrs s) \<longrightarrow> r = 0 \<and> rest = [] \<and> no_error ws"
      "s1 = s\<lparr>wrs := ws, sent := (sent s)(cfd := sent s cfd @ out)\<rparr>"
      unfolding io_step_def by blast
    with good s' show ?thesis
      by (intro exI [of _ reply] exI [of _ out] exI [of _ rest]) simp
  qed
qed

text \<open>What every request of a connection leaves alone.\<close>

definition serve_frame :: "fserver \<Rightarrow> fserver \<Rightarrow> bool" where
  "serve_frame s s' \<longleftrightarrow>
     mem_inv s' \<and> open_files s' = open_files s \<and> clients s' = clients s \<and>
     num_clients s' = num_clients s \<and> socks s' = socks s \<and> docroot s' = docroot s \<and>
     running s' = running s \<and> cache_clear_requested s' = cache_clear_requested s \<and> rcvd s' = rcvd s"

lemma serve_frame_trans: "serve_frame s s1 \<Longrightarrow> serve_frame s1 s2 \<Longrightarrow> serve_frame s s2"
  by (simp add: serve_frame_def)

lemma serve_file_frame:
  assumes "mem_inv s" "\<forall>t. view_ok (env t)"
  shows "okres (\<lambda>(r, s'). serve_frame s s' \<and> (r = 0 \<or> r = -1)) (serve_file env cfd filename s)"
  by (rule okres_mono [OF serve_file_ok [OF assms(1)]])
    (use assms in \<open>auto simp: serve_frame_def dest: request_done_frame\<close>)

lemma process_requests_ok:
  assumes "mem_inv s" "\<forall>t. view_ok (env t)" "buf_len c \<le> length (buf c)"
  shows "okres (\<lambda>(r, c', s'). serve_frame s s' \<and> (r = 0 \<or> r = -1) \<and> fd c' = fd c \<and>
      length (buf c') = length (buf c) \<and> (r = 0 \<longrightarrow> buf_len c' < REQ_BUF_SIZE - 1))
    (process_requests env c s)"
  using assms
proof (induction env c s rule: process_requests.induct)
  case (1 env c s)
  show ?case
  proof (cases "memchr (buf c) NL (buf_len c)")
    case None
    then show ?thesis using "1.prems" by (simp add: process_requests.simps [of env c] serve_frame_def)
  next
    case (Some p)
    let ?b = "terminate_line (buf c) p" and ?n = "buf_len c - (p + 1)"
    let ?c = "c\<lparr>buf := memmove0 ?b (p + 1) ?n, buf_len := ?n\<rparr>"
    note m = memchr_Some [OF Some]
    have len: "length (memmove0 ?b (p + 1) ?n) = length (buf c)"
      using m "1.prems"(3) by (subst length_memmove0) auto
    show ?thesis
      unfolding process_requests.simps [of env c] Some option.case Let_def
    proof (rule okres_bind_eq [OF serve_file_frame [OF "1.prems"(1,2)]], clarify)
      fix r1 s1 assume sv: "serve_file env (fd c) (cstr ?b) s = Inr (r1, s1)"
        and fr: "serve_frame s s1" and r1: "r1 = 0 \<or> r1 = -1"
      let ?Q = "\<lambda>(r, c', s'). serve_frame s s' \<and> (r = 0 \<or> r = -1) \<and> fd c' = fd c \<and>
        length (buf c') = length (buf c) \<and> (r = 0 \<longrightarrow> buf_len c' < REQ_BUF_SIZE - 1)"
      have "okres ?Q (process_requests env ?c s1)" if "\<not> r1 < 0"
        by (rule okres_mono [OF "1.IH" [OF Some refl sv refl that refl]])
          (use fr "1.prems" len in \<open>auto simp: serve_frame_def\<close>)
      with fr show "okres ?Q (if r1 < 0 then Inr (-1, c\<lparr>buf := ?b\<rparr>, s1)
          else process_requests env ?c s1)" by auto
    qed
  qed
qed

end
