(* ===== verification/FileLoop.thy ===== *)
theory FileLoop
  imports FileRequests
begin

section \<open>The connection table and the event loop of the file server\<close>

text \<open>
  The invariant of the server and that every turn of the event loop keeps it: the table is well
  formed, and between requests the only live blocks of the heap are those of the cache.
\<close>

subsection \<open>The invariant of the server\<close>

text \<open>
  The table is well formed: no buffer has its last byte in use, so the next \<^verbatim>\<open>read\<close> has room, the
  descriptors of the slots in use are distinct and they are exactly the open sockets. No file is
  open and no block is live but those of the cache.
\<close>

definition table_inv :: "fserver \<Rightarrow> bool" where
  "table_inv s \<longleftrightarrow>
     length (clients s) = MAX_CLIENTS \<and> num_clients s \<le> MAX_CLIENTS \<and>
     (\<forall>c\<in>set (clients s). length (buf c) = REQ_BUF_SIZE) \<and>
     (\<forall>c\<in>set (take (num_clients s) (clients s)). buf_len c < REQ_BUF_SIZE - 1) \<and>
     distinct (live_fds s) \<and> socks s = set (live_fds s)"

definition server_inv :: "fserver \<Rightarrow> bool" where
  "server_inv s \<longleftrightarrow> mem_inv s \<and> open_files s = 0 \<and> table_inv s"

lemma server_init_inv: "server_inv (server_init root)"
  using cache_init_inv
  by (auto simp: server_inv_def server_init_def mem_inv_def table_inv_def live_fds_def client0_def)

lemma remove_client_live:
  assumes "i < num_clients s" "num_clients s \<le> length (clients s)" "distinct (live_fds s)"
  shows "set (live_fds (remove_client i s)) = set (live_fds s) - {fd (clients s ! i)}"
    "distinct (live_fds (remove_client i s))"
  using swap_remove_set [OF assms(1,2), of fd] assms(3)
  by (simp_all add: live_fds_def remove_client_def)

lemma remove_client_table:
  assumes inv: "table_inv s" and i: "i < num_clients s"
    and c: "fd c = fd (clients s ! i)" "length (buf c) = REQ_BUF_SIZE"
  shows "table_inv (remove_client i (s\<lparr>clients := (clients s)[i := c]\<rparr>))"
proof -
  let ?s = "s\<lparr>clients := (clients s)[i := c]\<rparr>" and ?n = "num_clients s"
  let ?xs = "(clients s)[i := c]"
  have n: "?n \<le> length (clients s)" "length (clients s) = MAX_CLIENTS" using inv by (auto simp: table_inv_def)
  have fds: "live_fds ?s = live_fds s"
    using i n c(1) by (simp add: live_fds_def take_update_swap map_update list_update_same_conv)
  have d: "distinct (live_fds ?s)" using inv fds by (simp add: table_inv_def)
  note live = remove_client_live [of i ?s, OF _ _ d]
  have at: "clients ?s ! i = c" using i n by simp
  have bl: "buf_len e < REQ_BUF_SIZE - 1"
    if "e \<in> set (take (?n - 1) (?xs[i := ?xs ! (?n - 1)]))" for e
  proof -
    from that obtain j where j: "j < ?n - 1" "e = ?xs[i := ?xs ! (?n - 1)] ! j"
      using n by (auto simp: in_set_conv_nth)
    from swap_remove_nth [OF j(1) i, of ?xs] n obtain k where "k < ?n" "k \<noteq> i" "e = ?xs ! k"
      unfolding j(2) by auto
    then have "e \<in> set (take ?n (clients s))" using n by (auto simp: in_set_conv_nth)
    with inv show ?thesis by (simp add: table_inv_def)
  qed
  have sz: "length (buf e) = REQ_BUF_SIZE" if "e \<in> set (?xs[i := ?xs ! (?n - 1)])" for e
  proof -
    have "?xs ! (?n - 1) \<in> set ?xs" using i n by (intro nth_mem) simp
    moreover have "e \<in> insert (?xs ! (?n - 1)) (set ?xs)"
      using that set_update_subset_insert by fast
    moreover have "set ?xs \<subseteq> insert c (set (clients s))" by (rule set_update_subset_insert)
    ultimately have "e \<in> insert c (set (clients s))" by auto
    with inv c(2) show ?thesis by (auto simp: table_inv_def)
  qed
  have "socks (remove_client i ?s) = set (live_fds (remove_client i ?s))"
    using inv live i n fds at by (simp add: table_inv_def) (simp add: remove_client_def at)
  with live i n sz bl inv show ?thesis
    unfolding table_inv_def by (auto simp: remove_client_def)
qed

lemma update_client_table:
  assumes inv: "table_inv s" and i: "i < num_clients s"
    and c: "fd c = fd (clients s ! i)" "length (buf c) = REQ_BUF_SIZE" "buf_len c < REQ_BUF_SIZE - 1"
  shows "table_inv (s\<lparr>clients := (clients s)[i := c]\<rparr>)"
proof -
  have n: "num_clients s \<le> length (clients s)" using inv by (auto simp: table_inv_def)
  have "live_fds (s\<lparr>clients := (clients s)[i := c]\<rparr>) = live_fds s"
    using i n c(1) by (simp add: live_fds_def take_update_swap map_update list_update_same_conv)
  moreover have "set ((clients s)[i := c]) \<subseteq> insert c (set (clients s))"
    "set (take (num_clients s) ((clients s)[i := c])) \<subseteq> insert c (set (take (num_clients s) (clients s)))"
    by (simp_all add: set_update_subset_insert take_update_swap)
  ultimately show ?thesis using inv c by (auto simp: table_inv_def)
qed

lemma add_client_table:
  assumes inv: "table_inv s" and new: "fst conn \<notin> socks s"
  shows "table_inv (add_client conn s)"
    and "socks (add_client conn s) \<subseteq> insert (fst conn) (socks s)"
proof -
  obtain cfd cip cport where conn: "conn = (cfd, cip, cport)" by (cases conn)
  show "socks (add_client conn s) \<subseteq> insert (fst conn) (socks s)"
    by (auto simp: add_client_def conn)
  show "table_inv (add_client conn s)"
  proof (cases "MAX_CLIENTS \<le> num_clients s")
    case True
    then show ?thesis using inv by (simp add: add_client_def conn)
  next
    case False
    let ?n = "num_clients s"
    let ?c = "(clients s ! ?n)\<lparr>fd := cfd, buf_len := 0, port := cport, ip := cip\<rparr>"
    have n: "?n < length (clients s)" using inv False by (simp add: table_inv_def)
    then have live: "take (Suc ?n) ((clients s)[?n := ?c]) = take ?n (clients s) @ [?c]"
      by (simp add: take_Suc_conv_app_nth)
    have "clients s ! ?n \<in> set (clients s)" using n by simp
    then have "\<forall>c\<in>set ((clients s)[?n := ?c]). length (buf c) = REQ_BUF_SIZE"
      using inv set_update_subset_insert [of "clients s" ?n ?c] by (auto simp: table_inv_def)
    with inv False new n show ?thesis
      by (auto simp: table_inv_def add_client_def conn live_fds_def live REQ_BUF_SIZE_def)
  qed
qed

subsection \<open>The event loop keeps the invariant\<close>

lemma table_inv_cong:
  "clients s' = clients s \<Longrightarrow> num_clients s' = num_clients s \<Longrightarrow> socks s' = socks s \<Longrightarrow>
     table_inv s' = table_inv s"
  by (simp add: table_inv_def live_fds_def)

lemma mem_inv_cong: "fcache s' = fcache s \<Longrightarrow> fheap s' = fheap s \<Longrightarrow> mem_inv s' = mem_inv s"
  by (simp add: mem_inv_def)

lemma remove_client_frame [simp]:
  "fcache (remove_client i s) = fcache s" "fheap (remove_client i s) = fheap s"
  "open_files (remove_client i s) = open_files s" "num_clients (remove_client i s) = num_clients s - 1"
  "docroot (remove_client i s) = docroot s" "running (remove_client i s) = running s"
  "sent (remove_client i s) = sent s" "rcvd (remove_client i s) = rcvd s" "wrs (remove_client i s) = wrs s"
  by (simp_all add: remove_client_def)

lemma remove_client_inv:
  assumes "server_inv s" "i < num_clients s"
  shows "server_inv (remove_client i s)"
proof -
  have n: "i < length (clients s)" using assms by (auto simp: server_inv_def table_inv_def)
  then have "clients s ! i \<in> set (clients s)" by simp
  then have "length (buf (clients s ! i)) = REQ_BUF_SIZE"
    using assms by (simp add: server_inv_def table_inv_def)
  then have "table_inv (remove_client i (s\<lparr>clients := (clients s)[i := clients s ! i]\<rparr>))"
    using assms by (intro remove_client_table) (auto simp: server_inv_def)
  moreover have "mem_inv (remove_client i s) = mem_inv s" by (rule mem_inv_cong) simp_all
  ultimately show ?thesis using assms by (simp add: server_inv_def)
qed

text \<open>
  One slot: the invariant holds again afterwards, and the slots below are as they were, so the
  loop meets every connection exactly once although slots are filled from behind.
\<close>

definition slot_done :: "nat \<Rightarrow> fserver \<Rightarrow> fserver \<Rightarrow> bool" where
  "slot_done i s s' \<longleftrightarrow>
     server_inv s' \<and> i \<le> num_clients s' \<and> (\<forall>j<i. clients s' ! j = clients s ! j) \<and>
     docroot s' = docroot s"

lemma remove_client_slot:
  assumes "server_inv s'" "i < num_clients s'" "\<forall>j<i. clients s' ! j = clients s ! j"
    "docroot s' = docroot s"
  shows "slot_done i s (remove_client i s')"
  using assms remove_client_inv [OF assms(1,2)]
  by (auto simp: slot_done_def) (simp add: remove_client_def)

text \<open>The slot after a \<^verbatim>\<open>read\<close> of \<open>d\<close>, and the three things that can happen to a slot.\<close>

definition fed :: "Client \<Rightarrow> bytes \<Rightarrow> Client" where
  "fed c d = c\<lparr>buf := blit (buf c) (buf_len c) d, buf_len := buf_len c + length d\<rparr>"

definition received :: "int \<Rightarrow> bytes \<Rightarrow> fserver \<Rightarrow> fserver" where
  "received cfd d s = s\<lparr>rcvd := (rcvd s)(cfd := rcvd s cfd @ d)\<rparr>"

definition stored :: "nat \<Rightarrow> int \<times> Client \<times> fserver \<Rightarrow> fserver" where
  "stored i = (\<lambda>(r, c', s'). let s2 = s'\<lparr>clients := (clients s')[i := c']\<rparr> in if r < 0 then remove_client i s2 else s2)"

lemma fed_ok:
  assumes "length (buf c) = REQ_BUF_SIZE" "buf_len c < REQ_BUF_SIZE - 1" "length d \<le> REQ_BUF_SIZE - 1 - buf_len c"
  shows "fd (fed c d) = fd c" "length (buf (fed c d)) = REQ_BUF_SIZE" "buf_len (fed c d) \<le> length (buf (fed c d))"
    "pending (fed c d) = pending c @ d"
proof -
  have "buf_len c + length d \<le> length (buf c)" using assms by (auto simp: REQ_BUF_SIZE_def)
  then show "fd (fed c d) = fd c" "length (buf (fed c d)) = REQ_BUF_SIZE" "buf_len (fed c d) \<le> length (buf (fed c d))"
    "pending (fed c d) = pending c @ d"
    using assms(1) by (simp_all add: fed_def pending_def)
qed

lemma received_frame [simp]:
  "clients (received cfd d s) = clients s" "num_clients (received cfd d s) = num_clients s"
  "socks (received cfd d s) = socks s" "docroot (received cfd d s) = docroot s" "fcache (received cfd d s) = fcache s"
  "fheap (received cfd d s) = fheap s" "open_files (received cfd d s) = open_files s" "sent (received cfd d s) = sent s"
  "wrs (received cfd d s) = wrs s" "rcvd (received cfd d s) = (rcvd s)(cfd := rcvd s cfd @ d)"
  by (simp_all add: received_def)

lemma client_body_cases:
  obtains (idle) "client_body env rd ready i s = Inr s"
    | (gone) "client_body env rd ready i s = Inr (remove_client i s)"
    | (data) d where "d \<noteq> []" "length d \<le> REQ_BUF_SIZE - 1 - buf_len (clients s ! i)"
        "client_body env rd ready i s = cbind (process_requests env (fed (clients s ! i) d) (received (fd (clients s ! i)) d s))
          (\<lambda>x. Inr (stored i x))"
proof (cases "fd (clients s ! i) \<in> ready")
  case True
  let ?c = "clients s ! i"
  show ?thesis
  proof (cases "rd (fd ?c)")
    case (R bs)
    let ?d = "take (REQ_BUF_SIZE - 1 - buf_len ?c) bs"
    have "client_body env rd ready i s = (if ?d = [] then Inr (remove_client i s)
        else cbind (process_requests env (fed ?c ?d) (received (fd ?c) ?d s)) (\<lambda>x. Inr (stored i x)))"
      using True R by (simp add: client_body_def Let_def fed_def received_def stored_def case_prod_unfold)
    then show ?thesis using that(2) that(3) [of ?d] by (cases "?d = []") simp_all
  qed (use True that(2) in \<open>simp add: client_body_def Let_def\<close>)
qed (use that(1) in \<open>simp add: client_body_def\<close>)

lemma live_slot:
  assumes "table_inv s" "i < num_clients s"
  shows "clients s ! i \<in> set (take (num_clients s) (clients s))" "i < length (clients s)"
    "length (buf (clients s ! i)) = REQ_BUF_SIZE" "buf_len (clients s ! i) < REQ_BUF_SIZE - 1"
proof -
  show n: "i < length (clients s)" using assms by (auto simp: table_inv_def)
  show live: "clients s ! i \<in> set (take (num_clients s) (clients s))"
    using assms n by (fastforce simp: in_set_conv_nth)
  show "length (buf (clients s ! i)) = REQ_BUF_SIZE" "buf_len (clients s ! i) < REQ_BUF_SIZE - 1"
    using assms n live by (auto simp: table_inv_def)
qed

lemma stored_ok:
  assumes inv: "server_inv s" and i: "i < num_clients s"
    and fr: "serve_frame s s'" and r: "r = 0 \<or> r = -1" and c': "fd c' = fd (clients s ! i)"
      "length (buf c') = REQ_BUF_SIZE" "r = 0 \<longrightarrow> buf_len c' < REQ_BUF_SIZE - 1"
  shows "slot_done i s (stored i (r, c', s'))"
proof -
  let ?s2 = "s'\<lparr>clients := (clients s')[i := c']\<rparr>"
  have f: "mem_inv s'" "clients s' = clients s" "num_clients s' = num_clients s"
    "socks s' = socks s" "open_files s' = 0" "docroot s' = docroot s"
    using fr inv by (auto simp: serve_frame_def server_inv_def)
  have t: "table_inv s'" using inv table_inv_cong [of s' s] f by (simp add: server_inv_def)
  have "table_inv (remove_client i ?s2)" "r = 0 \<longrightarrow> table_inv ?s2"
    using remove_client_table [OF t, of i c'] update_client_table [OF t, of i c'] i c' f by auto
  moreover have "mem_inv (remove_client i ?s2)" "mem_inv ?s2"
    using mem_inv_cong [of "remove_client i ?s2" s'] mem_inv_cong [of ?s2 s'] f(1) by simp_all
  ultimately show ?thesis
    using r i f by (auto simp: slot_done_def stored_def server_inv_def) (auto simp: remove_client_def)
qed

lemma client_body_ok:
  assumes inv: "server_inv s" and ok: "\<forall>t. view_ok (env t)" and i: "i < num_clients s"
  shows "okres (slot_done i s) (client_body env rd ready i s)"
proof (cases rule: client_body_cases [of env rd ready i s])
  case idle
  then show ?thesis using inv i by (simp add: slot_done_def)
next
  case gone
  then show ?thesis using remove_client_slot [OF inv i] by simp
next
  case (data d)
  let ?c = "clients s ! i" and ?s = "received (fd (clients s ! i)) d s"
  have t: "table_inv s" and mem: "mem_inv ?s" using inv mem_inv_cong [of ?s s] by (simp_all add: server_inv_def)
  note c1 = fed_ok [OF live_slot(3,4) [OF t i] data(2)]
  have inv': "server_inv ?s" using inv mem table_inv_cong [of ?s s] by (simp add: server_inv_def)
  show ?thesis unfolding data(3)
  proof (rule okres_bind [OF process_requests_ok [OF mem ok c1(3)]], clarify)
    fix r :: int and c' :: Client and s'
    assume "serve_frame ?s s'" "r = 0 \<or> r = -1" "fd c' = fd (fed ?c d)"
      "length (buf c') = length (buf (fed ?c d))" "r = 0 \<longrightarrow> buf_len c' < REQ_BUF_SIZE - 1"
    then have "slot_done i ?s (stored i (r, c', s'))" using c1 i by (intro stored_ok [OF inv']) simp_all
    then show "okres (slot_done i s) (Inr (stored i (r, c', s')))" by (simp add: slot_done_def)
  qed
qed

lemma client_loop_ok:
  assumes "server_inv s" "\<forall>t. view_ok (env t)" "n \<le> num_clients s"
  shows "okres (\<lambda>s'. server_inv s' \<and> docroot s' = docroot s) (client_loop env rd ready n s)"
  using assms
proof (induction n arbitrary: s)
  case (Suc i)
  then have "okres (slot_done i s) (client_body env rd ready i s)" by (intro client_body_ok) auto
  then show ?case unfolding client_loop.simps
  proof (rule okres_bind)
    fix s1 assume "slot_done i s s1"
    then have "server_inv s1" "i \<le> num_clients s1" "docroot s1 = docroot s"
      by (auto simp: slot_done_def)
    then show "okres (\<lambda>s'. server_inv s' \<and> docroot s' = docroot s) (client_loop env rd ready i s1)"
      using Suc.IH [of s1] Suc.prems(2) by simp
  qed
qed simp

lemma fold_add_client_inv:
  assumes "server_inv s" "distinct (map fst conns)" "set (map fst conns) \<inter> socks s = {}"
  shows "server_inv (fold add_client conns s) \<and> docroot (fold add_client conns s) = docroot s"
  using assms
proof (induction conns arbitrary: s)
  case (Cons conn conns)
  have "table_inv (add_client conn s)" "socks (add_client conn s) \<subseteq> insert (fst conn) (socks s)"
    using add_client_table [of s conn] Cons.prems by (auto simp: server_inv_def)
  moreover have "mem_inv (add_client conn s) = mem_inv s" "docroot (add_client conn s) = docroot s"
    "open_files (add_client conn s) = open_files s"
    by (auto simp: add_client_def mem_inv_def split: prod.splits)
  moreover have "set (map fst conns) \<inter> insert (fst conn) (socks s) = {}"
    using Cons.prems(2,3) by auto
  ultimately have "server_inv (add_client conn s)" "set (map fst conns) \<inter> socks (add_client conn s) = {}"
    using Cons.prems(1) by (simp add: server_inv_def, blast)
  with Cons.IH [of "add_client conn s"] Cons.prems(2) \<open>docroot (add_client conn s) = docroot s\<close>
  show ?case by simp
qed simp

lemma event_turn_ok:
  assumes inv: "server_inv s" and ok: "\<forall>t. view_ok (env t)" and acc: "accept_ok listen_fd le s"
  shows "okres (\<lambda>(go, s'). server_inv s' \<and> docroot s' = docroot s) (event_turn env le listen_fd s)"
proof -
  let ?P = "\<lambda>s1. server_inv s1 \<and> docroot s1 = docroot s \<and> socks s1 = socks s"
  have "okres ?P (if cache_clear_requested s
      then cbind (cache_clear (fcache s) (fheap s)) (\<lambda>(c, h).
             Inr (s\<lparr>cache_clear_requested := False, fcache := c, fheap := h\<rparr>)) else Inr s)"
  proof (cases "cache_clear_requested s")
    case True
    have "cache_inv (fcache s) (fheap s)" "dom (fheap s) = cache_owned (fcache s)"
      using inv by (auto simp: server_inv_def mem_inv_def)
    with cache_clear_ok obtain c h where "cache_clear (fcache s) (fheap s) = Inr (c, h)"
      "cache_inv c h" "cache_owned c = {}" "dom h = {}"
      using owner_step_dom by metis
    moreover have "table_inv (s\<lparr>cache_clear_requested := False, fcache := c, fheap := h\<rparr>) = table_inv s"
      by (rule table_inv_cong) simp_all
    ultimately show ?thesis using True inv by (simp add: server_inv_def mem_inv_def)
  qed (use inv in simp)
  then show ?thesis unfolding event_turn_def
  proof (rule okres_bind)
    fix s1 assume P: "?P s1"
    show "okres (\<lambda>(go, s'). server_inv s' \<and> docroot s' = docroot s)
      (case e_select le of Inl e \<Rightarrow> Inr (e = EINTR, s1)
       | Inr rdy \<Rightarrow>
           let ready = rdy \<inter> insert listen_fd (set (live_fds s1));
               s2 = (if listen_fd \<in> ready then fold add_client (e_accept le) s1 else s1)
           in cbind (client_loop env (e_read le) ready (num_clients s2) s2) (\<lambda>s2. Inr (True, s2)))"
    proof (cases "e_select le")
      case (Inr rdy)
      let ?ready = "rdy \<inter> insert listen_fd (set (live_fds s1))"
      define s2 where "s2 = (if listen_fd \<in> ?ready then fold add_client (e_accept le) s1 else s1)"
      have "server_inv s2 \<and> docroot s2 = docroot s"
        using fold_add_client_inv [of s1 "e_accept le"] P acc by (auto simp: s2_def accept_ok_def)
      then have "okres (\<lambda>s'. server_inv s' \<and> docroot s' = docroot s)
          (client_loop env (e_read le) ?ready (num_clients s2) s2)"
        using client_loop_ok [of s2 env "num_clients s2"] ok by simp
      then show ?thesis unfolding Inr sum.case Let_def s2_def [symmetric]
        by (rule okres_bind) simp
    qed (use P in simp)
  qed
qed

lemma event_step_inv:
  assumes "event_step wok env listen_fd bs bs'" "\<forall>t. view_ok (env t)"
    and "server_inv (snd bs) \<and> docroot (snd bs) = root"
  shows "server_inv (snd bs') \<and> docroot (snd bs') = root"
  using assms
proof (cases rule: event_step.cases)
  case (sigint b s)
  then show ?thesis using assms
    by (auto simp: handle_sigint_def server_inv_def table_inv_def live_fds_def mem_inv_def)
next
  case (sigusr1 b s)
  then show ?thesis using assms
    by (auto simp: handle_sigusr1_def server_inv_def table_inv_def live_fds_def mem_inv_def)
next
  case (turn s le ws go s')
  have "server_inv (s\<lparr>wrs := ws\<rparr>)"
    using assms(3) turn by (auto simp: server_inv_def table_inv_def live_fds_def mem_inv_def)
  moreover have "accept_ok listen_fd le (s\<lparr>wrs := ws\<rparr>)" using turn by (simp add: accept_ok_def)
  ultimately have "okres (\<lambda>(go, s'). server_inv s' \<and> docroot s' = docroot (s\<lparr>wrs := ws\<rparr>))
      (event_turn env le listen_fd (s\<lparr>wrs := ws\<rparr>))"
    using assms(2) by (intro event_turn_ok)
  then show ?thesis using turn assms(3) by simp
next
  case (stop s)
  then show ?thesis using assms by simp
qed

subsection \<open>The unfinished lines\<close>

text \<open>
  The buffer of an open connection holds the unfinished end of what was received on it. Removing a
  slot, serving one and adding one keep this, whatever is done with the complete lines.
\<close>

definition pend_ok :: "fserver \<Rightarrow> Client \<Rightarrow> bool" where
  "pend_ok s c \<longleftrightarrow> pending c = unfinished (rcvd s (fd c))"

definition pends :: "fserver \<Rightarrow> bool" where
  "pends s \<longleftrightarrow> (\<forall>i<num_clients s. pend_ok s (clients s ! i))"

lemma pends_cong:
  "clients s' = clients s \<Longrightarrow> num_clients s' = num_clients s \<Longrightarrow> rcvd s' = rcvd s \<Longrightarrow> pends s' = pends s"
  by (simp add: pends_def pend_ok_def)

lemma pends_remove:
  assumes "i < num_clients s" "num_clients s \<le> length (clients s)"
    and "\<forall>k<num_clients s. k \<noteq> i \<longrightarrow> pend_ok s (clients s ! k)"
  shows "pends (remove_client i s)"
proof -
  have "pend_ok s (clients (remove_client i s) ! j)" if "j < num_clients s - 1" for j
    using swap_remove_nth [OF that assms(1,2)] assms(3) by (auto simp: remove_client_def)
  then show ?thesis by (simp add: pends_def pend_ok_def)
qed

lemma distinct_slots:
  assumes "table_inv s" "i < num_clients s" "k < num_clients s" "k \<noteq> i"
  shows "fd (clients s ! k) \<noteq> fd (clients s ! i)"
proof -
  have "distinct (live_fds s)" "num_clients s \<le> length (clients s)" using assms(1) by (auto simp: table_inv_def)
  then show ?thesis using assms(2-4) by (auto simp: live_fds_def distinct_conv_nth)
qed

lemma pends_served:
  assumes t: "table_inv s" and p: "pends s" and i: "i < num_clients s" and c: "c = clients s ! i"
    and c': "fd c' = fd c" "pending c' = unfinished (pending c @ d)"
    and s': "clients s' = clients s" "num_clients s' = num_clients s" "rcvd s' = (rcvd s)(fd c := rcvd s (fd c) @ d)"
  shows "pends (s'\<lparr>clients := (clients s')[i := c']\<rparr>)" "pends (remove_client i (s'\<lparr>clients := (clients s')[i := c']\<rparr>))"
proof -
  let ?s2 = "s'\<lparr>clients := (clients s')[i := c']\<rparr>"
  have n: "i < length (clients s)" "num_clients s \<le> length (clients s)" using t i by (auto simp: table_inv_def)
  have "pending c = unfinished (rcvd s (fd c))" using p i by (simp add: pends_def pend_ok_def c)
  then have own: "pend_ok ?s2 c'" using nl_split_append [of "rcvd s (fd c)" d] by (simp add: pend_ok_def s'(3) c')
  have others: "pend_ok ?s2 (clients ?s2 ! k)" if "k < num_clients s" "k \<noteq> i" for k
    using p distinct_slots [OF t i that] that by (simp add: pends_def pend_ok_def s' c)
  have "pend_ok ?s2 (clients ?s2 ! k)" if "k < num_clients s" for k
    using own others [OF that] n s'(1) by (cases "k = i") simp_all
  then show "pends ?s2" by (simp add: pends_def s'(2))
  show "pends (remove_client i ?s2)" by (rule pends_remove) (use i n others s' in auto)
qed

lemma pends_add:
  assumes t: "table_inv s" and p: "pends s" and new: "fst conn \<notin> socks s"
  shows "pends (add_client conn s)"
proof (cases "MAX_CLIENTS \<le> num_clients s")
  case True
  then show ?thesis using p by (simp add: add_client_def split: prod.split)
next
  case False
  obtain cfd cip cport where conn: "conn = (cfd, cip, cport)" by (cases conn)
  have n: "num_clients s < length (clients s)" using t False by (simp add: table_inv_def)
  have "fd (clients s ! k) \<noteq> cfd" if "k < num_clients s" for k
  proof -
    have "fd (clients s ! k) \<in> set (live_fds s)" using live_slot(1) [OF t that] by (simp add: live_fds_def)
    then show ?thesis using t new by (auto simp: table_inv_def conn)
  qed
  then show ?thesis using p n False
    by (auto simp: pends_def add_client_def conn pend_ok_def pending_def nth_list_update less_Suc_eq nl_split_none)
qed

end
