(* ===== verification/Prompt.thy ===== *)
theory Prompt
  imports Syscalls
begin

section \<open>Operations that return once their writes are answered\<close>

text \<open>
  The loops of \<^verbatim>\<open>write_all\<close> and \<^verbatim>\<open>sock_send\<close> end only when the kernel has taken every byte, so what
  calls them returns only if the kernel goes on taking bytes. The kernel is an endless sequence of
  answers here, of which the calls see longer and longer beginnings: an operation settles when from
  some length on its outcome is always the same, and is not that of a call that is still blocked.
  No bound on the number of calls is needed for that, and it carries over from an operation to those
  built from it.
\<close>

subsection \<open>An endless sequence of answers\<close>

definition answers :: "(nat \<Rightarrow> wres) \<Rightarrow> nat \<Rightarrow> nat \<Rightarrow> wres list" where
  "answers w a m = map w [a..<m]"

text \<open>The kernel takes at least one byte again and again, whatever it answers in between.\<close>

definition keeps_taking :: "(nat \<Rightarrow> wres) \<Rightarrow> bool" where
  "keeps_taking w \<longleftrightarrow> (\<forall>k. \<exists>m\<ge>k. \<exists>n. w m = W (Suc n))"

lemma answers_append: "a \<le> n \<Longrightarrow> n \<le> m \<Longrightarrow> answers w a m = answers w a n @ answers w n m"
  using upt_add_eq_append [of a n "m - n"] by (simp add: answers_def)

lemma progress_append [simp]: "progress_count (ws @ vs) = progress_count ws + progress_count vs"
  by (simp add: progress_count_def)

lemma progress_unbounded:
  assumes "keeps_taking w"
  shows "\<exists>m\<ge>a. l \<le> progress_count (answers w a m)"
proof (induction l)
  case (Suc l)
  then obtain m where m: "a \<le> m" "l \<le> progress_count (answers w a m)" by blast
  from assms obtain j n where j: "m \<le> j" "w j = W (Suc n)" unfolding keeps_taking_def by blast
  have "answers w a (Suc j) = answers w a m @ answers w m j @ [w j]"
    using m(1) j(1) answers_append [of a m j w] by (simp add: answers_def)
  then have "Suc l \<le> progress_count (answers w a (Suc j))"
    using m(2) j(2) by (simp add: progress_count_def)
  then show ?case using m(1) j(1) by (intro exI [of _ "Suc j"]) simp
qed auto

text \<open>The loop looks at no more answers than it needs.\<close>

lemma write_loop_append:
  "write_loop ws bs = Inr (r, out, ws') \<Longrightarrow>
     write_loop (ws @ vs) bs = Inr (r, out, ws' @ vs) \<and> (\<exists>us. ws = us @ ws')"
proof (induction ws bs arbitrary: r out ws' rule: write_loop.induct)
  case (4 n ws b bs)
  from "4.prems" obtain out' where w: "write_loop ws (drop n (b # bs)) = Inr (r, out', ws')"
    and out: "out = take n (b # bs) @ out'"
    by (auto simp del: take_Cons' drop_Cons')
  from "4.IH" [OF w] obtain us where
    "write_loop (ws @ vs) (drop n (b # bs)) = Inr (r, out', ws' @ vs)" "ws = us @ ws'" by blast
  then show ?case using out by (auto intro: exI [of _ "W n # us"] simp del: take_Cons' drop_Cons')
qed (auto split: if_splits)

lemma write_loop_settles:
  assumes "keeps_taking w"
  shows "\<exists>n a' r out. \<forall>m\<ge>n. write_loop (answers w a m) bs = Inr (r, out, answers w a' m)"
proof -
  obtain n where n: "a \<le> n" "length bs \<le> progress_count (answers w a n)"
    using progress_unbounded [OF assms] by blast
  from write_loop_returns [OF n(2)] obtain r out ws
    where ws: "write_loop (answers w a n) bs = Inr (r, out, ws)" by blast
  then obtain us where us: "answers w a n = us @ ws" using write_loop_append by blast
  have len: "length us + length ws = n - a" using us by (simp add: answers_def flip: length_append) (metis length_map length_upt)
  have "ws = drop (length us) (answers w a n)" using us by simp
  also have "\<dots> = answers w (a + length us) n" by (simp add: answers_def drop_map)
  finally have "answers w (a + length us) m = ws @ answers w n m" if "n \<le> m" for m
    using answers_append [of "a + length us" n m w] that len n(1) by simp
  moreover have "write_loop (answers w a m) bs = Inr (r, out, ws @ answers w n m)" if "n \<le> m" for m
    using write_loop_append [OF ws] answers_append [OF n(1) that, of w] by metis
  ultimately show ?thesis by metis
qed

subsection \<open>Operations on a state that holds the answers\<close>

text \<open>An operation may give the new state alone, or beside a value.\<close>

definition alone :: "unit \<Rightarrow> 's \<Rightarrow> 's" where
  "alone u s = s"

locale writing =
  fixes get :: "'s \<Rightarrow> wres list" and put :: "wres list \<Rightarrow> 's \<Rightarrow> 's"
  assumes get_put: "get (put ws s) = ws"
    and put_put: "put ws (put ws' s) = put ws s"
begin

text \<open>The operation \<open>f\<close> settles in the state \<open>s\<close>, with a result of the form \<open>res\<close>.\<close>

definition settles :: "(nat \<Rightarrow> wres) \<Rightarrow> ('x \<Rightarrow> 's \<Rightarrow> 'r) \<Rightarrow> ('s \<Rightarrow> 'r cres) \<Rightarrow> 's \<Rightarrow> bool" where
  "settles w res f s \<longleftrightarrow> (\<forall>a. \<exists>n.
     (\<exists>e. e \<noteq> Pending \<and> (\<forall>m\<ge>n. f (put (answers w a m) s) = Inl e)) \<or>
     (\<exists>a' x s'. \<forall>m\<ge>n. f (put (answers w a m) s) = Inr (res x (put (answers w a' m) s'))))"

lemma settles_return:
  "(\<And>ws. f (put ws s) = Inr (res x (put ws s'))) \<Longrightarrow> settles w res f s"
  unfolding settles_def by blast

lemma settles_const: "settles w res (\<lambda>s. Inr (res x s)) s"
  by (rule settles_return) (rule refl)

lemma settles_update:
  "(\<And>ws. g (put ws s) = put ws (g s)) \<Longrightarrow> settles w res (\<lambda>s. Inr (res x (g s))) s"
  by (rule settles_return [where x = x and s' = "g s"]) simp

lemma settles_if:
  "settles w res f s \<Longrightarrow> settles w res g s \<Longrightarrow> settles w res (\<lambda>s. if b then f s else g s) s"
  by (cases b) simp_all

lemma settles_fault: "e \<noteq> Pending \<Longrightarrow> (\<And>ws. f (put ws s) = Inl e) \<Longrightarrow> settles w res f s"
  unfolding settles_def by blast

lemma settles_cong: "settles w res g s' \<Longrightarrow> (\<And>ws. f (put ws s) = g (put ws s')) \<Longrightarrow> settles w res f s"
  unfolding settles_def by simp

lemma settles_after:
  "settles w res f (g s) \<Longrightarrow> (\<And>ws. g (put ws s) = put ws (g s)) \<Longrightarrow> settles w res (\<lambda>s. f (g s)) s"
  by (rule settles_cong) simp_all

lemma settles_bind:
  assumes "settles w res f s" "\<And>x s'. settles w res' (\<lambda>s. k (res x s)) s'"
  shows "settles w res' (\<lambda>s. cbind (f s) k) s"
  unfolding settles_def
proof
  fix a
  from assms(1) obtain n where
    "(\<exists>e. e \<noteq> Pending \<and> (\<forall>m\<ge>n. f (put (answers w a m) s) = Inl e)) \<or>
     (\<exists>a' x s'. \<forall>m\<ge>n. f (put (answers w a m) s) = Inr (res x (put (answers w a' m) s')))"
    unfolding settles_def by blast
  then consider
    (fault) e where "e \<noteq> Pending" "\<And>m. n \<le> m \<Longrightarrow> f (put (answers w a m) s) = Inl e"
  | (returned) a' x s' where "\<And>m. n \<le> m \<Longrightarrow> f (put (answers w a m) s) = Inr (res x (put (answers w a' m) s'))"
    by blast
  then show "\<exists>n. (\<exists>e. e \<noteq> Pending \<and> (\<forall>m\<ge>n. cbind (f (put (answers w a m) s)) k = Inl e)) \<or>
    (\<exists>a' x s'. \<forall>m\<ge>n. cbind (f (put (answers w a m) s)) k = Inr (res' x (put (answers w a' m) s')))"
  proof cases
    case fault
    then have "\<forall>m\<ge>n. cbind (f (put (answers w a m) s)) k = Inl e" by simp
    with fault(1) show ?thesis by blast
  next
    case returned
    then have f: "\<forall>m\<ge>max n n'. cbind (f (put (answers w a m) s)) k = k (res x (put (answers w a' m) s'))" for n'
      by simp
    obtain n' where "(\<exists>e. e \<noteq> Pending \<and> (\<forall>m\<ge>n'. k (res x (put (answers w a' m) s')) = Inl e)) \<or>
      (\<exists>a'' y s''. \<forall>m\<ge>n'. k (res x (put (answers w a' m) s')) = Inr (res' y (put (answers w a'' m) s'')))"
      using assms(2) [of x s'] unfolding settles_def by blast
    then show ?thesis using f [of n'] by (intro exI [of _ "max n n'"]) (fastforce simp: le_max_iff_disj)
  qed
qed

text \<open>A step that does not look at the answers, such as a read of the heap, may fault but not block.\<close>

lemma settles_pure:
  assumes "\<And>ws. f (put ws s) = cbind m (\<lambda>x. k x (put ws s))" "m \<noteq> Inl Pending" "\<And>x. m = Inr x \<Longrightarrow> settles w res (k x) s"
  shows "settles w res f s"
proof (cases m)
  case (Inl e)
  then show ?thesis using assms(1,2) by (intro settles_fault [of e]) auto
next
  case (Inr x)
  then show ?thesis using assms(1) by (intro settles_cong [OF assms(3)]) auto
qed

lemma settles_step:
  "m \<noteq> Inl Pending \<Longrightarrow> (\<And>x. settles w res (k x) s) \<Longrightarrow> settles w res (\<lambda>s. cbind m (\<lambda>x. k x s)) s"
  by (rule settles_pure [of _ _ m k]) simp_all

lemma settles_case_prod:
  "settles w res (k (fst x) (snd x)) s \<Longrightarrow> settles w res (\<lambda>s. case x of (y, z) \<Rightarrow> k y z s) s"
  by (simp add: case_prod_unfold)

lemma settles_oblivious:
  assumes "m \<noteq> Inl Pending" "\<And>ws. f (put ws s) = cbind m (\<lambda>(x, s'). Inr (res x (put ws s')))"
  shows "settles w res f s"
proof (cases m)
  case (Inl e)
  with assms show ?thesis by (intro settles_fault [of e]) auto
next
  case (Inr r)
  with assms(2) show ?thesis
    by (intro settles_return [where x = "fst r" and s' = "snd r"]) (simp add: case_prod_unfold)
qed

text \<open>Whatever settles and has no fault but a call that is still blocked returns.\<close>

lemma settles_okin:
  assumes "settles w res f s" "\<And>ws. okin F P (f (put ws s))"
  shows "\<exists>n. \<forall>m\<ge>n. okin (F - {Pending}) P (f (put (answers w 0 m) s))"
proof -
  have F: "e \<in> F" if "f (put ws s) = Inl e" for ws e
    using assms(2) [of ws] that by simp
  have P: "P x" if "f (put ws s) = Inr x" for ws x
    using assms(2) [of ws] that by (rule okresD)
  from assms(1) obtain n where
    "(\<exists>e. e \<noteq> Pending \<and> (\<forall>m\<ge>n. f (put (answers w 0 m) s) = Inl e)) \<or>
     (\<exists>a' x s'. \<forall>m\<ge>n. f (put (answers w 0 m) s) = Inr (res x (put (answers w a' m) s')))"
    unfolding settles_def by blast
  then have "okin (F - {Pending}) P (f (put (answers w 0 m) s))" if "n \<le> m" for m
    using F P that by fastforce
  then show ?thesis by blast
qed

lemma settles_returns:
  assumes "settles w res f s" "\<And>ws. okres P (f (put ws s))"
  shows "\<exists>n. \<forall>m\<ge>n. \<exists>x. f (put (answers w 0 m) s) = Inr x \<and> P x"
proof -
  have "\<exists>x. r = Inr x \<and> P x" if "okin ({Pending} - {Pending}) P r" for r
    using that by (cases r) auto
  then show ?thesis using settles_okin [OF assms] by meson
qed

text \<open>The loop that writes a whole buffer.\<close>

lemma settles_write:
  assumes "keeps_taking w" "\<And>out ws s. upd out (put ws s) = put ws (upd out s)"
  shows "settles w res (\<lambda>s. cbind (write_loop (get s) bs) (\<lambda>(r, out, ws). Inr (res r (put ws (upd out s))))) s"
  unfolding settles_def
proof
  fix a
  obtain n a' r out where "\<And>m. n \<le> m \<Longrightarrow> write_loop (answers w a m) bs = Inr (r, out, answers w a' m)"
    using write_loop_settles [OF assms(1)] by blast
  then have "\<forall>m\<ge>n. cbind (write_loop (get (put (answers w a m) s)) bs) (\<lambda>(r, out, ws). Inr (res r (put ws (upd out (put (answers w a m) s)))))
      = Inr (res r (put (answers w a' m) (upd out s)))"
    by (simp add: get_put put_put assms(2))
  then show "\<exists>n. (\<exists>e. e \<noteq> Pending \<and> (\<forall>m\<ge>n. cbind (write_loop (get (put (answers w a m) s)) bs)
        (\<lambda>(r, out, ws). Inr (res r (put ws (upd out (put (answers w a m) s))))) = Inl e)) \<or>
    (\<exists>a' x s'. \<forall>m\<ge>n. cbind (write_loop (get (put (answers w a m) s)) bs)
        (\<lambda>(r, out, ws). Inr (res r (put ws (upd out (put (answers w a m) s))))) = Inr (res x (put (answers w a' m) s')))"
    by blast
qed

end

end
