(* ===== verification/FileReturns.thy ===== *)
theory FileReturns
  imports FileServer Prompt
begin

section \<open>The turns of the file server return\<close>

text \<open>
  Every operation of \<^verbatim>\<open>file-server.c\<close> settles while the kernel goes on taking bytes: the loops of
  \<^verbatim>\<open>write_all\<close>, of the streaming path, over the lines of a buffer and over the table all come to an
  end. No invariant is needed for that.
\<close>

interpretation fw: writing wrs "\<lambda>ws s. s\<lparr>wrs := ws\<rparr>"
  by unfold_locales simp_all

text \<open>The result of \<^verbatim>\<open>process_requests\<close>, with the slot it worked on.\<close>

definition beside :: "int \<times> Client \<Rightarrow> fserver \<Rightarrow> int \<times> Client \<times> fserver" where
  "beside x s = (fst x, snd x, s)"

lemma write_all_settles:
  assumes "keeps_taking w"
  shows "fw.settles w Pair (write_all cfd bs) s"
proof (rule fw.settles_cong [OF fw.settles_write [OF assms]])
  show "(\<lambda>out s. s\<lparr>sent := (sent s)(cfd := sent s cfd @ out)\<rparr>) out (s\<lparr>wrs := ws\<rparr>) =
    ((\<lambda>out s. s\<lparr>sent := (sent s)(cfd := sent s cfd @ out)\<rparr>) out s)\<lparr>wrs := ws\<rparr>" for out ws s
    by simp
  show "write_all cfd bs (s\<lparr>wrs := ws\<rparr>) = cbind (write_loop (wrs (s\<lparr>wrs := ws\<rparr>)) bs)
     (\<lambda>(r, out, ws'). Inr (r, (s\<lparr>wrs := ws\<rparr>)\<lparr>sent := (sent (s\<lparr>wrs := ws\<rparr>))(cfd := sent (s\<lparr>wrs := ws\<rparr>) cfd @ out)\<rparr>\<lparr>wrs := ws'\<rparr>))" for ws
    by (cases s) (simp add: write_all_def)
qed

lemma snprintf_out_blocks: "snprintf_out n t \<noteq> Inl Pending"
  by (simp add: snprintf_out_def Let_def)

lemma refuse_settles:
  assumes "keeps_taking w"
  shows "fw.settles w Pair (refuse cfd reason) s"
proof (rule fw.settles_pure [OF _ snprintf_out_blocks])
  show "refuse cfd reason (s\<lparr>wrs := ws\<rparr>) = cbind (snprintf_out 256 (''-ERR '' @ reason @ [NL]))
      (\<lambda>msg. cbind (write_all cfd msg (s\<lparr>wrs := ws\<rparr>)) (\<lambda>(_, s'). Inr (0, s')))" for ws
    by (auto simp: refuse_def send_error_def cbind_def split: sum.split)
  show "fw.settles w Pair (\<lambda>s. cbind (write_all cfd msg s) (\<lambda>(_, s'). Inr (0, s'))) s" for msg
    by (rule fw.settles_bind [OF write_all_settles [OF assms]]) (simp add: fw.settles_const)
qed

lemma stream_loop_settles:
  assumes "keeps_taking w"
  shows "fw.settles w Pair (stream_loop cfd cs) s"
proof (induction cs arbitrary: s)
  case Nil
  then show ?case by (simp add: fw.settles_const)
next
  case (Cons c cs)
  have "fw.settles w Pair (\<lambda>s. cbind (write_all cfd (take FILE_BUF_SIZE c) s) (\<lambda>(r, s').
      if r < 0 then Inr (-1, s') else stream_loop cfd cs s')) s"
    by (rule fw.settles_bind [OF write_all_settles [OF assms]]) (simp add: fw.settles_if fw.settles_const Cons.IH)
  then have "fw.settles w Pair (\<lambda>s. if take FILE_BUF_SIZE c = [] then Inr (0, s)
      else cbind (write_all cfd (take FILE_BUF_SIZE c) s) (\<lambda>(r, s').
        if r < 0 then Inr (-1, s') else stream_loop cfd cs s')) s"
    by (rule fw.settles_if [OF fw.settles_const])
  then show ?case by (rule fw.settles_cong) simp
qed

lemma close_file_put [simp]: "close_file (s\<lparr>wrs := ws\<rparr>) = (close_file s)\<lparr>wrs := ws\<rparr>"
  by (simp add: close_file_def)

lemma serve_stream_settles:
  assumes "keeps_taking w"
  shows "fw.settles w Pair (serve_stream v cfd p header) s"
proof -
  have "fw.settles w Pair (\<lambda>s1. cbind (stream_loop cfd (v_chunks v p) s1) (\<lambda>(r2, s2). Inr (r2, close_file s2))) s'" for s'
    by (rule fw.settles_bind [OF stream_loop_settles [OF assms]]) (simp add: fw.settles_update)
  then show ?thesis unfolding serve_stream_def
    by (intro fw.settles_bind [OF write_all_settles [OF assms]]) (simp add: fw.settles_if fw.settles_update)
qed

subsection \<open>Steps on the heap and the cache do not block\<close>

lemma heap_blocks [simp]:
  "h_free r h \<noteq> Inl Pending" "h_read r i n h \<noteq> Inl Pending" "h_write r i bs h \<noteq> Inl Pending"
  by (auto simp: h_free_def h_read_def h_write_def split: option.split)

lemma cbind_blocks: "cbind m f = Inl Pending \<longleftrightarrow> m = Inl Pending \<or> (\<exists>x. m = Inr x \<and> f x = Inl Pending)"
  by (cases m) auto

lemma cache_insert_blocks [simp]: "cache_insert k r n c h \<noteq> Inl Pending"
  by (auto simp: cache_insert_def cache_evict_def cbind_blocks split: option.splits if_splits)

lemma pread_blocks [simp]: "pread_into v p n r l h \<noteq> Inl Pending"
  by (auto simp: pread_into_def cbind_blocks split: option.splits)

lemma cache_free_loop_blocks: "cache_free_loop i n es h \<noteq> Inl Pending"
proof (induction i n es h rule: cache_free_loop.induct)
  case (1 i n es h)
  then show ?case by (subst cache_free_loop.simps) (auto simp: cbind_blocks)
qed

lemma cache_clear_blocks [simp]: "cache_clear c h \<noteq> Inl Pending"
  by (auto simp: cache_clear_def cbind_blocks cache_free_loop_blocks)

subsection \<open>Requests\<close>

lemma put_cache_settles: "fw.settles w Pair (\<lambda>s. Inr (x, s\<lparr>fcache := c, fheap := h\<rparr>)) s"
  by (rule fw.settles_update) (cases s, simp)

lemma serve_small_settles:
  assumes "keeps_taking w"
  shows "fw.settles w Pair (serve_small v cfd p header fsize) s"
proof -
  define kept where "kept r = (\<lambda>(rc::int, s3::fserver).
     if rc < 0 then cbind (h_free r (fheap s3)) (\<lambda>h4. Inr (-1::int, s3\<lparr>fheap := h4\<rparr>))
     else cbind (cache_insert p r (length header + fsize) (fcache s3) (fheap s3)) (\<lambda>(c4, h4).
       Inr (0, s3\<lparr>fcache := c4, fheap := h4\<rparr>)))" for r
  have kept: "fw.settles w Pair (\<lambda>s. kept r (rc, s)) s'" for r rc s'
  proof (cases "rc < 0")
    case True
    then show ?thesis
      by - (rule fw.settles_pure [of _ _ "h_free r (fheap s')" "\<lambda>h4 s. Inr (-1, s\<lparr>fheap := h4\<rparr>)"],
         simp_all add: kept_def fw.settles_update)
  next
    case False
    then show ?thesis
      by - (rule fw.settles_pure [of _ _ "cache_insert p r (length header + fsize) (fcache s') (fheap s')"
            "\<lambda>x s. Inr (0, s\<lparr>fcache := fst x, fheap := snd x\<rparr>)"],
         simp_all add: kept_def put_cache_settles case_prod_unfold)
  qed
  have whole: "fw.settles w Pair (\<lambda>s. cbind (write_all cfd response (close_file (s\<lparr>fheap := h2\<rparr>))) (kept r)) s" for response h2 r
  proof (rule fw.settles_bind [of _ Pair])
    show "fw.settles w Pair (\<lambda>s. write_all cfd response (close_file (s\<lparr>fheap := h2\<rparr>))) s"
      by (rule fw.settles_after [where g = "\<lambda>s. close_file (s\<lparr>fheap := h2\<rparr>)", OF write_all_settles [OF assms]])
        (cases s, simp add: close_file_def)
    show "fw.settles w Pair (\<lambda>s. kept r (x, s)) s'" for x s' by (rule kept)
  qed
  have disk: "fw.settles w Pair (\<lambda>s. cbind (h_write r 0 header h0) (\<lambda>h1.
      cbind (pread_into v p fsize r (length header) h1) (\<lambda>(nr, h2).
        if nr = int fsize then cbind (h_read r 0 (length header + fsize) h2) (\<lambda>response.
          cbind (write_all cfd response (close_file (s\<lparr>fheap := h2\<rparr>))) (kept r))
        else cbind (h_free r h2) (\<lambda>h3. serve_stream v cfd p header (s\<lparr>fheap := h3\<rparr>))))) s" for r h0
    by (intro fw.settles_step fw.settles_case_prod fw.settles_if whole
        fw.settles_after [where g = "\<lambda>s. s\<lparr>fheap := h\<rparr>" for h, OF serve_stream_settles [OF assms]]) simp_all
  show ?thesis
  proof (cases "h_malloc (v_malloc v) (length header + fsize + 1) (fheap s)")
    case None
    then show ?thesis by (intro fw.settles_cong [OF serve_stream_settles [OF assms]]) (simp add: serve_small_def)
  next
    case (Some rh)
    then show ?thesis
      by (intro fw.settles_cong [OF disk [of "fst rh" "snd rh"]])
        (simp add: serve_small_def Let_def kept_def case_prod_unfold cong: if_cong)
  qed
qed

lemma serve_miss_settles:
  assumes "keeps_taking w"
  shows "fw.settles w Pair (serve_miss v cfd p) s"
proof -
  have opened: "fw.settles w Pair (\<lambda>s. f (s\<lparr>open_files := open_files s + 1\<rparr>)) s"
    if "\<And>s. fw.settles w Pair f s" for f
    by (rule fw.settles_after [OF that]) simp
  have "fw.settles w Pair (\<lambda>s. let s1 = s\<lparr>open_files := open_files s + 1\<rparr>
      in cbind (snprintf_out 64 (''+OK '' @ dec_int (st_size st) @ [NL])) (\<lambda>header.
           if 0 \<le> st_size st \<and> nat (st_size st) \<le> MAX_CACHE_FILE_SIZE
           then serve_small v cfd p header (nat (st_size st)) s1
           else serve_stream v cfd p header s1)) s" for st
    unfolding Let_def
    by (intro fw.settles_step fw.settles_if opened snprintf_out_blocks serve_small_settles serve_stream_settles assms)
  then show ?thesis unfolding serve_miss_def [abs_def]
    by (cases "v_stat v p") (simp_all only: option.case refuse_settles [OF assms],
      intro fw.settles_if refuse_settles [OF assms], blast)
qed

lemma resolved_settles:
  assumes "keeps_taking w"
  shows "fw.settles w Pair (\<lambda>s. if \<not> in_docroot (docroot s) p then refuse cfd ''access denied'' s
      else case cache_lookup p (fcache s) of
      Some e \<Rightarrow> cbind (h_read (resp e) 0 (resp_size e) (fheap s)) (\<lambda>response.
        cbind (write_all cfd response s) (\<lambda>(rc, s1). Inr (if rc < 0 then -1 else 0, s1)))
    | None \<Rightarrow> serve_miss v cfd p s) s"
proof (cases "in_docroot (docroot s) p")
  case False
  then show ?thesis by (intro fw.settles_cong [OF refuse_settles [OF assms]]) simp
next
  case inside: True
  show ?thesis
  proof (cases "cache_lookup p (fcache s)")
    case None
    with inside show ?thesis by (intro fw.settles_cong [OF serve_miss_settles [OF assms]]) simp
  next
    case (Some e)
    have "fw.settles w Pair (\<lambda>s. cbind (write_all cfd response s) (\<lambda>(rc, s1). Inr (if rc < 0 then -1 else 0, s1))) s"
      for response
      by (rule fw.settles_bind [OF write_all_settles [OF assms]]) (simp add: fw.settles_const)
    with inside Some show ?thesis
      by - (rule fw.settles_pure [of _ _ "h_read (resp e) 0 (resp_size e) (fheap s)" "\<lambda>response s.
          cbind (write_all cfd response s) (\<lambda>(rc, s1). Inr (if rc < 0 then -1 else 0, s1))"], simp_all)
  qed
qed

lemma serve_file_settles:
  assumes "keeps_taking w"
  shows "fw.settles w Pair (serve_file env cfd filename) s"
proof -
  have ticked: "fw.settles w Pair (\<lambda>s. f (s\<lparr>clock := clock s + 1\<rparr>)) s" if "\<And>s. fw.settles w Pair f s" for f
    by (rule fw.settles_after [OF that]) simp
  define v where "v = env (clock s)"
  have branch: "fw.settles w Pair (serve_file env cfd filename) s"
    if "\<And>s. fw.settles w Pair f s" "\<And>ws. serve_file env cfd filename (s\<lparr>wrs := ws\<rparr>) = f (s\<lparr>wrs := ws, clock := clock s + 1\<rparr>)" for f
    using ticked [of f, OF that(1)] by (rule fw.settles_cong) (simp add: that(2))
  consider "filename = []" | "filename \<noteq> []" "hd filename = CHR ''/''"
    | "filename \<noteq> []" "hd filename \<noteq> CHR ''/''" "v_realpath v (candidate (docroot s) filename) = None"
    | p where "filename \<noteq> []" "hd filename \<noteq> CHR ''/''" "v_realpath v (candidate (docroot s) filename) = Some p"
    by blast
  then show ?thesis
  proof cases
    case 1
    then show ?thesis by (intro branch [OF refuse_settles [OF assms]]) (simp add: serve_file_def)
  next
    case 2
    then show ?thesis by (intro branch [OF refuse_settles [OF assms]]) (simp add: serve_file_def)
  next
    case 3
    then show ?thesis by (intro branch [OF refuse_settles [OF assms]]) (simp add: serve_file_def v_def)
  next
    case 4
    then show ?thesis by (intro branch [OF resolved_settles [OF assms, of p cfd v]]) (simp add: serve_file_def v_def Let_def split: option.split)
  qed
qed

subsection \<open>Turns\<close>

lemma process_requests_settles:
  assumes "keeps_taking w"
  shows "fw.settles w beside (process_requests env c) s"
proof (induction "buf_len c" arbitrary: c s rule: less_induct)
  case (less c s)
  show ?case
  proof (cases "memchr (buf c) NL (buf_len c)")
    case None
    then show ?thesis
      by (intro fw.settles_return [where x = "(if REQ_BUF_SIZE - 1 \<le> buf_len c then -1 else 0, c)" and s' = s])
        (subst process_requests.simps, simp add: beside_def)
  next
    case (Some q)
    define b where "b = terminate_line (buf c) q"
    define rest where "rest = c\<lparr>buf := memmove0 b (q + 1) (buf_len c - (q + 1)), buf_len := buf_len c - (q + 1)\<rparr>"
    have "buf_len rest < buf_len c" using memchr_Some(1) [OF Some] by (simp add: rest_def)
    note IH = less [OF this]
    have "fw.settles w beside (\<lambda>s. Inr (-1, c\<lparr>buf := b\<rparr>, s)) s'" for s'
      by (rule fw.settles_return [where x = "(-1, c\<lparr>buf := b\<rparr>)" and s' = s']) (simp add: beside_def)
    then have "fw.settles w beside (\<lambda>s. cbind (serve_file env (fd c) (cstr b) s) (\<lambda>(r, s').
        if r < 0 then Inr (-1, c\<lparr>buf := b\<rparr>, s') else process_requests env rest s')) s"
      using IH by (intro fw.settles_bind [OF serve_file_settles [OF assms]]) (simp add: fw.settles_if)
    then show ?thesis
      by (rule fw.settles_cong) (subst process_requests.simps, simp add: Some b_def rest_def Let_def case_prod_unfold cong: if_cong)
  qed
qed

lemma remove_client_put [simp]: "remove_client i (s\<lparr>wrs := ws\<rparr>) = (remove_client i s)\<lparr>wrs := ws\<rparr>"
  by (cases s) (simp add: remove_client_def)

lemma client_body_settles:
  assumes "keeps_taking w"
  shows "fw.settles w alone (client_body env rd ready i) s"
proof -
  define c where "c = clients s ! i"
  have gone: "fw.settles w alone (\<lambda>s. Inr (remove_client i s)) s" for s
    using fw.settles_update [of "remove_client i" s w alone] by (simp add: alone_def)
  have stay: "fw.settles w alone Inr s" using fw.settles_const [of w alone] by (simp add: alone_def)
  have stored: "fw.settles w alone (\<lambda>s. case beside x s of (r, c', s') \<Rightarrow>
      let s2 = s'\<lparr>clients := (clients s')[i := c']\<rparr> in Inr (if r < 0 then remove_client i s2 else s2)) s'" for x s'
    by (rule fw.settles_return [where x = "()" and s' =
      "let s2 = s'\<lparr>clients := (clients s')[i := snd x]\<rparr> in if fst x < 0 then remove_client i s2 else s2"])
      (cases s', simp add: alone_def beside_def remove_client_def Let_def)
  show ?thesis
  proof (cases "fd c \<in> ready")
    case False
    then show ?thesis by (intro fw.settles_cong [OF stay]) (simp add: client_body_def c_def)
  next
    case True
    show ?thesis
    proof (cases "rd (fd c)")
      case (RErr e)
      with True show ?thesis by (intro fw.settles_cong [OF gone]) (simp add: client_body_def c_def)
    next
      case (R bs)
      define d where "d = take (REQ_BUF_SIZE - 1 - buf_len c) bs"
      have get: "fw.settles w beside (\<lambda>s. process_requests env (c\<lparr>buf := blit (buf c) (buf_len c) d, buf_len := buf_len c + length d\<rparr>)
          (s\<lparr>rcvd := (rcvd s)(fd c := rcvd s (fd c) @ d)\<rparr>)) s"
        by (rule fw.settles_after [OF process_requests_settles [OF assms]]) simp
      show ?thesis
      proof (cases "d = []")
        case True
        with \<open>fd c \<in> ready\<close> R show ?thesis by (intro fw.settles_cong [OF gone]) (simp add: client_body_def c_def d_def)
      next
        case False
        with \<open>fd c \<in> ready\<close> R show ?thesis
          by (intro fw.settles_cong [OF fw.settles_bind [OF get stored]]) (simp add: client_body_def c_def d_def Let_def)
      qed
    qed
  qed
qed

lemma client_loop_settles:
  assumes "keeps_taking w"
  shows "fw.settles w alone (client_loop env rd ready i) s"
proof (induction i arbitrary: s)
  case 0
  then show ?case by (rule fw.settles_return [where x = "()" and s' = s]) (simp add: alone_def)
next
  case (Suc i)
  have "fw.settles w alone (\<lambda>s. client_loop env rd ready i (alone u s)) s'" for u s'
    using Suc.IH [of s'] by (rule fw.settles_cong) (simp add: alone_def)
  then have "fw.settles w alone (\<lambda>s. cbind (client_body env rd ready i s) (client_loop env rd ready i)) s"
    by (rule fw.settles_bind [OF client_body_settles [OF assms]])
  then show ?case by (rule fw.settles_cong) simp
qed

lemma add_client_put: "add_client conn (s\<lparr>wrs := ws\<rparr>) = (add_client conn s)\<lparr>wrs := ws\<rparr>"
  by (cases s) (simp add: add_client_def split: prod.split)

lemma fold_add_client_put: "fold add_client conns (s\<lparr>wrs := ws\<rparr>) = (fold add_client conns s)\<lparr>wrs := ws\<rparr>"
  by (induction conns arbitrary: s) (simp_all add: add_client_put)

lemma selected_settles:
  assumes "keeps_taking w"
  shows "fw.settles w Pair (\<lambda>s. case sel of
      Inl e \<Rightarrow> Inr (e = EINTR, s)
    | Inr rdy \<Rightarrow>
        let ready = rdy \<inter> insert listen_fd (set (live_fds s));
            s1 = (if listen_fd \<in> ready then fold add_client conns s else s)
        in cbind (client_loop env rd ready (num_clients s1) s1) (\<lambda>s2. Inr (True, s2))) s"
proof (cases sel)
  case (Inl e)
  then show ?thesis by (simp add: fw.settles_const)
next
  case (Inr rdy)
  define ready where "ready = rdy \<inter> insert listen_fd (set (live_fds s))"
  define s1 where "s1 = (if listen_fd \<in> ready then fold add_client conns s else s)"
  have live: "live_fds (s\<lparr>wrs := ws\<rparr>) = live_fds s" for ws by (simp add: live_fds_def)
  have "fw.settles w Pair (\<lambda>s. cbind (client_loop env rd ready (num_clients s1) s) (\<lambda>s2. Inr (True, s2))) s1"
    by (rule fw.settles_bind [OF client_loop_settles [OF assms]]) (simp add: alone_def fw.settles_const)
  then show ?thesis
    by (rule fw.settles_cong) (simp add: Inr Let_def live ready_def s1_def fold_add_client_put)
qed

lemma event_turn_settles:
  assumes "keeps_taking w"
  shows "fw.settles w Pair (event_turn env le listen_fd) s"
proof -
  have "fw.settles w alone (\<lambda>s0. if cache_clear_requested s0
      then cbind (cache_clear (fcache s0) (fheap s0)) (\<lambda>(c, h).
             Inr (s0\<lparr>cache_clear_requested := False, fcache := c, fheap := h\<rparr>))
      else Inr s0) s"
  proof (cases "cache_clear_requested s")
    case False
    then show ?thesis by (intro fw.settles_return [where x = "()" and s' = s]) (simp add: alone_def)
  next
    case True
    have "fw.settles w alone (\<lambda>s. Inr (s\<lparr>cache_clear_requested := False, fcache := c, fheap := h\<rparr>)) s" for c h
      by (rule fw.settles_return [where x = "()" and s' = "s\<lparr>cache_clear_requested := False, fcache := c, fheap := h\<rparr>"])
        (cases s, simp add: alone_def)
    then show ?thesis
      by - (rule fw.settles_pure [of _ _ "cache_clear (fcache s) (fheap s)"
          "\<lambda>x s. Inr (s\<lparr>cache_clear_requested := False, fcache := fst x, fheap := snd x\<rparr>)"],
        simp_all add: True case_prod_unfold)
  qed
  then have "fw.settles w Pair (\<lambda>s. event_turn env le listen_fd s) s" unfolding event_turn_def
    by (rule fw.settles_bind) (simp only: alone_def selected_settles [OF assms])
  then show ?thesis .
qed

end
