(* ===== verification/FileServerSpec.thy ===== *)
theory FileServerSpec
  imports FileLoop FileReturns "HOL-Library.Sublist"
begin

section \<open>What the file server promises\<close>

text \<open>
  The contract of \<^verbatim>\<open>file-server.c\<close> seen from a client: which bytes answer which request. The
  specification \<open>answer\<close> knows no cache, no buffers and no partial writes, only a file system;
  the server is shown to send exactly the concatenation of the answers, for every way the requests
  were cut into segments and every way the kernel takes the bytes, as long as no write fails.
  The rest of the theory states the properties of the cache, the request handler and the event loop.
\<close>

subsection \<open>A file system at rest\<close>

datatype node = File bytes | NotRegular | Unreadable | Gone

text \<open>A view that shows the file system \<open>fs\<close>, with path resolution \<open>rp\<close>.\<close>

definition shows_fs :: "(string \<Rightarrow> string option) \<Rightarrow> (string \<Rightarrow> node) \<Rightarrow> reqview \<Rightarrow> bool" where
  "shows_fs rp fs v \<longleftrightarrow>
     v_realpath v = rp \<and>
     (\<forall>p. case fs p of
        File d \<Rightarrow> v_stat v p = Some \<lparr>st_reg = True, st_size = int (length d)\<rparr> \<and> v_open v p \<and>
                  v_pread v p = Some d \<and> streamed v p = d
      | NotRegular \<Rightarrow> (\<exists>st. v_stat v p = Some st \<and> \<not> st_reg st)
      | Unreadable \<Rightarrow> (\<exists>st. v_stat v p = Some st \<and> st_reg st) \<and> \<not> v_open v p
      | Gone \<Rightarrow> v_stat v p = None)"

text \<open>
  What it means for a resolved path to lie in the document root, without a look at the code: it is the
  root or continues it behind a slash.
\<close>

definition beneath :: "string \<Rightarrow> string \<Rightarrow> bool" where
  "beneath root p \<longleftrightarrow> p = root \<or> prefix (root @ ''/'') p"

lemma beneath_iff: "beneath root p \<longleftrightarrow> in_docroot root p"
proof -
  have "p = root @ drop (length root) p" if "in_docroot root p"
    using that unfolding in_docroot_def by (metis append_take_drop_id)
  then show ?thesis
    by (cases "drop (length root) p") (auto simp: beneath_def in_docroot_def prefix_def)
qed

text \<open>The answer to one request.\<close>

definition answer :: "(string \<Rightarrow> string option) \<Rightarrow> (string \<Rightarrow> node) \<Rightarrow> string \<Rightarrow> string \<Rightarrow> bytes" where
  "answer rp fs root filename =
     (if filename = [] then err_reply ''empty filename''
      else if hd filename = CHR ''/'' then err_reply ''absolute paths not allowed''
      else case rp (candidate root filename) of
        None \<Rightarrow> err_reply ''not found''
      | Some p \<Rightarrow>
          if \<not> beneath root p then err_reply ''access denied''
          else (case fs p of
            File d \<Rightarrow> ok_header (int (length d)) @ d
          | NotRegular \<Rightarrow> err_reply ''not a regular file''
          | Unreadable \<Rightarrow> err_reply ''open failed''
          | Gone \<Rightarrow> err_reply ''stat failed''))"

text \<open>Every cached response is the answer its file would get from the disk.\<close>

definition coherent :: "(string \<Rightarrow> node) \<Rightarrow> (string \<times> bytes) list \<Rightarrow> bool" where
  "coherent fs es \<longleftrightarrow> (\<forall>(p, r)\<in>set es. \<exists>d. fs p = File d \<and> r = ok_header (int (length d)) @ d)"

lemma shows_fs_node:
  assumes "shows_fs rp fs v"
  shows "case fs p of
      File d \<Rightarrow> v_stat v p = Some \<lparr>st_reg = True, st_size = int (length d)\<rparr> \<and> v_open v p \<and>
                v_pread v p = Some d \<and> streamed v p = d
    | NotRegular \<Rightarrow> (\<exists>st. v_stat v p = Some st \<and> \<not> st_reg st)
    | Unreadable \<Rightarrow> (\<exists>st. v_stat v p = Some st \<and> st_reg st) \<and> \<not> v_open v p
    | Gone \<Rightarrow> v_stat v p = None"
  using assms by (simp add: shows_fs_def)

lemma shows_fs_disk_reply:
  assumes v: "shows_fs rp fs v" and d: "disk_reply v p reply"
  shows "\<exists>d. fs p = File d \<and> reply = ok_header (int (length d)) @ d"
proof -
  from d obtain st where st: "v_stat v p = Some st" "st_reg st" "v_open v p" by (auto simp: disk_reply_def)
  with shows_fs_node [OF v, of p] obtain d where f: "fs p = File d" "st_size st = int (length d)" "v_pread v p = Some d"
    "streamed v p = d" by (cases "fs p") auto
  from d st f have "reply = ok_header (int (length d)) @ d" by (auto simp: disk_reply_def)
  with f show ?thesis by blast
qed

text \<open>The reply to a path inside the document root, from the cache or from the disk.\<close>

definition node_reply :: "node \<Rightarrow> bytes" where
  "node_reply x = (case x of
     File d \<Rightarrow> ok_header (int (length d)) @ d
   | NotRegular \<Rightarrow> err_reply ''not a regular file''
   | Unreadable \<Rightarrow> err_reply ''open failed''
   | Gone \<Rightarrow> err_reply ''stat failed'')"

lemma inside_reply:
  assumes v: "shows_fs rp fs v" and es: "coherent fs es"
    and r: "case map_of es p of Some x \<Rightarrow> reply = x
      | None \<Rightarrow> (case v_stat v p of None \<Rightarrow> reply = err_reply ''stat failed''
          | Some st \<Rightarrow> if \<not> st_reg st then reply = err_reply ''not a regular file''
              else if \<not> v_open v p then reply = err_reply ''open failed'' else disk_reply v p reply)"
  shows "reply = node_reply (fs p)"
proof (cases "map_of es p")
  case (Some x)
  then have "\<exists>d. fs p = File d \<and> x = ok_header (int (length d)) @ d"
    using es by (auto simp: coherent_def dest: map_of_SomeD)
  with Some r show ?thesis by (auto simp: node_reply_def)
next
  case None
  note node = shows_fs_node [OF v, of p]
  show ?thesis
  proof (cases "fs p")
    case (File d)
    with node r None have "disk_reply v p reply" by simp
    with shows_fs_disk_reply [OF v] File show ?thesis by (fastforce simp: node_reply_def)
  qed (use node r None in \<open>auto simp: node_reply_def\<close>)
qed

lemma reply_ok_answer:
  assumes v: "shows_fs rp fs v" and es: "coherent fs es" and r: "reply_ok v root es filename reply"
  shows "reply = answer rp fs root filename"
proof (cases "\<exists>p. filename \<noteq> [] \<and> hd filename \<noteq> CHR ''/'' \<and> rp (candidate root filename) = Some p \<and> in_docroot root p")
  case True
  then obtain p where p: "filename \<noteq> []" "hd filename \<noteq> CHR ''/''" "rp (candidate root filename) = Some p" "in_docroot root p"
    by blast
  with r v have "reply = node_reply (fs p)"
    by (intro inside_reply [OF v es]) (simp add: reply_ok_def shows_fs_def)
  with p show ?thesis by (simp add: answer_def node_reply_def beneath_iff)
next
  case False
  have "v_realpath v = rp" using v by (simp add: shows_fs_def)
  with False r show ?thesis by (auto simp: reply_ok_def answer_def beneath_iff split: option.splits if_splits)
qed

lemma coherent_insert:
  "coherent fs es \<Longrightarrow> fs p = File d \<Longrightarrow> r = ok_header (int (length d)) @ d \<Longrightarrow>
     coherent fs (fifo_insert m p r es)"
  using fifo_insert_set [of m p r es] by (fastforce simp: coherent_def)

text \<open>One request and then a list of requests against the specification.\<close>

lemma serve_file_answer:
  assumes "mem_inv s" "coherent fs (centries s)" "no_error (wrs s)"
    and v: "view_ok (env (clock s))" "shows_fs rp fs (env (clock s))"
    and run: "serve_file env cfd filename s = Inr (r, s')"
  shows "r = 0 \<and> sent s' = (sent s)(cfd := sent s cfd @ answer rp fs (docroot s) filename) \<and>
    no_error (wrs s') \<and> coherent fs (centries s')"
proof -
  let ?v = "env (clock s)"
  let ?good = "reply_ok ?v (docroot s) (centries s) filename"
  have dn: "request_done ?v cfd ?good r s s'"
    using serve_file_ok [where env = env, OF assms(1) v(1), of cfd filename] run by simp
  from request_done_frame(11) [OF dn] assms(3) obtain reply where
    "?good reply" "sent s' = (sent s)(cfd := sent s cfd @ reply)" "r = 0" "no_error (wrs s')" by auto
  moreover have "reply = answer rp fs (docroot s) filename"
    by (rule reply_ok_answer [OF v(2) assms(2) \<open>?good reply\<close>])
  moreover have "coherent fs (centries s')"
  proof -
    from dn obtain p rep where "centries s' = centries s \<or> disk_reply ?v p rep \<and>
        centries s' = fifo_insert MAX_CACHE_ENTRIES p rep (centries s)"
      unfolding request_done_def by blast
    then show ?thesis using assms(2) shows_fs_disk_reply [OF v(2)] coherent_insert by metis
  qed
  ultimately show ?thesis by simp
qed

lemma serve_lines_answers:
  assumes "mem_inv s" "coherent fs (centries s)" "no_error (wrs s)"
    and "\<forall>t. view_ok (env t) \<and> shows_fs rp fs (env t)"
    and "serve_lines env cfd ls s = Inr (r, s')"
  shows "r = 0 \<and> sent s' = (sent s)(cfd := sent s cfd @ concat (map (answer rp fs (docroot s)) ls)) \<and>
    coherent fs (centries s') \<and> mem_inv s' \<and> no_error (wrs s')"
  using assms
proof (induction ls arbitrary: s)
  case (Cons l ls)
  from Cons.prems(5) obtain r1 s1 where one: "serve_file env cfd l s = Inr (r1, s1)"
    and rest: "(if r1 < 0 then Inr (-1, s1) else serve_lines env cfd ls s1) = Inr (r, s')"
    by (auto simp: cbind_Inr_conv)
  have f: "mem_inv s1" "docroot s1 = docroot s"
    using serve_file_frame [OF Cons.prems(1), of env cfd l] Cons.prems(4) one
    by (auto simp: serve_frame_def)
  have a: "r1 = 0" "sent s1 = (sent s)(cfd := sent s cfd @ answer rp fs (docroot s) l)"
    "no_error (wrs s1)" "coherent fs (centries s1)"
    using serve_file_answer [OF Cons.prems(1-3) _ _ one] Cons.prems(4) by auto
  from rest a(1) have "serve_lines env cfd ls s1 = Inr (r, s')" by simp
  from Cons.IH [OF f(1) a(4,3) Cons.prems(4) this]
  have "r = 0 \<and> sent s' = (sent s1)(cfd := sent s1 cfd @ concat (map (answer rp fs (docroot s1)) ls)) \<and>
    coherent fs (centries s') \<and> mem_inv s' \<and> no_error (wrs s')" .
  then show ?case using f(2) a(2) by simp
qed simp

text \<open>One call of \<^verbatim>\<open>process_requests\<close> sends exactly the answers to the complete lines of the buffer.\<close>

lemma process_requests_answers:
  assumes "mem_inv s" "coherent fs (centries s)" "no_error (wrs s)"
    and "\<forall>t. view_ok (env t) \<and> shows_fs rp fs (env t)"
    and "buf_len c \<le> length (buf c)" "process_requests env c s = Inr (r, c', s')"
  shows "sent s' = (sent s)(fd c := sent s (fd c) @
      concat (map (\<lambda>l. answer rp fs (docroot s) (request_of l)) (complete_lines (pending c)))) \<and>
    pending c' = unfinished (pending c) \<and> coherent fs (centries s') \<and> no_error (wrs s')"
proof -
  let ?ls = "map request_of (complete_lines (pending c))"
  from process_requests_serve_lines [OF assms(5,6)] obtain r0 where
    run: "serve_lines env (fd c) ?ls s = Inr (r0, s')"
    and rest: "if r0 < 0 then r = -1 else pending c' = unfinished (pending c) \<and>
      buf_len c' \<le> length (buf c') \<and>
      r = (if REQ_BUF_SIZE - 1 \<le> length (unfinished (pending c)) then -1 else 0)" by blast
  from serve_lines_answers [OF assms(1-4) run] rest show ?thesis by (simp add: comp_def)
qed

subsection \<open>Confinement to the document root\<close>

lemma in_docroot_iff: "in_docroot root p \<longleftrightarrow> p = root \<or> (\<exists>q. p = root @ CHR ''/'' # q)"
  by (auto simp: beneath_iff [symmetric] beneath_def prefix_def)








subsection \<open>Decoding replies\<close>

text \<open>
  A client that reads the protocol of the header comment: an error line, or a size and then that
  many bytes. The digits are read as the client tests do, most significant first.
\<close>

datatype reply = OkReply bytes | ErrReply string

definition parse_dec :: "string \<Rightarrow> nat" where
  "parse_dec ds = foldl (\<lambda>n c. 10 * n + (of_char c - 48)) 0 ds"

definition decode_reply :: "bytes \<Rightarrow> (reply \<times> bytes) option" where
  "decode_reply b =
     (let l = takeWhile (\<lambda>c. c \<noteq> NL) b; rest = drop (length l + 1) b
      in if length l = length b then None
         else if take 4 l = ''+OK '' then
           let n = parse_dec (drop 4 l)
           in if n \<le> length rest then Some (OkReply (take n rest), drop n rest) else None
         else if take 5 l = ''-ERR '' then Some (ErrReply (drop 5 l), rest)
         else None)"

lemma of_char_digit: "d < 10 \<Longrightarrow> of_char (digit d) = 48 + d"
  by (simp add: digit_def)

lemma parse_dec_nat: "parse_dec (dec_nat n) = n"
proof (induction n rule: dec_nat.induct)
  case (1 n)
  show ?case
  proof (cases "n < 10")
    case True
    then show ?thesis by (simp add: dec_nat.simps [of n] parse_dec_def of_char_digit)
  next
    case False
    then have "parse_dec (dec_nat n) = 10 * parse_dec (dec_nat (n div 10)) + n mod 10"
      by (simp add: dec_nat.simps [of n] parse_dec_def of_char_digit)
    with "1.IH" [OF False] show ?thesis by simp
  qed
qed

lemma dec_nat_no_NL: "NL \<notin> set (dec_nat n)"
proof
  assume "NL \<in> set (dec_nat n)"
  then obtain d where "d < 10" "NL = digit d" using dec_nat_digits by blast
  then have "of_char NL = 48 + d" using of_char_digit by metis
  then show False by simp
qed

lemma takeWhile_line: "NL \<notin> set l \<Longrightarrow> takeWhile (\<lambda>c. c \<noteq> NL) (l @ NL # r) = l"
  by (induction l) auto

lemma decode_ok: "decode_reply (ok_header (int (length d)) @ d @ rest) = Some (OkReply d, rest)"
proof -
  let ?l = "''+OK '' @ dec_nat (length d)"
  have b: "ok_header (int (length d)) @ d @ rest = ?l @ NL # d @ rest"
    by (simp add: ok_header_def dec_int_def)
  have "takeWhile (\<lambda>c. c \<noteq> NL) (?l @ NL # d @ rest) = ?l"
    by (rule takeWhile_line) (use dec_nat_no_NL in simp)
  then show ?thesis unfolding b decode_reply_def
    by (simp add: parse_dec_nat)
qed

lemma decode_err:
  assumes "NL \<notin> set reason"
  shows "decode_reply (err_reply reason @ rest) = Some (ErrReply reason, rest)"
proof -
  let ?l = "''-ERR '' @ reason"
  have b: "err_reply reason @ rest = ?l @ NL # rest" by (simp add: err_reply_def)
  have "takeWhile (\<lambda>c. c \<noteq> NL) (?l @ NL # rest) = ?l"
    by (rule takeWhile_line) (use assms in simp)
  then show ?thesis unfolding b decode_reply_def by simp
qed

fun decode_replies :: "nat \<Rightarrow> bytes \<Rightarrow> reply list option" where
  "decode_replies 0 b = (if b = [] then Some [] else None)"
| "decode_replies (Suc n) b =
     (case decode_reply b of None \<Rightarrow> None
      | Some (r, rest) \<Rightarrow> map_option (Cons r) (decode_replies n rest))"

text \<open>The reply a request should be decoded to.\<close>

definition answer_reply :: "(string \<Rightarrow> string option) \<Rightarrow> (string \<Rightarrow> node) \<Rightarrow> string \<Rightarrow> string \<Rightarrow> reply" where
  "answer_reply rp fs root filename =
     (if filename = [] then ErrReply ''empty filename''
      else if hd filename = CHR ''/'' then ErrReply ''absolute paths not allowed''
      else case rp (candidate root filename) of
        None \<Rightarrow> ErrReply ''not found''
      | Some p \<Rightarrow>
          if \<not> beneath root p then ErrReply ''access denied''
          else (case fs p of
            File d \<Rightarrow> OkReply d
          | NotRegular \<Rightarrow> ErrReply ''not a regular file''
          | Unreadable \<Rightarrow> ErrReply ''open failed''
          | Gone \<Rightarrow> ErrReply ''stat failed''))"

lemma decode_answer:
  "decode_reply (answer rp fs root l @ rest) = Some (answer_reply rp fs root l, rest)"
  by (auto simp: answer_def answer_reply_def decode_ok decode_err split: option.split node.split)

lemma decode_answers:
  "decode_replies (length ls) (concat (map (answer rp fs root) ls)) =
     Some (map (answer_reply rp fs root) ls)"
  by (induction ls) (simp_all add: decode_answer)

subsection \<open>Executions of the server\<close>

text \<open>A step of the event loop in which the library behaves as documented.\<close>

definition server_step :: "int \<Rightarrow> bool \<times> fserver \<Rightarrow> bool \<times> fserver \<Rightarrow> bool" where
  "server_step listen_fd b b' \<longleftrightarrow>
     (\<exists>env. (\<forall>t. view_ok (env t)) \<and> event_step (\<lambda>_. True) env listen_fd b b')"

interpretation fsrv: invariant_system "server_step listen_fd" "(True, server_init root)"
  "\<lambda>bs. server_inv (snd bs) \<and> docroot (snd bs) = root" for listen_fd root
proof unfold_locales
  show "server_inv (snd (True, server_init root)) \<and> docroot (snd (True, server_init root)) = root"
    using server_init_inv by (simp add: server_init_def)
  show "server_inv (snd t) \<and> docroot (snd t) = root"
    if "server_inv (snd s) \<and> docroot (snd s) = root" "server_step listen_fd s t" for s t
    using that event_step_inv [of _ _ listen_fd s t root] by (auto simp: server_step_def)
qed

text \<open>A start that succeeds enters the loop in the initial state.\<close>

lemma server_main_Started:
  assumes "server_main e rp argv = Inr (Started (listen_fd, s0))"
  obtains root where "s0 = server_init root"
proof (cases "main_start rp argv")
  case (Some s)
  with assms obtain x where
    "(case create_listen_socket e x of Exit n \<Rightarrow> Exit n | Started l \<Rightarrow> Started (l, s)) = Started (listen_fd, s0)"
    unfolding server_main_def cbind_Inr_conv by fastforce
  then have "s0 = s" by (cases "create_listen_socket e x") simp_all
  then show ?thesis using Some that by (auto simp: main_start_def)
qed (use assms in \<open>auto simp: server_main_def cbind_Inr_conv\<close>)

subsection \<open>A small file system for the examples\<close>

definition demo_malloc :: malloc_choice where
  "demo_malloc h = Some (1, \<lambda>_. NUL)"

definition demo_view :: reqview where
  "demo_view = \<lparr>v_realpath = (\<lambda>p. if p = ''/r/a'' then Some ''/r/a'' else None),
     v_stat = (\<lambda>p. if p = ''/r/a'' then Some \<lparr>st_reg = True, st_size = 2\<rparr> else None),
     v_open = (\<lambda>p. p = ''/r/a''), v_malloc = demo_malloc,
     v_pread = (\<lambda>p. if p = ''/r/a'' then Some ''hi'' else None),
     v_chunks = (\<lambda>p. if p = ''/r/a'' then [''hi''] else [])\<rparr>"

definition demo_fs :: "string \<Rightarrow> node" where
  "demo_fs p = (if p = ''/r/a'' then File ''hi'' else Gone)"

definition demo_state :: fserver where
  "demo_state = (server_init ''/r'')\<lparr>wrs := [WErr EINTR, W 3, W 100, W 100]\<rparr>"

definition demo_client :: Client where
  "demo_client = \<lparr>fd = 5, ip = ''::1'', port = 9, buf = ''a'' @ [CR, NL] @ ''b'', buf_len = 4\<rparr>"

lemma demo_view_ok: "view_ok demo_view" "shows_fs (v_realpath demo_view) demo_fs demo_view"
  by (auto simp: demo_view_def view_ok_def shows_fs_def demo_fs_def streamed_def PATH_MAX_def
      FILE_BUF_SIZE_def)

lemma demo_start:
  "server_main (demo_listen 8082) (\<lambda>p. if p = ''./docroot'' then Some ''/r'' else None) [''file-server''] =
     Inr (Started (3, server_init ''/r''))"
  by (simp add: server_main_def main_start_def create_listen_socket_def demo_listen_def)


text \<open>A turn that accepts one connection, on descriptor 7.\<close>

definition demo_accept :: loop_env where
  "demo_accept = \<lparr>e_select = Inr {3}, e_accept = [(7, ''::1'', 9)], e_read = (\<lambda>_. R [])\<rparr>"

definition demo_accepted :: fserver where
  "demo_accepted = add_client (7, ''::1'', 9) (server_init ''/r'')"

lemma demo_accepted_reachable:
  "reachable (server_step 3) (True, server_init ''/r'') (True, demo_accepted)" "live_fds demo_accepted = [7]"
proof -
  have i: "(server_init ''/r'')\<lparr>wrs := []\<rparr> = server_init ''/r''" by (simp add: server_init_def)
  have s: "cache_clear_requested (server_init ''/r'') = False" "num_clients demo_accepted = 1" "running (server_init ''/r'')"
    "clients demo_accepted ! 0 = client0\<lparr>fd := 7, port := 9, ip := ''::1''\<rparr>" "live_fds (server_init ''/r'') = []"
    by (simp_all add: demo_accepted_def add_client_def server_init_def MAX_CLIENTS_def live_fds_def client0_def)
  show "live_fds demo_accepted = [7]"
    by (simp add: demo_accepted_def add_client_def server_init_def MAX_CLIENTS_def live_fds_def take_Suc_conv_app_nth)
  have "client_body env rd {3} 0 demo_accepted = Inr demo_accepted" for env rd
    by (simp add: client_body_def s)
  then have "event_turn (\<lambda>_. demo_view) demo_accept 3 ((server_init ''/r'')\<lparr>wrs := []\<rparr>) = Inr (True, demo_accepted)"
    unfolding i by (simp add: event_turn_def demo_accept_def s Let_def demo_accepted_def [symmetric])
  moreover have "accept_ok 3 demo_accept (server_init ''/r'')"
    by (simp add: accept_ok_def demo_accept_def server_init_def)
  ultimately have "event_step (\<lambda>_. True) (\<lambda>_. demo_view) 3 (True, server_init ''/r'') (True, demo_accepted)"
    using s(3) by (intro event_step.turn) simp_all
  then have "server_step 3 (True, server_init ''/r'') (True, demo_accepted)"
    unfolding server_step_def using demo_view_ok(1) by (intro exI [of _ "\<lambda>_. demo_view"]) simp
  then show "reachable (server_step 3) (True, server_init ''/r'') (True, demo_accepted)"
    by (rule reachable.step [OF reachable.start])
qed

subsection \<open>Properties\<close>

text \<open>C2: In every state the event loop reaches, whatever clients, kernel and signals do, the cache
  and the heap agree (no block is leaked, none is freed twice), no file is left open, at most 64
  connections are held, their descriptors are distinct and are exactly the open sockets, and every
  request buffer has room for the next read.\<close>

theorem server_reachable_inv:
  assumes "server_main e realpath argv = Inr (Started (listen_fd, s0))"
    and "reachable (server_step listen_fd) (True, s0) (b, s)"
  shows "server_inv s"
  by (rule server_main_Started [OF assms(1)]) (use fsrv.reachable_inv assms(2) in fastforce)

theorem server_reachable_inv_witness:
  "server_inv demo_accepted \<and> live_fds demo_accepted = [7]"
  using server_reachable_inv [OF demo_start demo_accepted_reachable(1)] demo_accepted_reachable(2) by blast

text \<open>C3: From every reachable state a turn of the event loop does nothing undefined: no
  out-of-bounds access, no use of a freed block, no double free, for every answer of the kernel and
  of the allocator. The only way not to finish the turn is a write that stays blocked: as long as
  the kernel takes a byte again and again, whatever it answers in between, the turn returns.\<close>

theorem server_turn_safe:
  assumes "server_main e realpath argv = Inr (Started (listen_fd, s0))"
    and "reachable (server_step listen_fd) (True, s0) (b, s)"
    and "accept_ok listen_fd le s" "\<forall>t. view_ok (env t)"
  shows "okres (\<lambda>(go, s'). server_inv s') (event_turn env le listen_fd (s\<lparr>wrs := ws\<rparr>)) \<and>
    (keeps_taking w \<longrightarrow> (\<exists>n. \<forall>m\<ge>n. \<exists>go s'.
      event_turn env le listen_fd (s\<lparr>wrs := answers w 0 m\<rparr>) = Inr (go, s') \<and> server_inv s'))"
proof -
  have "server_inv s" by (rule server_main_Started [OF assms(1)]) (use fsrv.reachable_inv assms(2) in fastforce)
  then have inv: "server_inv (s\<lparr>wrs := ws\<rparr>)" for ws
    by (auto simp: server_inv_def table_inv_def live_fds_def mem_inv_def)
  moreover have "accept_ok listen_fd le (s\<lparr>wrs := ws\<rparr>)" for ws using assms(3) by (simp add: accept_ok_def)
  ultimately have safe: "okres (\<lambda>(go, s'). server_inv s') (event_turn env le listen_fd (s\<lparr>wrs := ws\<rparr>))" for ws
    by (rule okres_mono [OF event_turn_ok [OF _ assms(4)]]) auto
  moreover have "\<exists>n. \<forall>m\<ge>n. \<exists>go s'.
      event_turn env le listen_fd (s\<lparr>wrs := answers w 0 m\<rparr>) = Inr (go, s') \<and> server_inv s'" if "keeps_taking w"
    using fw.settles_returns [OF event_turn_settles [OF that] safe] by fastforce
  ultimately show ?thesis by blast
qed

theorem server_turn_safe_witness:
  "okres (\<lambda>(go, s'). server_inv s') (event_turn (\<lambda>_. demo_view)
     \<lparr>e_select = Inr {3}, e_accept = [(7, ''::1'', 9)], e_read = (\<lambda>_. R [])\<rparr> 3
     ((server_init ''/r'')\<lparr>wrs := []\<rparr>)) \<and>
   (\<exists>n. \<forall>m\<ge>n. \<exists>go s'. event_turn (\<lambda>_. demo_view)
     \<lparr>e_select = Inr {3}, e_accept = [(7, ''::1'', 9)], e_read = (\<lambda>_. R [])\<rparr> 3
     ((server_init ''/r'')\<lparr>wrs := answers (\<lambda>i. if even i then WErr EINTR else W 1) 0 m\<rparr>) = Inr (go, s') \<and>
     server_inv s')"
proof -
  have "keeps_taking (\<lambda>i. if even i then WErr EINTR else W 1)"
    unfolding keeps_taking_def by (metis One_nat_def even_Suc le_SucI order_refl)
  moreover have "accept_ok 3 \<lparr>e_select = Inr {3}, e_accept = [(7, ''::1'', 9)], e_read = (\<lambda>_. R [])\<rparr> (server_init ''/r'')"
    by (simp add: accept_ok_def server_init_def)
  moreover have "\<forall>t::nat. view_ok ((\<lambda>_. demo_view) t)" using demo_view_ok(1) by simp
  ultimately show ?thesis
    using server_turn_safe [OF demo_start reachable.start, of _ "\<lambda>_. demo_view" "[]" "\<lambda>i. if even i then WErr EINTR else W 1"]
    by blast
qed



text \<open>The prefix test accepts a resolved path exactly when it is the root or continues it with a
  slash: a sibling such as \<^verbatim>\<open>/srv/docroot-evil\<close> does not pass for \<^verbatim>\<open>/srv/docroot\<close>.\<close>

theorem in_docroot_exact: "in_docroot root p \<longleftrightarrow> p = root \<or> (\<exists>q. p = root @ ''/'' @ q)"
  by (simp add: in_docroot_iff)

text \<open>A server started on the root directory refuses every file: with \<^verbatim>\<open>docroot\<close> equal to a
  single slash the byte after the prefix is the first byte of the name, never a slash, so each
  resolvable request gets the access-denied reply.\<close>

theorem docroot_slash_refuses:
  assumes "docroot s = ''/''" "filename \<noteq> []" "hd filename \<noteq> CHR ''/''"
    and "v_realpath (env (clock s)) (candidate (docroot s) filename) = Some (CHR ''/'' # c # q)"
    and "c \<noteq> CHR ''/''"
  shows "serve_file env cfd filename s = refuse cfd ''access denied'' (s\<lparr>clock := clock s + 1\<rparr>)"
  using assms by (simp add: serve_file_def Let_def in_docroot_def)

theorem docroot_slash_refuses_witness:
  "serve_file (\<lambda>_. demo_view\<lparr>v_realpath := (\<lambda>p. if p = ''//a'' then Some ''/a'' else None)\<rparr>) 5 ''a''
     (server_init ''/'') =
   refuse 5 ''access denied'' ((server_init ''/'')\<lparr>clock := clock (server_init ''/'') + 1\<rparr>)"
  by (rule docroot_slash_refuses [of _ _ _ "CHR ''a''" "[]"])
    (simp_all add: server_init_def candidate_def PATH_MAX_def)

text \<open>C9: With a port argument that is an \<^verbatim>\<open>int\<close>, the program ends with status 1 before it serves anyone if its
  root cannot be resolved, or no socket can be opened, bound to that port (modulo 65536) or listened on,
  and in no other case. Otherwise it serves the resolved root on that socket, and in
  whatever state the loop ends, \<^verbatim>\<open>main\<close> closes every connection and then the listening socket and frees every
  cached response: no block, no connection and no file is left.\<close>

theorem server_exit_clean:
  assumes "(if 2 \<le> length argv then atoi (argv ! 1) else Inr 8082) = Inr port_num"
    and "root = realpath (if 3 \<le> length argv then argv ! 2 else ''./docroot'')"
  shows "if root = None \<or> l_socket e < 0 \<or> \<not> l_bind e (nat (port_num mod 65536)) \<or> \<not> l_listen e
    then server_main e realpath argv = Inr (Exit 1)
    else server_main e realpath argv = Inr (Started (l_socket e, server_init (the root))) \<and>
      (\<forall>b s. reachable (server_step (l_socket e)) (True, server_init (the root)) (b, s) \<longrightarrow>
        (\<exists>s'. main_finish (l_socket e) s = Inr (live_fds s @ [l_socket e], s') \<and> socks s = set (live_fds s) \<and>
          fheap s' = Map.empty \<and> socks s' = {} \<and> open_files s' = 0))"
proof -
  have "\<exists>s'. main_finish l s = Inr (live_fds s @ [l], s') \<and> socks s = set (live_fds s) \<and>
      fheap s' = Map.empty \<and> socks s' = {} \<and> open_files s' = 0"
    if "reachable (server_step l) (True, server_init r) (b, s)" for l r b s
  proof -
    have inv: "server_inv s" using fsrv.reachable_inv that by fastforce
    then have c: "cache_inv (fcache s) (fheap s)" "dom (fheap s) = cache_owned (fcache s)"
      by (auto simp: server_inv_def mem_inv_def)
    from cache_clear_ok [OF c(1)] obtain c' h' where *: "cache_clear (fcache s) (fheap s) = Inr (c', h')"
      "owner_step (cache_owned (fcache s)) {} (fheap s) h'" by blast
    from owner_step_dom [OF *(2) c(2)] have "h' = Map.empty" by simp
    with * inv show ?thesis by (auto simp: main_finish_def server_inv_def table_inv_def)
  qed
  moreover have "server_main e realpath argv = Inr (case root of None \<Rightarrow> Exit 1 | Some r \<Rightarrow>
      (case create_listen_socket e port_num of Exit n \<Rightarrow> Exit n | Started l \<Rightarrow> Started (l, server_init r)))"
    unfolding server_main_def assms(1) main_start_def assms(2) [symmetric] by (cases root) simp_all
  ultimately show ?thesis by (cases root) (simp_all add: create_listen_socket_def)
qed

theorem server_exit_clean_witness:
  "\<exists>s'. reachable (server_step 3) (True, server_init ''/r'') (True, demo_accepted) \<and> socks demo_accepted = {7} \<and>
     main_finish 3 demo_accepted = Inr ([7, 3], s') \<and> fheap s' = Map.empty \<and> socks s' = {} \<and> open_files s' = 0"
proof -
  let ?rp = "\<lambda>p. if p = ''./docroot'' then Some ''/r'' else None"
  have l: "l_socket (demo_listen 8082) = 3" "l_bind (demo_listen 8082) 8082" "l_listen (demo_listen 8082)"
    by (simp_all add: demo_listen_def)
  from server_exit_clean [of "[''file-server'']" 8082 "Some ''/r''" ?rp "demo_listen 8082"] l
  have "\<forall>b s. reachable (server_step 3) (True, server_init ''/r'') (b, s) \<longrightarrow>
      (\<exists>s'. main_finish 3 s = Inr (live_fds s @ [3], s') \<and> socks s = set (live_fds s) \<and>
        fheap s' = Map.empty \<and> socks s' = {} \<and> open_files s' = 0)" by simp
  from this [rule_format, OF demo_accepted_reachable(1)] obtain s' where
    "main_finish 3 demo_accepted = Inr ([7, 3], s')" "socks demo_accepted = {7}" "fheap s' = Map.empty" "socks s' = {}"
    "open_files s' = 0" by (auto simp: demo_accepted_reachable(2))
  with demo_accepted_reachable(1) show ?thesis by blast
qed

text \<open>The buffer arithmetic of \<^verbatim>\<open>process_requests\<close> implements line framing: it answers the
  complete lines of the buffer one after the other, each without its carriage return and cut at a
  zero byte, stops at the first reply that cannot be written, keeps the unfinished rest at the front
  of the buffer, and gives the connection up exactly when that rest fills the buffer.\<close>

theorem requests_framed:
  assumes "buf_len c \<le> length (buf c)" "process_requests env c s = Inr (r, c', s')"
  shows "\<exists>r0. serve_lines env (fd c) (map request_of (complete_lines (pending c))) s = Inr (r0, s') \<and>
    (if r0 < 0 then r = -1
     else pending c' = unfinished (pending c) \<and>
       r = (if REQ_BUF_SIZE - 1 \<le> length (unfinished (pending c)) then -1 else 0))"
  using process_requests_serve_lines [OF assms] by (metis (no_types))

lemma process_requests_code:
  assumes "buf_len c \<le> length (buf c)" "process_requests env c s = Inr (r, c', s')"
  shows "\<exists>r0. serve_lines env (fd c) (map request_of (complete_lines (pending c))) s = Inr (r0, s') \<and>
    r = (if r0 < 0 \<or> REQ_BUF_SIZE - 1 \<le> length (unfinished (pending c)) then -1 else 0)"
proof -
  from process_requests_serve_lines [OF assms] obtain r0 where
    "serve_lines env (fd c) (map request_of (complete_lines (pending c))) s = Inr (r0, s')"
    "if r0 < 0 then r = -1
     else r = (if REQ_BUF_SIZE - 1 \<le> length (unfinished (pending c)) then -1 else 0)"
    by (metis (no_types))
  then show ?thesis by (intro exI [of _ r0]) (simp split: if_split_asm)
qed

lemma serve_lines_append:
  "serve_lines env cfd (xs @ ys) s =
     cbind (serve_lines env cfd xs s) (\<lambda>(r, s'). if r < 0 then Inr (r, s') else serve_lines env cfd ys s')"
proof (induction xs arbitrary: s)
  case (Cons x xs)
  show ?case
    by (cases "serve_file env cfd x s") (auto simp: Cons.IH)
qed simp

text \<open>C5: It does not matter how the network cuts the requests into segments: serving a first segment
  and then what arrives behind it leaves the same server state, and so the same replies, as serving
  both from one buffer.\<close>

theorem segments_do_not_matter:
  assumes "buf_len c \<le> length (buf c)" "process_requests env c s = Inr (0, c1, s1)"
    and "buf_len c2 \<le> length (buf c2)" "fd c2 = fd c" "pending c2 = pending c1 @ d"
    and "process_requests env c2 s1 = Inr (r, c3, s3)"
    and "buf_len c' \<le> length (buf c')" "fd c' = fd c" "pending c' = pending c @ d"
    and "process_requests env c' s = Inr (r', c'', s'')"
  shows "s'' = s3 \<and> r' = r"
proof -
  from process_requests_serve_lines [OF assms(1,2)]
  have one: "\<exists>r0. serve_lines env (fd c) (map request_of (complete_lines (pending c))) s = Inr (r0, s1) \<and> \<not> r0 < 0"
    and p1: "pending c1 = unfinished (pending c)"
    by (auto split: if_splits)
  from process_requests_code [OF assms(3,6)] obtain r0 where
    two: "serve_lines env (fd c) (map request_of (complete_lines (pending c1 @ d))) s1 = Inr (r0, s3)"
      "r = (if r0 < 0 \<or> REQ_BUF_SIZE - 1 \<le> length (unfinished (pending c1 @ d)) then -1 else 0)"
    unfolding assms(4,5) by blast
  from process_requests_code [OF assms(7,10)] obtain r0' where
    all: "serve_lines env (fd c) (map request_of (complete_lines (pending c @ d))) s = Inr (r0', s'')"
      "r' = (if r0' < 0 \<or> REQ_BUF_SIZE - 1 \<le> length (unfinished (pending c @ d)) then -1 else 0)"
    unfolding assms(8,9) by blast
  have split: "complete_lines (pending c @ d) = complete_lines (pending c) @ complete_lines (pending c1 @ d)"
    "unfinished (pending c @ d) = unfinished (pending c1 @ d)"
    by (simp_all add: nl_split_append [of "pending c" d] p1)
  have "Inr (r0', s'') = Inr (r0, s3)"
    using all(1) one two(1) by (auto simp: split serve_lines_append)
  then show ?thesis using all(2) two(2) by (simp add: split)
qed

theorem segments_do_not_matter_witness:
  "\<exists>c1 s1 c3 s3 c''. process_requests (\<lambda>_. demo_view) demo_client demo_state = Inr (0, c1, s1) \<and>
     process_requests (\<lambda>_. demo_view) (c1\<lparr>buf := ''b'' @ [NL], buf_len := 2\<rparr>) s1 = Inr (0, c3, s3) \<and>
     process_requests (\<lambda>_. demo_view) (demo_client\<lparr>buf := buf demo_client @ [NL], buf_len := 5\<rparr>) demo_state =
       Inr (0, c'', s3)"
proof -
  let ?e = "\<lambda>_::nat. demo_view" and ?c2 = "\<lambda>c1. c1\<lparr>buf := ''b'' @ [NL], buf_len := 2\<rparr>"
  let ?all = "demo_client\<lparr>buf := buf demo_client @ [NL], buf_len := 5\<rparr>"
  define res where "res = process_requests ?e demo_client demo_state"
  define res' where "res' = process_requests ?e ?all demo_state"
  have "case res of Inl _ \<Rightarrow> False | Inr (r, c1, s1) \<Rightarrow> r = 0 \<and> fd c1 = 5 \<and> pending c1 = ''b'' \<and>
      (case process_requests ?e (?c2 c1) s1 of Inl _ \<Rightarrow> False | Inr (r, _) \<Rightarrow> r = 0)"
    unfolding res_def by code_simp
  then obtain c1 s1 where one: "res = Inr (0, c1, s1)" "fd c1 = 5" "pending c1 = ''b''"
    "case process_requests ?e (?c2 c1) s1 of Inl _ \<Rightarrow> False | Inr (r, _) \<Rightarrow> r = 0"
    by (cases res) auto
  from one(4) obtain c3 s3 where two: "process_requests ?e (?c2 c1) s1 = Inr (0, c3, s3)"
    by (cases "process_requests ?e (?c2 c1) s1") auto
  note r = one(1) [unfolded res_def] one(2,3) two
  have "case res' of Inl _ \<Rightarrow> False | Inr (r, _) \<Rightarrow> r = 0" unfolding res'_def by code_simp
  then obtain c'' s'' where r': "process_requests ?e ?all demo_state = Inr (0, c'', s'')"
    unfolding res'_def [symmetric] by (cases res') auto
  have e: "buf_len demo_client \<le> length (buf demo_client)" "buf_len ?all \<le> length (buf ?all)"
    "fd ?all = fd demo_client" "pending ?all = pending demo_client @ [NL]" "fd demo_client = 5"
    by code_simp+
  have "s'' = s3 \<and> (0::int) = 0"
    by (rule segments_do_not_matter [OF e(1) r(1) _ _ _ r(4) e(2-4) r'])
      (use r e in \<open>simp_all add: pending_def\<close>)
  with r r' show ?thesis by blast
qed

text \<open>\<^verbatim>\<open>write_all\<close> returns, and with 0, as soon as the kernel has taken a byte often enough;
  interrupted calls and short writes in between do not lose, repeat or reorder a byte.\<close>

theorem write_all_total:
  assumes "no_error (wrs s)" "length bs \<le> progress_count (wrs s)"
  shows "\<exists>ws. write_all cfd bs s = Inr (0, s\<lparr>wrs := ws, sent := (sent s)(cfd := sent s cfd @ bs)\<rparr>)"
proof -
  from write_loop_returns [OF assms(2)] obtain r out ws where
    w: "write_loop (wrs s) bs = Inr (r, out, ws)" by blast
  from write_loop_complete [OF w assms(1)] w show ?thesis
    by (intro exI [of _ ws]) (simp add: write_all_def)
qed

theorem write_all_total_witness:
  "\<exists>ws. write_all 4 ''ok'' (demo_state\<lparr>wrs := [WErr EINTR, W 0, W 1, WErr EINTR, W 9]\<rparr>) =
     Inr (0, demo_state\<lparr>wrs := ws, sent := (sent demo_state)(4 := sent demo_state 4 @ ''ok'')\<rparr>)"
  using write_all_total [of "demo_state\<lparr>wrs := [WErr EINTR, W 0, W 1, WErr EINTR, W 9]\<rparr>" "''ok''" 4]
  by (simp add: no_error_def progress_count_def)

end
