(* ===== verification/FileConversation.thy ===== *)
theory FileConversation
  imports FileServerSpec
begin

section \<open>The conversations of the file server\<close>

text \<open>
  Whole executions of \<^verbatim>\<open>file-server.c\<close>, from \<^verbatim>\<open>main\<close> through the event loop, against the specification
  of a single connection: on a file system at rest, and as long as no write fails, the bytes sent on
  a connection are a function of the bytes received on it alone. Neither the other connections, nor
  the cache, nor the signals, nor the segments the bytes arrive in have any part in it.
\<close>

subsection \<open>The specification of a connection\<close>

definition replies :: "(string \<Rightarrow> string option) \<Rightarrow> (string \<Rightarrow> node) \<Rightarrow> string \<Rightarrow> bytes \<Rightarrow> bytes" where
  "replies rp fs root input = concat (map (\<lambda>l. answer rp fs root (request_of l)) (complete_lines input))"

text \<open>
  What holds during a turn and between turns: the cache is coherent with the disk, everything
  received is answered, and the buffer of a connection holds its unfinished line.
\<close>

definition talk :: "(string \<Rightarrow> string option) \<Rightarrow> (string \<Rightarrow> node) \<Rightarrow> fserver \<Rightarrow> bool" where
  "talk rp fs s \<longleftrightarrow>
     coherent fs (centries s) \<and> no_error (wrs s) \<and>
     (\<forall>x. sent s x = replies rp fs (docroot s) (rcvd s x)) \<and>
     pends s"

definition quiet :: "(string \<Rightarrow> string option) \<Rightarrow> (string \<Rightarrow> node) \<Rightarrow> (nat \<Rightarrow> reqview) \<Rightarrow> bool" where
  "quiet rp fs env \<longleftrightarrow> (\<forall>t. view_ok (env t) \<and> shows_fs rp fs (env t))"

lemma replies_Nil [simp]: "replies rp fs root [] = []"
  by (simp add: replies_def nl_split_none)

lemma replies_append:
  "replies rp fs root (a @ b) = replies rp fs root a @ replies rp fs root (unfinished a @ b)"
  using nl_split_append [of a b] by (simp add: replies_def)

subsection \<open>One slot of the table\<close>

text \<open>The bytes \<open>d\<close> are read on slot \<open>i\<close> and served.\<close>

lemma talk_stored:
  assumes inv: "server_inv s" and tk: "talk rp fs s" and q: "quiet rp fs env" and i: "i < num_clients s"
    and d: "length d \<le> REQ_BUF_SIZE - 1 - buf_len (clients s ! i)"
    and run: "process_requests env (fed (clients s ! i) d) (received (fd (clients s ! i)) d s) = Inr (r, c', s')"
  shows "talk rp fs (stored i (r, c', s'))"
proof -
  let ?c = "clients s ! i" and ?s = "received (fd (clients s ! i)) d s"
  have t: "table_inv s" and mem: "mem_inv ?s" using inv mem_inv_cong [of ?s s] by (simp_all add: server_inv_def)
  note c1 = fed_ok [OF live_slot(3,4) [OF t i] d]
  have old: "coherent fs (centries s)" "no_error (wrs s)" "pends s" "sent s x = replies rp fs (docroot s) (rcvd s x)" for x
    using tk by (simp_all add: talk_def)
  have ans: "sent s' = (sent s)(fd ?c := sent s (fd ?c) @ replies rp fs (docroot s) (pending ?c @ d))"
    "pending c' = unfinished (pending ?c @ d)" "coherent fs (centries s')" "no_error (wrs s')"
    using process_requests_answers [OF mem _ _ _ c1(3) run] old(1,2) q c1(1,4)
    by (auto simp: quiet_def replies_def)
  have fr: "serve_frame ?s s'" "fd c' = fd ?c"
    using process_requests_ok [OF mem _ c1(3), of env] run q c1(1) by (auto simp: quiet_def)
  then have f: "clients s' = clients s" "num_clients s' = num_clients s" "docroot s' = docroot s"
    "rcvd s' = (rcvd s)(fd ?c := rcvd s (fd ?c) @ d)" by (simp_all add: serve_frame_def)
  have "pending ?c = unfinished (rcvd s (fd ?c))" using old(3) i by (simp add: pends_def pend_ok_def)
  then have "sent s' x = replies rp fs (docroot s') (rcvd s' x)" for x
    using old(4) by (simp add: ans(1) f(3,4) replies_append [of _ _ _ "rcvd s (fd ?c)"])
  with pends_served [OF t old(3) i refl fr(2) ans(2) f(1,2,4)] ans(3,4) show ?thesis
    by (simp add: stored_def Let_def talk_def)
qed

lemma talk_body:
  assumes inv: "server_inv s" and tk: "talk rp fs s" and q: "quiet rp fs env" and i: "i < num_clients s"
    and run: "client_body env rd ready i s = Inr s'"
  shows "talk rp fs s'"
proof (cases rule: client_body_cases [of env rd ready i s])
  case idle
  then show ?thesis using run tk by simp
next
  case gone
  have "num_clients s \<le> length (clients s)" using inv by (auto simp: server_inv_def table_inv_def)
  then have "pends (remove_client i s)" by (intro pends_remove) (use i tk in \<open>auto simp: talk_def pends_def\<close>)
  then show ?thesis using gone run tk by (simp add: talk_def)
next
  case (data d)
  with run obtain r c' s1 where
    "process_requests env (fed (clients s ! i) d) (received (fd (clients s ! i)) d s) = Inr (r, c', s1)"
    "s' = stored i (r, c', s1)" by (auto simp: cbind_Inr_conv)
  then show ?thesis using talk_stored [OF inv tk q i data(2)] by blast
qed

subsection \<open>A turn of the event loop\<close>

lemma talk_loop:
  assumes "server_inv s" "talk rp fs s" "quiet rp fs env" "n \<le> num_clients s"
    and "client_loop env rd ready n s = Inr s'"
  shows "talk rp fs s'"
  using assms
proof (induction n arbitrary: s)
  case (Suc i)
  then obtain s1 where one: "client_body env rd ready i s = Inr s1" and rest: "client_loop env rd ready i s1 = Inr s'"
    by (auto simp: cbind_Inr_conv)
  have "slot_done i s s1"
    using client_body_ok [of s env i rd ready] one Suc.prems by (simp add: quiet_def)
  then have "server_inv s1" "i \<le> num_clients s1" by (simp_all add: slot_done_def)
  moreover have "talk rp fs s1" by (rule talk_body [OF Suc.prems(1-3) _ one]) (use Suc.prems(4) in simp)
  ultimately show ?case using Suc.IH Suc.prems(3) rest by blast
qed simp

lemma talk_add:
  assumes "server_inv s" "talk rp fs s" "fst conn \<notin> socks s"
  shows "talk rp fs (add_client conn s)"
  using assms pends_add [of s conn]
  by (auto simp: talk_def server_inv_def) (auto simp: add_client_def split: prod.splits if_splits)

lemma talk_fold_add:
  assumes "server_inv s" "talk rp fs s" "distinct (map fst conns)" "set (map fst conns) \<inter> socks s = {}"
  shows "talk rp fs (fold add_client conns s)"
  using assms
proof (induction conns arbitrary: s)
  case (Cons conn conns)
  have "server_inv (add_client conn s)"
    using fold_add_client_inv [of s "[conn]"] Cons.prems(1,4) by simp
  moreover have "talk rp fs (add_client conn s)" by (rule talk_add) (use Cons.prems in auto)
  moreover have "socks (add_client conn s) \<subseteq> insert (fst conn) (socks s)"
    using add_client_table(2) [of s conn] Cons.prems by (auto simp: server_inv_def)
  moreover have "set (map fst conns) \<inter> insert (fst conn) (socks s) = {}" using Cons.prems(3,4) by auto
  ultimately have "set (map fst conns) \<inter> socks (add_client conn s) = {}" by blast
  with Cons.IH [of "add_client conn s"] \<open>server_inv (add_client conn s)\<close> \<open>talk rp fs (add_client conn s)\<close> Cons.prems(3)
  show ?case by simp
qed simp

text \<open>The flush that a pending \<^verbatim>\<open>SIGUSR1\<close> asks for.\<close>

lemma talk_clear:
  assumes inv: "server_inv s" and tk: "talk rp fs s"
    and run: "(if cache_clear_requested s
      then cbind (cache_clear (fcache s) (fheap s)) (\<lambda>(c, h).
             Inr (s\<lparr>cache_clear_requested := False, fcache := c, fheap := h\<rparr>)) else Inr s) = Inr s'"
  shows "server_inv s' \<and> talk rp fs s' \<and> socks s' = socks s"
proof (cases "cache_clear_requested s")
  case True
  have "cache_inv (fcache s) (fheap s)" "dom (fheap s) = cache_owned (fcache s)"
    using inv by (auto simp: server_inv_def mem_inv_def)
  with cache_clear_ok obtain c h where c: "cache_clear (fcache s) (fheap s) = Inr (c, h)"
    "cache_inv c h" "cache_entries c h = []" "cache_owned c = {}" "dom h = {}"
    using owner_step_dom by metis
  with run True have s': "s' = s\<lparr>cache_clear_requested := False, fcache := c, fheap := h\<rparr>" by simp
  then have "server_inv s'" using inv c table_inv_cong [of s' s] by (simp add: server_inv_def mem_inv_def)
  moreover have "talk rp fs s'" using tk c(3) by (simp add: talk_def s' coherent_def pends_def pend_ok_def)
  ultimately show ?thesis by (simp add: s')
qed (use run inv tk in simp)

lemma talk_turn:
  assumes inv: "server_inv s" and tk: "talk rp fs s" and q: "quiet rp fs env" and acc: "accept_ok listen_fd le s"
    and run: "event_turn env le listen_fd s = Inr (go, s')"
  shows "talk rp fs s'"
proof -
  from run obtain s1 where clr: "(if cache_clear_requested s
      then cbind (cache_clear (fcache s) (fheap s)) (\<lambda>(c, h).
             Inr (s\<lparr>cache_clear_requested := False, fcache := c, fheap := h\<rparr>)) else Inr s) = Inr s1"
    and rest: "(case e_select le of Inl e \<Rightarrow> Inr (e = EINTR, s1)
       | Inr rdy \<Rightarrow>
           let ready = rdy \<inter> insert listen_fd (set (live_fds s1));
               s2 = (if listen_fd \<in> ready then fold add_client (e_accept le) s1 else s1)
           in cbind (client_loop env (e_read le) ready (num_clients s2) s2) (\<lambda>s2. Inr (True, s2))) = Inr (go, s')"
    unfolding event_turn_def cbind_Inr_conv by blast
  note s1 = talk_clear [OF inv tk clr]
  show ?thesis
  proof (cases "e_select le")
    case (Inr rdy)
    let ?ready = "rdy \<inter> insert listen_fd (set (live_fds s1))"
    define s2 where "s2 = (if listen_fd \<in> ?ready then fold add_client (e_accept le) s1 else s1)"
    have "server_inv s2" "talk rp fs s2"
      using fold_add_client_inv [of s1 "e_accept le"] talk_fold_add [of s1 rp fs "e_accept le"] s1 acc
      by (auto simp: s2_def accept_ok_def)
    moreover have "client_loop env (e_read le) ?ready (num_clients s2) s2 = Inr s'"
      using rest unfolding Inr sum.case Let_def s2_def [symmetric] by (auto simp: cbind_Inr_conv)
    ultimately show ?thesis using talk_loop q by blast
  qed (use rest s1 in simp)
qed

subsection \<open>Executions\<close>

text \<open>A step on a file system at rest in which no write fails.\<close>

definition quiet_step :: "(string \<Rightarrow> string option) \<Rightarrow> (string \<Rightarrow> node) \<Rightarrow> int \<Rightarrow> bool \<times> fserver \<Rightarrow> bool \<times> fserver \<Rightarrow> bool" where
  "quiet_step rp fs listen_fd b b' \<longleftrightarrow> (\<exists>env. quiet rp fs env \<and> event_step no_error env listen_fd b b')"

lemma talk_step:
  assumes "event_step no_error env listen_fd b b'" "quiet rp fs env" "server_inv (snd b)" "talk rp fs (snd b)"
  shows "talk rp fs (snd b')"
  using assms(1)
proof (cases rule: event_step.cases)
  case (turn s le ws go s')
  have "server_inv (s\<lparr>wrs := ws\<rparr>)" "talk rp fs (s\<lparr>wrs := ws\<rparr>)" "accept_ok listen_fd le (s\<lparr>wrs := ws\<rparr>)"
    using assms(3,4) turn by (auto simp: server_inv_def table_inv_def live_fds_def mem_inv_def talk_def pends_def pend_ok_def accept_ok_def)
  with talk_turn assms(2) turn show ?thesis by auto
qed (use assms(4) in \<open>auto simp: talk_def pends_def pend_ok_def handle_sigint_def handle_sigusr1_def\<close>)

interpretation talkm: invariant_system "quiet_step rp fs listen_fd" "(True, server_init root)"
  "\<lambda>b. server_inv (snd b) \<and> docroot (snd b) = root \<and> talk rp fs (snd b)" for rp fs listen_fd root
proof unfold_locales
  show "server_inv (snd (True, server_init root)) \<and> docroot (snd (True, server_init root)) = root \<and>
      talk rp fs (snd (True, server_init root))"
    using server_init_inv cache_init_inv(2) by (auto simp: server_init_def talk_def coherent_def no_error_def pends_def)
  fix b b' :: "bool \<times> fserver"
  assume old: "server_inv (snd b) \<and> docroot (snd b) = root \<and> talk rp fs (snd b)" and "quiet_step rp fs listen_fd b b'"
  then obtain env where "quiet rp fs env" "event_step no_error env listen_fd b b'" by (auto simp: quiet_step_def)
  with old show "server_inv (snd b') \<and> docroot (snd b') = root \<and> talk rp fs (snd b')"
    using event_step_inv [of no_error env listen_fd b b' root] talk_step by (auto simp: quiet_def)
qed

subsection \<open>What a client can rely on\<close>

text \<open>C1: From the start of \<^verbatim>\<open>main\<close> on, in every state the event loop reaches on a file system at rest while no
  write fails, the bytes sent on each connection are exactly the answers to the complete lines
  received on it, in order, whatever the other connections, the cache, the signals and the segments
  were; the slot of an open connection holds its unfinished line. A connection that has been closed
  has had all of its complete lines answered.\<close>

theorem file_server_conversations:
  assumes "server_main e realpath argv = Inr (Started (listen_fd, s0))"
    and "reachable (quiet_step rp fs listen_fd) (True, s0) (b, s)"
  shows "sent s x = replies rp fs (docroot s0) (rcvd s x) \<and>
    (\<forall>c\<in>set (take (num_clients s) (clients s)). fd c \<in> socks s \<and> pending c = unfinished (rcvd s (fd c)))"
proof -
  obtain root where s0: "s0 = server_init root" by (rule server_main_Started [OF assms(1)])
  have i: "server_inv s" "docroot s = root" "talk rp fs s" using talkm.reachable_inv assms(2) unfolding s0 by fastforce+
  have "fd c \<in> socks s \<and> pending c = unfinished (rcvd s (fd c))" if "c \<in> set (take (num_clients s) (clients s))" for c
  proof
    have "fd c \<in> set (live_fds s)" using that by (simp add: live_fds_def)
    then show "fd c \<in> socks s" using i(1) by (simp add: server_inv_def table_inv_def)
    show "pending c = unfinished (rcvd s (fd c))" using that i(3) by (auto simp: talk_def pends_def pend_ok_def in_set_conv_nth)
  qed
  then show ?thesis using i(2,3) by (simp add: talk_def s0 server_init_def)
qed

definition demo_bytes :: bytes where
  "demo_bytes = ''a'' @ [CR, NL] @ ''b''"

definition demo_slot :: Client where
  "demo_slot = client0\<lparr>fd := 5, ip := ''::1'', port := 9\<rparr>"

definition demo_open :: "Client list \<Rightarrow> fserver" where
  "demo_open T = (server_init ''/r'')\<lparr>clients := T, num_clients := 1, socks := {5}, wrs := [W 3, W 100]\<rparr>"

definition demo_accept :: loop_env where
  "demo_accept = \<lparr>e_select = Inr {3}, e_accept = [(5, ''::1'', 9)], e_read = (\<lambda>_. R [])\<rparr>"

definition demo_read :: loop_env where
  "demo_read = \<lparr>e_select = Inr {5}, e_accept = [], e_read = (\<lambda>_. R demo_bytes)\<rparr>"

lemma demo_serves:
  "case process_requests (\<lambda>_. demo_view) (fed demo_slot demo_bytes) (received 5 demo_bytes (demo_open T)) of
     Inl _ \<Rightarrow> False | Inr (r, _, _) \<Rightarrow> r = 0"
  by code_simp

lemma demo_turns:
  "\<exists>s. reachable (quiet_step (v_realpath demo_view) demo_fs 3) (True, server_init ''/r'') (True, s) \<and> rcvd s 5 = demo_bytes"
proof -
  let ?env = "\<lambda>_::nat. demo_view" and ?init = "server_init ''/r''"
  have q: "quiet (v_realpath demo_view) demo_fs ?env" using demo_view_ok by (simp add: quiet_def)
  define s1 where "s1 = add_client (5, ''::1'', 9) ?init"
  have s1: "num_clients s1 = 1" "clients s1 ! 0 = demo_slot" "live_fds s1 = [5]" "running s1" "socks s1 = {5}"
    "cache_clear_requested s1 = False" "s1\<lparr>wrs := [W 3, W 100]\<rparr> = demo_open (clients s1)" "server_inv s1"
    using add_client_table(1) [of ?init "(5, ''::1'', 9)"] server_init_inv [of "''/r''"]
    by (auto simp: s1_def add_client_def server_init_def demo_slot_def client0_def demo_open_def MAX_CLIENTS_def live_fds_def
        take_Suc_conv_app_nth server_inv_def mem_inv_def fun_upd_idem)
  have t1: "event_turn ?env demo_accept 3 (?init\<lparr>wrs := []\<rparr>) = Inr (True, s1)"
  proof -
    have "event_turn ?env demo_accept 3 (?init\<lparr>wrs := []\<rparr>) =
        cbind (client_loop ?env (\<lambda>_. R []) {3} (num_clients s1) s1) (\<lambda>s2. Inr (True, s2))"
      by (simp add: event_turn_def demo_accept_def s1_def server_init_def live_fds_def Let_def)
    then show ?thesis using s1 by (simp add: client_body_def demo_slot_def)
  qed
  let ?s = "s1\<lparr>wrs := [W 3, W 100]\<rparr>"
  obtain c' s' where p: "process_requests ?env (fed demo_slot demo_bytes) (received 5 demo_bytes (demo_open (clients s1))) = Inr (0, c', s')"
    using demo_serves [of "clients s1"] by (auto split: sum.splits prod.splits)
  have t2: "event_turn ?env demo_read 3 ?s = Inr (True, stored 0 (0, c', s'))"
  proof -
    have d: "take (REQ_BUF_SIZE - 1 - buf_len demo_slot) demo_bytes = demo_bytes" "demo_bytes \<noteq> []" "fd demo_slot = 5"
      by (simp_all add: demo_slot_def client0_def demo_bytes_def REQ_BUF_SIZE_def)
    have "client_body ?env (\<lambda>_. R demo_bytes) {5} 0 ?s = Inr (stored 0 (0, c', s'))"
      unfolding client_body_def Let_def using s1(2) d p s1(7)
      by (simp add: fed_def received_def stored_def Let_def demo_open_def)
    moreover have "live_fds ?s = [5]" using s1(3) by (simp add: live_fds_def)
    ultimately show ?thesis using s1(1,6) by (simp add: event_turn_def demo_read_def Let_def)
  qed
  have acc: "accept_ok 3 demo_accept ?init" "accept_ok 3 demo_read s1"
    by (simp_all add: accept_ok_def demo_accept_def demo_read_def server_init_def)
  have "event_step no_error ?env 3 (True, ?init) (True, s1)"
    by (rule event_step.turn [OF _ acc(1) _ t1]) (simp_all add: server_init_def no_error_def)
  moreover have "event_step no_error ?env 3 (True, s1) (True, stored 0 (0, c', s'))"
    by (rule event_step.turn [OF s1(4) acc(2) _ t2]) (simp add: no_error_def)
  ultimately have "reachable (quiet_step (v_realpath demo_view) demo_fs 3) (True, ?init) (True, stored 0 (0, c', s'))"
    using q by (meson quiet_step_def reachable.intros)
  moreover have "rcvd (stored 0 (0, c', s')) 5 = demo_bytes"
  proof -
    have m: "mem_inv (received 5 demo_bytes (demo_open (clients s1)))"
      using s1(8) unfolding s1(7) [symmetric] by (simp add: server_inv_def mem_inv_def)
    have "serve_frame (received 5 demo_bytes (demo_open (clients s1))) s'"
      using process_requests_ok [OF m, of ?env "fed demo_slot demo_bytes"] p demo_view_ok(1)
        fed_ok [of demo_slot demo_bytes] by (auto simp: demo_slot_def client0_def demo_bytes_def REQ_BUF_SIZE_def)
    then show ?thesis by (simp add: serve_frame_def stored_def demo_open_def server_init_def)
  qed
  ultimately show ?thesis by blast
qed

theorem file_server_conversations_witness:
  "\<exists>s. reachable (quiet_step (v_realpath demo_view) demo_fs 3) (True, server_init ''/r'') (True, s) \<and>
     rcvd s 5 = demo_bytes \<and> sent s 5 = ''+OK 2'' @ [NL] @ ''hi''"
proof -
  obtain s where s: "reachable (quiet_step (v_realpath demo_view) demo_fs 3) (True, server_init ''/r'') (True, s)"
    "rcvd s 5 = demo_bytes" using demo_turns by blast
  have "replies (v_realpath demo_view) demo_fs ''/r'' demo_bytes = ''+OK 2'' @ [NL] @ ''hi''" by code_simp
  with file_server_conversations [OF demo_start s(1), of 5] s show ?thesis
    by (intro exI [of _ s]) (simp add: server_init_def)
qed

text \<open>C6: A client that reads the documented protocol recovers from the bytes it got, at any moment of an
  execution, exactly one reply per request line it has sent, in order: the content of the file it
  asked for, or the reason it was refused.\<close>

theorem replies_decodable:
  assumes "server_main e realpath argv = Inr (Started (listen_fd, s0))"
    and "reachable (quiet_step rp fs listen_fd) (True, s0) (b, s)"
  shows "decode_replies (length (complete_lines (rcvd s x))) (sent s x) =
    Some (map (\<lambda>l. answer_reply rp fs (docroot s0) (request_of l)) (complete_lines (rcvd s x)))"
proof -
  obtain root where s0: "s0 = server_init root" by (rule server_main_Started [OF assms(1)])
  have "docroot s = root" "talk rp fs s" using talkm.reachable_inv assms(2) unfolding s0 by fastforce+
  then have "sent s x = concat (map (answer rp fs root) (map request_of (complete_lines (rcvd s x))))"
    by (simp add: talk_def replies_def comp_def)
  then show ?thesis
    using decode_answers [of "map request_of (complete_lines (rcvd s x))" rp fs root] by (simp add: s0 server_init_def comp_def)
qed

theorem replies_decodable_witness:
  "\<exists>s. reachable (quiet_step (v_realpath demo_view) demo_fs 3) (True, server_init ''/r'') (True, s) \<and>
     decode_replies 1 (sent s 5) = Some [OkReply ''hi'']"
proof -
  obtain s where s: "reachable (quiet_step (v_realpath demo_view) demo_fs 3) (True, server_init ''/r'') (True, s)"
    "rcvd s 5 = demo_bytes" using demo_turns by blast
  have "length (complete_lines demo_bytes) = 1"
    "map (\<lambda>l. answer_reply (v_realpath demo_view) demo_fs ''/r'' (request_of l)) (complete_lines demo_bytes) = [OkReply ''hi'']"
    by code_simp+
  with replies_decodable [OF demo_start s(1), of 5] s show ?thesis by (auto simp: server_init_def)
qed

end
