(* ===== verification/AioServer.thy ===== *)
theory AioServer
  imports FileLoop "HOL-Library.Multiset"
begin

section \<open>The file server with asynchronous input\<close>

text \<open>
  \<^verbatim>\<open>aio-file-server.c\<close>: every connection is a state machine (\<^verbatim>\<open>STATE_READING\<close>, \<^verbatim>\<open>STATE_AIO\<close>,
  \<^verbatim>\<open>STATE_WRITING\<close>, \<^verbatim>\<open>STATE_SENDFILE\<close>) that the event loop advances without blocking. The cache and
  the path test are those of \<^verbatim>\<open>file-server.c\<close>, word for word, and are shared with its model. Files
  are known by descriptor here, so that it can be shown that none is closed twice or lost.

  An asynchronous read is known to the kernel by the address of its control block, which is a field
  of the client's slot in the table, so the address is the slot. The kernel's side is \<open>a_inflight\<close>, the
  addresses \<^verbatim>\<open>aio_read\<close> was called with and whose operations are not over: \<^verbatim>\<open>aio_read\<close> adds one, and
  \<^verbatim>\<open>aio_return\<close> takes it out. POSIX leaves \<^verbatim>\<open>aio_error\<close>, \<^verbatim>\<open>aio_return\<close> and \<^verbatim>\<open>aio_cancel\<close> undefined for a control
  block of no such operation; that is the fault \<open>MovedBlock\<close>.
\<close>

subsection \<open>State\<close>

datatype ClientState = STATE_READING | STATE_AIO | STATE_WRITING | STATE_SENDFILE

record AClient =
  sock :: int
  a_ip :: string
  a_port :: nat
  req_buf :: bytes
  req_len :: nat
  state :: ClientState
  file_fd :: int
  a_resp :: addr
  a_size :: nat
  a_sent :: nat
  aio_off :: nat
  aio_nbytes :: nat
  sf_fd :: int
  sf_offset :: nat
  sf_remaining :: nat
  cache_key :: string

definition aclient0 :: AClient where
  "aclient0 = \<lparr>sock = 0, a_ip = [], a_port = 0, req_buf = replicate REQ_BUF_SIZE NUL, req_len = 0,
     state = STATE_READING, file_fd = 0, a_resp = 0, a_size = 0, a_sent = 0, aio_off = 0,
     aio_nbytes = 0, sf_fd = 0, sf_offset = 0, sf_remaining = 0, cache_key = []\<rparr>"

text \<open>
  For the connection that is on a descriptor now, \<open>peer\<close> holds the bytes the kernel took and \<open>a_rcvd\<close>
  those it delivered; \<open>a_path\<close> is the path the file on a descriptor was opened with, and \<open>a_inflight\<close> the
  control blocks of the reads under way.
\<close>

record aserver =
  a_running :: bool
  a_clear :: bool
  a_docroot :: string
  acache :: filecache
  aheap :: heap
  aclients :: "AClient list"
  anum :: nat
  awrs :: "wres list"
  peer :: "int \<Rightarrow> bytes"
  a_rcvd :: "int \<Rightarrow> bytes"
  asocks :: "int set"
  afiles :: "int set"
  a_path :: "int \<Rightarrow> string"
  a_inflight :: "nat set"
  aclock :: nat

text \<open>
  What the calls of one request answer, beyond what they do in the other server: the descriptor of
  the opened file, given those in use, the block for the copy of a cached response, whether \<^verbatim>\<open>aio_read\<close> could be queued,
  and what the uninitialised \<^verbatim>\<open>st.st_mode\<close> says when \<^verbatim>\<open>stat\<close> has failed.
\<close>

record areqview = reqview +
  v_fd :: "int set \<Rightarrow> int"
  v_hit :: malloc_choice
  v_aio :: bool
  v_junk :: bool

subsection \<open>The cache\<close>

text \<open>The text of these functions is that of \<^verbatim>\<open>file-server.c\<close>.\<close>

abbreviation aio_cache_lookup :: "string \<Rightarrow> filecache \<Rightarrow> CacheEntry option" where
  "aio_cache_lookup \<equiv> cache_lookup"

abbreviation aio_cache_insert :: "string \<Rightarrow> addr \<Rightarrow> nat \<Rightarrow> filecache \<Rightarrow> heap \<Rightarrow> (filecache \<times> heap) cres" where
  "aio_cache_insert \<equiv> cache_insert"

abbreviation aio_cache_clear :: "filecache \<Rightarrow> heap \<Rightarrow> (filecache \<times> heap) cres" where
  "aio_cache_clear \<equiv> cache_clear"

subsection \<open>Connections\<close>

definition aio_add_client :: "int \<times> string \<times> nat \<Rightarrow> aserver \<Rightarrow> aserver" where
  "aio_add_client conn s =
     (case conn of (cfd, cip, cport) \<Rightarrow>
        if MAX_CLIENTS \<le> anum s then s
        else s\<lparr>asocks := insert cfd (asocks s), peer := (peer s)(cfd := []), a_rcvd := (a_rcvd s)(cfd := []),
               aclients := (aclients s)[anum s :=
                 aclient0\<lparr>sock := cfd, state := STATE_READING, a_port := cport, a_ip := cip\<rparr>],
               anum := anum s + 1\<rparr>)"

text \<open>
  \<open>finishes\<close> says whether the operation leaves \<^verbatim>\<open>EINPROGRESS\<close> after \<^verbatim>\<open>aio_cancel\<close>; the source spins
  until it does.
\<close>

definition aio_remove_client :: "bool \<Rightarrow> nat \<Rightarrow> aserver \<Rightarrow> aserver cres" where
  "aio_remove_client finishes i s =
     (let c = aclients s ! i
      in cbind (if state c = STATE_AIO then
                  (if i \<notin> a_inflight s then Inl MovedBlock
                   else if \<not> finishes then Inl Pending
                   else Inr (s\<lparr>a_inflight := a_inflight s - {i}, afiles := afiles s - {file_fd c}\<rparr>))
                else Inr s) (\<lambda>s1.
         let s2 = (if state c = STATE_SENDFILE \<and> 0 \<le> sf_fd c then s1\<lparr>afiles := afiles s1 - {sf_fd c}\<rparr> else s1)
         in cbind (h_free (a_resp c) (aheap s2)) (\<lambda>h.
              Inr (s2\<lparr>aheap := h, asocks := asocks s2 - {sock c},
                      aclients := (aclients s2)[i := aclients s2 ! (anum s2 - 1)],
                      anum := anum s2 - 1\<rparr>))))"

text \<open>\<^verbatim>\<open>sock_send\<close> gives up on the first error that is not \<^verbatim>\<open>EINTR\<close>, \<^verbatim>\<open>EAGAIN\<close> included.\<close>

definition sock_send :: "int \<Rightarrow> bytes \<Rightarrow> aserver \<Rightarrow> aserver cres" where
  "sock_send cfd msg s =
     cbind (write_loop (awrs s) msg) (\<lambda>(_, out, ws).
       Inr (s\<lparr>awrs := ws, peer := (peer s)(cfd := peer s cfd @ out)\<rparr>))"

text \<open>\<^verbatim>\<open>nb_write\<close>: the count, 0 for \<^verbatim>\<open>EAGAIN\<close>, or a failure.\<close>

definition nb_write :: "wres \<Rightarrow> bytes \<Rightarrow> nat option" where
  "nb_write w bs = (case w of W n \<Rightarrow> Some (min n (length bs)) | WErr e \<Rightarrow> if e = EAGAIN then Some 0 else None)"

subsection \<open>Starting a reply\<close>

text \<open>An error message followed by \<^verbatim>\<open>return\<close>; the client stays in \<^verbatim>\<open>STATE_READING\<close>.\<close>

definition aio_refuse :: "AClient \<Rightarrow> string \<Rightarrow> aserver \<Rightarrow> (AClient \<times> aserver) cres" where
  "aio_refuse c reason s = cbind (sock_send (sock c) (err_reply reason) s) (\<lambda>s'. Inr (c, s'))"

definition start_sendfile ::
  "int \<Rightarrow> bytes \<Rightarrow> nat \<Rightarrow> AClient \<Rightarrow> aserver \<Rightarrow> (AClient \<times> aserver) cres" where
  "start_sendfile ffd header fsize c s =
     cbind (sock_send (sock c) header s) (\<lambda>s'.
       Inr (c\<lparr>sf_fd := ffd, sf_offset := 0, sf_remaining := fsize, state := STATE_SENDFILE\<rparr>, s'))"

definition start_aio ::
  "areqview \<Rightarrow> nat \<Rightarrow> int \<Rightarrow> bytes \<Rightarrow> nat \<Rightarrow> AClient \<Rightarrow> aserver \<Rightarrow> (AClient \<times> aserver) cres" where
  "start_aio v i ffd header fsize c s =
     (case h_malloc (v_malloc v) (length header + fsize) (aheap s) of
        None \<Rightarrow>
          cbind (aio_refuse c ''out of memory'' s) (\<lambda>(c', s'). Inr (c', s'\<lparr>afiles := afiles s' - {ffd}\<rparr>))
      | Some (r, h0) \<Rightarrow>
          cbind (h_write r 0 header h0) (\<lambda>h1.
            let c1 = c\<lparr>file_fd := ffd, a_resp := r, a_size := length header + fsize, a_sent := 0,
                       aio_off := length header, aio_nbytes := fsize\<rparr>
            in if v_aio v then Inr (c1\<lparr>state := STATE_AIO\<rparr>, s\<lparr>aheap := h1, a_inflight := insert i (a_inflight s)\<rparr>)
               else cbind (h_free r h1) (\<lambda>h2.
                      aio_refuse (c1\<lparr>a_resp := 0\<rparr>) ''aio_read failed''
                        (s\<lparr>aheap := h2, afiles := afiles s - {ffd}\<rparr>))))"

text \<open>
  The path below the cache; \<^verbatim>\<open>st_size\<close> is converted to \<^verbatim>\<open>size_t\<close>. The kernel never hands out a
  descriptor that is in use: an answer that is in use counts as a failed \<^verbatim>\<open>open\<close>.
\<close>

definition new_fd :: "areqview \<Rightarrow> aserver \<Rightarrow> int" where
  "new_fd v s = v_fd v (afiles s \<union> asocks s)"

definition can_open :: "areqview \<Rightarrow> string \<Rightarrow> aserver \<Rightarrow> bool" where
  "can_open v p s \<longleftrightarrow> v_open v p \<and> 0 \<le> new_fd v s \<and> new_fd v s \<notin> afiles s \<union> asocks s"

definition begin_disk ::
  "areqview \<Rightarrow> nat \<Rightarrow> string \<Rightarrow> AClient \<Rightarrow> aserver \<Rightarrow> (AClient \<times> aserver) cres" where
  "begin_disk v i resolved c s =
     (case v_stat v resolved of
        None \<Rightarrow> aio_refuse c (if v_junk v then ''stat failed'' else ''not a regular file'') s
      | Some st \<Rightarrow>
          if \<not> st_reg st then aio_refuse c ''not a regular file'' s
          else if \<not> can_open v resolved s then aio_refuse c ''open failed'' s
          else
            let ffd = new_fd v s;
                s1 = s\<lparr>afiles := insert ffd (afiles s), a_path := (a_path s)(ffd := resolved)\<rparr>;
                fsize = nat (st_size st mod 2 ^ 64)
            in cbind (snprintf_out 64 (ok_header (st_size st))) (\<lambda>header.
                 if MAX_CACHE_FILE_SIZE < fsize then start_sendfile ffd header fsize c s1
                 else start_aio v i ffd header fsize c s1))"

definition begin_file_serve ::
  "(nat \<Rightarrow> areqview) \<Rightarrow> nat \<Rightarrow> AClient \<Rightarrow> string \<Rightarrow> aserver \<Rightarrow> (AClient \<times> aserver) cres" where
  "begin_file_serve env i c filename s0 =
     (let v = env (aclock s0); s = s0\<lparr>aclock := aclock s0 + 1\<rparr>
      in if filename = [] then aio_refuse c ''empty filename'' s
         else if hd filename = CHR ''/'' then aio_refuse c ''absolute paths not allowed'' s
         else case v_realpath v (candidate (a_docroot s) filename) of
                None \<Rightarrow> aio_refuse c ''not found'' s
              | Some resolved \<Rightarrow>
                  if \<not> in_docroot (a_docroot s) resolved then aio_refuse c ''access denied'' s
                  else
                    let c1 = c\<lparr>cache_key := strncpy (PATH_MAX - 1) resolved\<rparr>
                    in case aio_cache_lookup resolved (acache s) of
                         None \<Rightarrow> begin_disk v i resolved c1 s
                       | Some e \<Rightarrow>
                           (case h_malloc (v_hit v) (resp_size e) (aheap s) of
                              None \<Rightarrow> begin_disk v i resolved c1 s
                            | Some (r, h0) \<Rightarrow>
                                cbind (h_read (resp e) 0 (resp_size e) h0) (\<lambda>bs.
                                cbind (h_write r 0 bs h0) (\<lambda>h1.
                                  Inr (c1\<lparr>a_resp := r, a_size := resp_size e, a_sent := 0, state := STATE_WRITING\<rparr>,
                                       s\<lparr>aheap := h1\<rparr>)))))"

subsection \<open>The end of an asynchronous read\<close>

text \<open>
  What \<^verbatim>\<open>aio_error\<close> and \<^verbatim>\<open>aio_return\<close> say: still running, failed, or the bytes that the kernel has put
  into the buffer. \<open>mal\<close> is the block for the copy that goes into the cache.
\<close>

datatype aio_answer = AioBusy | AioFailed | AioRead bytes

definition aio_to_cache :: "malloc_choice \<Rightarrow> AClient \<Rightarrow> aserver \<Rightarrow> aserver cres" where
  "aio_to_cache mal c s =
     (if a_size c \<le> MAX_CACHE_FILE_SIZE + 64 \<and> cache_key c \<noteq> [] then
        (case h_malloc mal (a_size c) (aheap s) of
           None \<Rightarrow> Inr s
         | Some (r, h1) \<Rightarrow>
             cbind (h_read (a_resp c) 0 (a_size c) h1) (\<lambda>bs.
             cbind (h_write r 0 bs h1) (\<lambda>h2.
             cbind (aio_cache_insert (cache_key c) r (a_size c) (acache s) h2) (\<lambda>(k, h3).
               Inr (s\<lparr>acache := k, aheap := h3\<rparr>)))))
      else Inr s)"

definition check_aio ::
  "malloc_choice \<Rightarrow> aio_answer \<Rightarrow> nat \<Rightarrow> AClient \<Rightarrow> aserver \<Rightarrow> (AClient \<times> aserver) cres" where
  "check_aio mal ans i c s =
     (if i \<notin> a_inflight s then Inl MovedBlock
      else case ans of
        AioBusy \<Rightarrow> Inr (c, s)
      | AioFailed \<Rightarrow>
          cbind (h_free (a_resp c) (aheap s)) (\<lambda>h.
          cbind (sock_send (sock c) (err_reply ''read error'')
                   (s\<lparr>a_inflight := a_inflight s - {i}, aheap := h, afiles := afiles s - {file_fd c}\<rparr>)) (\<lambda>s'.
            Inr (c\<lparr>file_fd := -1, a_resp := 0, state := STATE_READING\<rparr>, s')))
      | AioRead d \<Rightarrow>
          cbind (h_write (a_resp c) (aio_off c) (take (aio_nbytes c) d) (aheap s)) (\<lambda>h.
          cbind (aio_to_cache mal c (s\<lparr>a_inflight := a_inflight s - {i}, aheap := h, afiles := afiles s - {file_fd c}\<rparr>)) (\<lambda>s'.
            Inr (c\<lparr>file_fd := -1, state := STATE_WRITING\<rparr>, s'))))"

subsection \<open>The requests in the buffer\<close>

text \<open>
  The loop over the complete lines; it stops at the first request that puts the client into another
  state. \<^verbatim>\<open>begin_file_serve\<close> does not touch the buffer.
\<close>

function aio_requests ::
  "(nat \<Rightarrow> areqview) \<Rightarrow> nat \<Rightarrow> AClient \<Rightarrow> aserver \<Rightarrow> (AClient \<times> aserver) cres" where
  "aio_requests env i c s =
     (case memchr (req_buf c) NL (req_len c) of
        None \<Rightarrow> Inr (c, s)
      | Some p \<Rightarrow>
          let b = terminate_line (req_buf c) p
          in cbind (begin_file_serve env i (c\<lparr>req_buf := b\<rparr>) (cstr b) s) (\<lambda>(c', s').
               let n = req_len c - (p + 1); c2 = c'\<lparr>req_buf := memmove0 b (p + 1) n, req_len := n\<rparr>
               in if state c2 \<noteq> STATE_READING then Inr (c2, s') else aio_requests env i c2 s'))"
  by pat_completeness auto
termination
  by (relation "measure (\<lambda>(env, i, c, s). req_len c)") (auto dest: memchr_Some(1))

declare aio_requests.simps [simp del]

subsection \<open>The event loop\<close>

text \<open>
  What the calls of one turn answer. The answers of \<^verbatim>\<open>aio_error\<close> and \<^verbatim>\<open>sendfile\<close> may depend on the path of
  the file behind the descriptor they are given, and on the offset.
\<close>

record aloop_env =
  ae_select :: "errno + int set \<times> int set"
  ae_accept :: "(int \<times> string \<times> nat) list"
  ae_peek :: "int \<Rightarrow> rres"
  ae_read :: "int \<Rightarrow> rres"
  ae_aio :: "int \<Rightarrow> string \<Rightarrow> aio_answer"
  ae_malloc :: "int \<Rightarrow> malloc_choice"
  ae_cancel :: "int \<Rightarrow> bool"
  ae_write :: "int \<Rightarrow> wres"
  ae_sendfile :: "int \<Rightarrow> string \<Rightarrow> nat \<Rightarrow> rres"

text \<open>
  The parts of the body of the client loop. Each tells whether the body goes on (\<open>True\<close>) or the
  client has been removed and the loop continues with the next slot.
\<close>

definition drop_client :: "aloop_env \<Rightarrow> nat \<Rightarrow> aserver \<Rightarrow> (bool \<times> aserver) cres" where
  "drop_client le i s =
     cbind (aio_remove_client (ae_cancel le (sock (aclients s ! i))) i s) (\<lambda>s'. Inr (False, s'))"

definition put_client :: "nat \<Rightarrow> AClient \<Rightarrow> aserver \<Rightarrow> aserver" where
  "put_client i c s = s\<lparr>aclients := (aclients s)[i := c]\<rparr>"

definition probe_phase :: "aloop_env \<Rightarrow> int set \<Rightarrow> nat \<Rightarrow> aserver \<Rightarrow> (bool \<times> aserver) cres" where
  "probe_phase le rset i s =
     (let c = aclients s ! i
      in if sock c \<in> rset \<and> state c \<noteq> STATE_READING then
           (case ae_peek le (sock c) of
              R bs \<Rightarrow> if bs = [] then drop_client le i s else Inr (True, s)
            | RErr e \<Rightarrow> if e = EAGAIN then Inr (True, s) else drop_client le i s)
         else Inr (True, s))"

definition aio_phase :: "aloop_env \<Rightarrow> nat \<Rightarrow> aserver \<Rightarrow> (bool \<times> aserver) cres" where
  "aio_phase le i s =
     (let c = aclients s ! i
      in if state c = STATE_AIO then
           cbind (check_aio (ae_malloc le (sock c)) (ae_aio le (sock c) (a_path s (file_fd c))) i c s) (\<lambda>(c', s').
             Inr (True, put_client i c' s'))
         else Inr (True, s))"

definition read_phase ::
  "(nat \<Rightarrow> areqview) \<Rightarrow> aloop_env \<Rightarrow> int set \<Rightarrow> nat \<Rightarrow> aserver \<Rightarrow> (bool \<times> aserver) cres" where
  "read_phase env le rset i s =
     (let c = aclients s ! i
      in if state c = STATE_READING \<and> sock c \<in> rset then
           (case ae_read le (sock c) of
              RErr e \<Rightarrow> drop_client le i s
            | R bs \<Rightarrow>
                let d = take (REQ_BUF_SIZE - 1 - req_len c) bs
                in if d = [] then drop_client le i s
                   else cbind (aio_requests env i (c\<lparr>req_buf := blit (req_buf c) (req_len c) d,
                                 req_len := req_len c + length d\<rparr>)
                               (s\<lparr>a_rcvd := (a_rcvd s)(sock c := a_rcvd s (sock c) @ d)\<rparr>)) (\<lambda>(c', s').
                          let s2 = put_client i c' s'
                          in if REQ_BUF_SIZE - 1 \<le> req_len c' then drop_client le i s2 else Inr (True, s2)))
         else Inr (True, s))"

definition write_phase :: "aloop_env \<Rightarrow> int set \<Rightarrow> nat \<Rightarrow> aserver \<Rightarrow> (bool \<times> aserver) cres" where
  "write_phase le wset i s =
     (let c = aclients s ! i
      in if state c = STATE_WRITING \<and> sock c \<in> wset then
           cbind (h_read (a_resp c) (a_sent c) (a_size c - a_sent c) (aheap s)) (\<lambda>bs.
             case nb_write (ae_write le (sock c)) bs of
               None \<Rightarrow> drop_client le i s
             | Some n \<Rightarrow>
                 let c1 = c\<lparr>a_sent := a_sent c + n\<rparr>;
                     s1 = s\<lparr>peer := (peer s)(sock c := peer s (sock c) @ take n bs)\<rparr>
                 in if a_sent c1 = a_size c1 then
                      cbind (h_free (a_resp c) (aheap s1)) (\<lambda>h.
                        Inr (True, put_client i (c1\<lparr>a_resp := 0, state := STATE_READING\<rparr>) (s1\<lparr>aheap := h\<rparr>)))
                    else Inr (True, put_client i c1 s1))
         else Inr (True, s))"

definition sendfile_phase :: "aloop_env \<Rightarrow> int set \<Rightarrow> nat \<Rightarrow> aserver \<Rightarrow> (bool \<times> aserver) cres" where
  "sendfile_phase le wset i s =
     (let c = aclients s ! i;
          finish = (\<lambda>c1 s1. if sf_remaining c1 = 0
            then Inr (True, put_client i (c1\<lparr>sf_fd := -1, state := STATE_READING\<rparr>)
                              (s1\<lparr>afiles := afiles s1 - {sf_fd c1}\<rparr>))
            else Inr (True, put_client i c1 s1))
      in if state c = STATE_SENDFILE \<and> sock c \<in> wset then
           (case ae_sendfile le (sock c) (a_path s (sf_fd c)) (sf_offset c) of
              RErr e \<Rightarrow> if e = EAGAIN then finish c s else drop_client le i s
            | R bs \<Rightarrow>
                let d = take (sf_remaining c) bs
                in finish (c\<lparr>sf_offset := sf_offset c + length d, sf_remaining := sf_remaining c - length d\<rparr>)
                     (s\<lparr>peer := (peer s)(sock c := peer s (sock c) @ d)\<rparr>))
         else Inr (True, s))"

definition andthen :: "(bool \<times> aserver) cres \<Rightarrow> (aserver \<Rightarrow> (bool \<times> aserver) cres) \<Rightarrow> (bool \<times> aserver) cres" where
  "andthen m f = cbind m (\<lambda>(go, s). if go then f s else Inr (False, s))"

definition aio_body ::
  "(nat \<Rightarrow> areqview) \<Rightarrow> aloop_env \<Rightarrow> int set \<Rightarrow> int set \<Rightarrow> nat \<Rightarrow> aserver \<Rightarrow> (bool \<times> aserver) cres" where
  "aio_body env le rset wset i s =
     andthen (andthen (andthen (andthen (probe_phase le rset i s)
       (aio_phase le i)) (read_phase env le rset i)) (write_phase le wset i)) (sendfile_phase le wset i)"

fun aio_client_loop ::
  "(nat \<Rightarrow> areqview) \<Rightarrow> aloop_env \<Rightarrow> int set \<Rightarrow> int set \<Rightarrow> nat \<Rightarrow> aserver \<Rightarrow> aserver cres" where
  "aio_client_loop env le rset wset 0 s = Inr s"
| "aio_client_loop env le rset wset (Suc i) s =
     cbind (aio_body env le rset wset i s) (\<lambda>(_, s'). aio_client_loop env le rset wset i s')"

definition alive :: "aserver \<Rightarrow> AClient list" where
  "alive s = take (anum s) (aclients s)"

text \<open>The loop \<^verbatim>\<open>while (num_clients < MAX_CLIENTS)\<close> around \<^verbatim>\<open>accept\<close>.\<close>

fun aio_accept_loop :: "(int \<times> string \<times> nat) list \<Rightarrow> aserver \<Rightarrow> aserver" where
  "aio_accept_loop [] s = s"
| "aio_accept_loop (conn # rest) s =
     (if anum s < MAX_CLIENTS then aio_accept_loop rest (aio_add_client conn s) else s)"

definition aio_turn :: "(nat \<Rightarrow> areqview) \<Rightarrow> aloop_env \<Rightarrow> int \<Rightarrow> aserver \<Rightarrow> (bool \<times> aserver) cres" where
  "aio_turn env le listen_fd s0 =
     cbind (if a_clear s0
            then cbind (aio_cache_clear (acache s0) (aheap s0)) (\<lambda>(c, h).
                   Inr (s0\<lparr>a_clear := False, acache := c, aheap := h\<rparr>))
            else Inr s0) (\<lambda>s.
       case ae_select le of
         Inl e \<Rightarrow> Inr (e = EINTR, s)
       | Inr (rds, wds) \<Rightarrow>
           let rset = rds \<inter> insert listen_fd (sock ` set (alive s));
               wset = wds \<inter> sock ` {c \<in> set (alive s). state c = STATE_WRITING \<or> state c = STATE_SENDFILE};
               s1 = (if listen_fd \<in> rset then aio_accept_loop (ae_accept le) s else s)
           in cbind (aio_client_loop env le rset wset (anum s1) s1) (\<lambda>s2. Inr (True, s2)))"

definition aio_init :: "string \<Rightarrow> aserver" where
  "aio_init root =
     \<lparr>a_running = True, a_clear = False, a_docroot = root, acache = cache_init, aheap = Map.empty,
      aclients = replicate MAX_CLIENTS aclient0, anum = 0, awrs = [], peer = (\<lambda>_. []), a_rcvd = (\<lambda>_. []),
      asocks = {}, afiles = {}, a_path = (\<lambda>_. []), a_inflight = {}, aclock = 0\<rparr>"

text \<open>
  \<^verbatim>\<open>main\<close>: the arguments and the listening socket are handled as in \<^verbatim>\<open>file-server.c\<close>; \<open>sig\<close> says whether the
  signal could be blocked and \<open>sfd\<close> is the descriptor \<^verbatim>\<open>signalfd\<close> returns. At the end the sockets of the
  clients are closed, then the listening socket and the descriptor of the signal, listed in this order,
  and the cache is cleared.
\<close>

abbreviation aio_create_listen_socket :: "listen_env \<Rightarrow> int \<Rightarrow> int started" where
  "aio_create_listen_socket \<equiv> create_listen_socket"

definition aio_main ::
  "listen_env \<Rightarrow> bool \<Rightarrow> int \<Rightarrow> (string \<Rightarrow> string option) \<Rightarrow> string list \<Rightarrow> (int \<times> aserver) started cres" where
  "aio_main e sig sfd realpath argv =
     cbind (if 2 \<le> length argv then atoi (argv ! 1) else Inr 8084) (\<lambda>port_num.
       Inr (case realpath (if 3 \<le> length argv then argv ! 2 else ''./docroot'') of
              None \<Rightarrow> Exit 1
            | Some root \<Rightarrow>
                if \<not> sig then Exit 1
                else if sfd < 0 then Exit 1
                else (case aio_create_listen_socket e port_num of
                        Exit n \<Rightarrow> Exit n
                      | Started listen_fd \<Rightarrow> Started (listen_fd, aio_init root))))"

definition aio_finish :: "int \<Rightarrow> int \<Rightarrow> aserver \<Rightarrow> (int list \<times> aserver) cres" where
  "aio_finish listen_fd aio_sfd s =
     cbind (aio_cache_clear (acache s) (aheap s)) (\<lambda>(c, h).
       Inr (map sock (alive s) @ [listen_fd, aio_sfd],
            s\<lparr>asocks := asocks s - sock ` set (alive s), acache := c, aheap := h\<rparr>))"

text \<open>
  Turns of the loop with the two signals in between. \<^verbatim>\<open>accept\<close> returns descriptors that are not in
  use; \<open>wok\<close> restricts what \<^verbatim>\<open>write\<close> answers to \<^verbatim>\<open>sock_send\<close> and what the other calls of the turn answer.
\<close>

definition aio_accept_ok :: "int \<Rightarrow> aloop_env \<Rightarrow> aserver \<Rightarrow> bool" where
  "aio_accept_ok listen_fd le s \<longleftrightarrow>
     distinct (map fst (ae_accept le)) \<and> set (map fst (ae_accept le)) \<inter> insert listen_fd (asocks s) = {}"

abbreviation aio_handle_sigint :: "aserver \<Rightarrow> aserver" where
  "aio_handle_sigint s \<equiv> s\<lparr>a_running := False\<rparr>"

abbreviation aio_handle_sigusr1 :: "aserver \<Rightarrow> aserver" where
  "aio_handle_sigusr1 s \<equiv> s\<lparr>a_clear := True\<rparr>"

inductive aio_step ::
  "(wres list \<Rightarrow> aloop_env \<Rightarrow> bool) \<Rightarrow> (nat \<Rightarrow> areqview) \<Rightarrow> int \<Rightarrow> bool \<times> aserver \<Rightarrow> bool \<times> aserver \<Rightarrow> bool"
  for wok env listen_fd where
  sigint: "aio_step wok env listen_fd (b, s) (b, aio_handle_sigint s)"
| sigusr1: "aio_step wok env listen_fd (b, s) (b, aio_handle_sigusr1 s)"
| turn: "a_running s \<Longrightarrow> aio_accept_ok listen_fd le s \<Longrightarrow> wok ws le \<Longrightarrow>
    aio_turn env le listen_fd (s\<lparr>awrs := ws\<rparr>) = Inr (go, s') \<Longrightarrow>
    aio_step wok env listen_fd (True, s) (go, s')"
| stop: "\<not> a_running s \<Longrightarrow> aio_step wok env listen_fd (True, s) (False, s)"

inductive_cases aio_stepE: "aio_step wok env listen_fd (b, s) (b', s')"

end
