(* ===== verification/AioStreams.thy ===== *)
theory AioStreams
  imports AioServer
begin

section \<open>What the asynchronous server keeps track of\<close>

text \<open>
  The invariant of \<^verbatim>\<open>aio-file-server.c\<close>. The table of connections is a multiset here: a turn of the loop
  takes one client out, works on it and puts it back, fills a hole with the last slot, or adds a client,
  and none of this depends on the order. Blocks and descriptors are accounted for by counting: every
  address is owned by exactly as many of the clients and the cache as there are live blocks at it,
  which is to say that nothing is shared, nothing is lost and nothing is freed twice.

  What a client sees is stated against an interface, the locale \<open>reply_world\<close>: which replies a request
  may get and which bytes a file may hold, with the laws that tie them to what the system calls answer.
  It has two instances, one for arbitrary files and one for a file system at rest.
\<close>

subsection \<open>Results that may meet a moved control block\<close>

abbreviation aok :: "('a \<Rightarrow> bool) \<Rightarrow> 'a cres \<Rightarrow> bool" where
  "aok \<equiv> okin {Pending, MovedBlock}"

lemmas aok_bind = okin_bind_eq [of "{Pending, MovedBlock}"]
lemmas aok_mono = okin_mono [of "{Pending, MovedBlock}"]

subsection \<open>Who owns what\<close>

definition mem_of :: "AClient \<Rightarrow> addr multiset" where
  "mem_of c = (case state c of STATE_AIO \<Rightarrow> {#a_resp c#} | STATE_WRITING \<Rightarrow> {#a_resp c#} | _ \<Rightarrow> {#})"

definition file_of :: "AClient \<Rightarrow> int multiset" where
  "file_of c = (case state c of STATE_AIO \<Rightarrow> {#file_fd c#} | STATE_SENDFILE \<Rightarrow> {#sf_fd c#} | _ \<Rightarrow> {#})"

lemmas aio_of = mem_of_def file_of_def

abbreviation mems :: "AClient multiset \<Rightarrow> addr multiset" where
  "mems M \<equiv> \<Sum>\<^sub># (image_mset mem_of M)"

abbreviation files_of :: "AClient multiset \<Rightarrow> int multiset" where
  "files_of M \<equiv> \<Sum>\<^sub># (image_mset file_of M)"

abbreviation one_if :: "bool \<Rightarrow> nat" where
  "one_if b \<equiv> (if b then 1 else 0)"

lemma one_if_zero: "one_if b = 0 \<Longrightarrow> \<not> b"
  by (simp split: if_splits)

lemma one_if_pos: "0 < one_if b \<Longrightarrow> b"
  by (simp split: if_splits)

definition accounts :: "AClient multiset \<Rightarrow> filecache \<Rightarrow> heap \<Rightarrow> bool" where
  "accounts M k h \<longleftrightarrow> (\<forall>a. count (mems M) a + one_if (a \<in> cache_owned k) = one_if (h a \<noteq> None))"

definition holds_files :: "AClient multiset \<Rightarrow> int set \<Rightarrow> bool" where
  "holds_files M F \<longleftrightarrow> (\<forall>x. count (files_of M) x = one_if (x \<in> F))"

definition holds_socks :: "AClient multiset \<Rightarrow> int set \<Rightarrow> bool" where
  "holds_socks M S \<longleftrightarrow> (\<forall>x. count (image_mset sock M) x = one_if (x \<in> S))"

definition block_ok :: "heap \<Rightarrow> AClient \<Rightarrow> bool" where
  "block_ok h c \<longleftrightarrow> (case state c of
     STATE_READING \<Rightarrow> a_resp c = 0
   | STATE_SENDFILE \<Rightarrow> a_resp c = 0 \<and> 0 \<le> sf_fd c
   | STATE_AIO \<Rightarrow> a_resp c \<noteq> 0 \<and> a_sent c = 0 \<and> aio_off c + aio_nbytes c = a_size c \<and>
       (\<exists>b. h (a_resp c) = Some b \<and> length b = a_size c)
   | STATE_WRITING \<Rightarrow> a_resp c \<noteq> 0 \<and> a_sent c \<le> a_size c \<and> (\<exists>b. h (a_resp c) = Some b \<and> length b = a_size c))"

definition client_ok :: "heap \<Rightarrow> AClient \<Rightarrow> bool" where
  "client_ok h c \<longleftrightarrow> length (req_buf c) = REQ_BUF_SIZE \<and> req_len c \<le> REQ_BUF_SIZE - 1 \<and>
     length (cache_key c) < PATH_MAX \<and> block_ok h c"

lemma client_ok_heap: "client_ok h c \<Longrightarrow> (\<And>a. a \<in># mem_of c \<Longrightarrow> h' a = h a) \<Longrightarrow> client_ok h' c"
  by (cases "state c") (auto simp: client_ok_def block_ok_def mem_of_def)

lemma not_in_count: "x \<notin># M \<longleftrightarrow> count M x = 0"
  by (rule not_in_iff)

lemma in_count: "x \<in># M \<longleftrightarrow> 0 < count M x"
  by (rule count_greater_zero_iff [symmetric])

text \<open>Client and stream conditions look at the state only at what the client owns.\<close>

definition same_for :: "AClient \<Rightarrow> aserver \<Rightarrow> aserver \<Rightarrow> bool" where
  "same_for d s s' \<longleftrightarrow> peer s' (sock d) = peer s (sock d) \<and> (\<forall>a\<in>#mem_of d. aheap s' a = aheap s a) \<and>
     (\<forall>x\<in>#file_of d. a_path s' x = a_path s x)"

subsection \<open>What the kernel answers\<close>

text \<open>Documented behaviour: \<^verbatim>\<open>realpath\<close> fits into \<^verbatim>\<open>PATH_MAX\<close> bytes, a size is not negative.\<close>

definition aview_ok :: "areqview \<Rightarrow> bool" where
  "aview_ok v \<longleftrightarrow> (\<forall>p q. v_realpath v p = Some q \<longrightarrow> length q < PATH_MAX) \<and>
     (\<forall>p st. v_stat v p = Some st \<longrightarrow> 0 \<le> st_size st \<and> st_size st < 2 ^ 63)"

text \<open>The name \<open>f\<close> leads to the path \<open>p\<close> inside the document root.\<close>

definition inside :: "string \<Rightarrow> areqview \<Rightarrow> string \<Rightarrow> string \<Rightarrow> bool" where
  "inside root v f p \<longleftrightarrow>
     f \<noteq> [] \<and> hd f \<noteq> CHR ''/'' \<and> v_realpath v (candidate root f) = Some p \<and> in_docroot root p"

text \<open>A kernel that always has a descriptor left.\<close>

definition gives_fd :: "areqview \<Rightarrow> bool" where
  "gives_fd v \<longleftrightarrow> (\<forall>used. finite used \<longrightarrow> 0 \<le> v_fd v used \<and> v_fd v used \<notin> used)"

abbreviation ok_frame :: "bytes \<Rightarrow> bytes" where
  "ok_frame d \<equiv> ok_header (int (length d)) @ d"

subsection \<open>Sending a message\<close>

lemma write_loop_fault: "write_loop ws bs = Inl e \<Longrightarrow> e = Pending"
  by (induction ws bs rule: write_loop.induct) (auto simp: cbind_def split: if_splits sum.splits)

text \<open>The state after \<^verbatim>\<open>sock_send\<close>: a part of the message has been taken, all of it if no write failed.\<close>

definition sends :: "int \<Rightarrow> bytes \<Rightarrow> aserver \<Rightarrow> aserver \<Rightarrow> bool" where
  "sends cfd msg s s' \<longleftrightarrow> (\<exists>out ws. s' = s\<lparr>awrs := ws, peer := (peer s)(cfd := peer s cfd @ out)\<rparr> \<and>
     (no_error (awrs s) \<longrightarrow> out = msg \<and> no_error ws))"

lemma sock_send_ok: "aok (sends cfd msg s) (sock_send cfd msg s)"
proof (cases "write_loop (awrs s) msg")
  case (Inl e)
  then show ?thesis using write_loop_fault [OF Inl] by (simp add: sock_send_def)
next
  case (Inr x)
  obtain r out ws where x: "x = (r, out, ws)" by (cases x)
  from write_loop_complete [OF Inr [unfolded x]] show ?thesis by (auto simp: sock_send_def sends_def Inr x)
qed

lemma sends_clean:
  assumes "sends cfd msg s s'" "no_error (awrs s)"
  shows "no_error (awrs s')" "peer s' cfd = peer s cfd @ msg"
  using assms by (auto simp: sends_def)

lemma sends_same:
  assumes "sends cfd msg s s'"
  shows "a_docroot s' = a_docroot s" "acache s' = acache s" "aheap s' = aheap s" "asocks s' = asocks s" "afiles s' = afiles s"
    "a_path s' = a_path s" "x \<noteq> cfd \<Longrightarrow> peer s' x = peer s x" "aclients s' = aclients s" "anum s' = anum s"
    "a_rcvd s' = a_rcvd s"
  using assms by (auto simp: sends_def)

text \<open>What the functions that serve a request keep of the rest of the state.\<close>

definition keeps :: "aserver \<Rightarrow> aserver \<Rightarrow> bool" where
  "keeps s s' \<longleftrightarrow> aclients s' = aclients s \<and> anum s' = anum s \<and> asocks s' = asocks s \<and> a_rcvd s' = a_rcvd s"

lemma keeps_refl [simp]: "keeps s s"
  by (simp add: keeps_def)

lemma keeps_trans: "keeps s t \<Longrightarrow> keeps t u \<Longrightarrow> keeps s u"
  by (simp add: keeps_def)

lemma sends_keeps: "sends cfd msg s s' \<Longrightarrow> keeps s s'"
  by (simp add: keeps_def sends_same)

subsection \<open>The interface to a world of files\<close>

text \<open>
  \<open>ans f r\<close>: the reply \<open>r\<close> is right for the request \<open>f\<close>; \<open>content p d\<close>: the file at \<open>p\<close> may hold \<open>d\<close>. The
  laws say what the answers of the calls to one request (\<open>vok\<close>) and in one turn (\<open>kok\<close>) entail. Nothing
  is claimed of the replies unless \<open>clean\<close>, which stands for a socket that takes every byte.
\<close>

locale reply_world =
  fixes clean :: bool and root :: string
    and ans :: "string \<Rightarrow> bytes \<Rightarrow> bool" and content :: "string \<Rightarrow> bytes \<Rightarrow> bool"
    and vok :: "areqview \<Rightarrow> bool" and kok :: "aloop_env \<Rightarrow> bool"
  assumes vok_view: "vok v \<Longrightarrow> aview_ok v"
    and ans_empty: "ans [] (err_reply ''empty filename'')"
    and ans_absolute: "f \<noteq> [] \<Longrightarrow> hd f = CHR ''/'' \<Longrightarrow> ans f (err_reply ''absolute paths not allowed'')"
    and ans_missing: "vok v \<Longrightarrow> f \<noteq> [] \<Longrightarrow> hd f \<noteq> CHR ''/'' \<Longrightarrow> v_realpath v (candidate root f) = None \<Longrightarrow>
      ans f (err_reply ''not found'')"
    and ans_outside: "vok v \<Longrightarrow> f \<noteq> [] \<Longrightarrow> hd f \<noteq> CHR ''/'' \<Longrightarrow> v_realpath v (candidate root f) = Some p \<Longrightarrow>
      \<not> in_docroot root p \<Longrightarrow> ans f (err_reply ''access denied'')"
    and ans_stat: "vok v \<Longrightarrow> inside root v f p \<Longrightarrow> v_stat v p = None \<Longrightarrow>
      ans f (err_reply (if j then ''stat failed'' else ''not a regular file''))"
    and ans_irregular: "vok v \<Longrightarrow> inside root v f p \<Longrightarrow> v_stat v p = Some st \<Longrightarrow> \<not> st_reg st \<Longrightarrow>
      ans f (err_reply ''not a regular file'')"
    and ans_open: "vok v \<Longrightarrow> inside root v f p \<Longrightarrow> v_stat v p = Some st \<Longrightarrow> st_reg st \<Longrightarrow>
      (v_open v p \<Longrightarrow> \<not> gives_fd v) \<Longrightarrow> ans f (err_reply ''open failed'')"
    and ans_memory: "vok v \<Longrightarrow> inside root v f p \<Longrightarrow> content p d \<Longrightarrow> \<not> gives_memory (v_malloc v) \<Longrightarrow>
      ans f (err_reply ''out of memory'')"
    and ans_queue: "vok v \<Longrightarrow> inside root v f p \<Longrightarrow> content p d \<Longrightarrow> \<not> v_aio v \<Longrightarrow> ans f (err_reply ''aio_read failed'')"
    and ans_read: "vok v \<Longrightarrow> inside root v f p \<Longrightarrow> content p d \<Longrightarrow> kok le \<Longrightarrow> ae_aio le x p = AioFailed \<Longrightarrow>
      ans f (err_reply ''read error'')"
    and ans_file: "vok v \<Longrightarrow> inside root v f p \<Longrightarrow> content p d \<Longrightarrow> ans f (ok_frame d)"
    and stat_content: "vok v \<Longrightarrow> v_stat v p = Some st \<Longrightarrow> st_reg st \<Longrightarrow> v_open v p \<Longrightarrow>
      \<exists>d. content p d \<and> int (length d) = st_size st"
    and aio_content: "kok le \<Longrightarrow> ae_aio le x p = AioRead bs \<Longrightarrow> content p d \<Longrightarrow> length junk = length d \<Longrightarrow>
      content p (blit junk 0 (take (length d) bs))"
    and sendfile_content: "kok le \<Longrightarrow> ae_sendfile le x p off = R bs \<Longrightarrow> content p d \<Longrightarrow> off \<le> length d \<Longrightarrow>
      \<exists>d'. content p d' \<and> length d' = length d \<and>
        take (off + length (take (length d - off) bs)) d' = take off d @ take (length d - off) bs"
begin

subsection \<open>Where a client is in its stream of replies\<close>

text \<open>
  All of the requests are answered, or all but the last one, whose reply is on its way: the frame of
  the content \<open>d\<close> of the file at \<open>p\<close>, of which \<open>sofar\<close> has been sent.
\<close>

definition answered :: "string list \<Rightarrow> bytes \<Rightarrow> bool" where
  "answered asked out \<longleftrightarrow> (\<exists>rs. list_all2 ans asked rs \<and> out = concat rs)"

definition halfway :: "string list \<Rightarrow> string \<Rightarrow> bytes \<Rightarrow> bytes \<Rightarrow> bytes \<Rightarrow> bool" where
  "halfway asked p d sofar out \<longleftrightarrow> content p d \<and>
     (\<exists>fs f v pre. asked = fs @ [f] \<and> answered fs pre \<and> vok v \<and> inside root v f p \<and> out = pre @ sofar)"

definition stream_ok :: "string list \<Rightarrow> aserver \<Rightarrow> AClient \<Rightarrow> bool" where
  "stream_ok asked s c \<longleftrightarrow> (let out = peer s (sock c); b = the (aheap s (a_resp c)); p = cache_key c
     in case state c of
       STATE_READING \<Rightarrow> answered asked out
     | STATE_AIO \<Rightarrow> (\<exists>d. halfway asked p d [] out \<and> a_path s (file_fd c) = p \<and> aio_nbytes c = length d \<and>
         aio_off c = length (ok_header (int (length d))) \<and> take (aio_off c) b = ok_header (int (length d)))
     | STATE_WRITING \<Rightarrow> (\<exists>d. halfway asked p d (take (a_sent c) b) out \<and> b = ok_frame d)
     | STATE_SENDFILE \<Rightarrow> (\<exists>d. halfway asked p d (ok_header (int (length d)) @ take (sf_offset c) d) out \<and>
         a_path s (sf_fd c) = p \<and> sf_offset c \<le> length d \<and> sf_remaining c = length d - sf_offset c))"

definition cached_ok :: "aserver \<Rightarrow> bool" where
  "cached_ok s \<longleftrightarrow> (\<forall>(p, r)\<in>set (cache_entries (acache s) (aheap s)). \<exists>d. content p d \<and> r = ok_frame d)"

text \<open>The state of the server with the clients \<open>M\<close>; \<open>A\<close> tells which requests came on a connection so far.\<close>

definition good :: "(int \<Rightarrow> string list) \<Rightarrow> AClient multiset \<Rightarrow> aserver \<Rightarrow> bool" where
  "good A M s \<longleftrightarrow> a_docroot s = root \<and>
     cache_inv (acache s) (aheap s) \<and> aheap s 0 = None \<and> accounts M (acache s) (aheap s) \<and>
     holds_files M (afiles s) \<and> holds_socks M (asocks s) \<and> (\<forall>c\<in>#M. client_ok (aheap s) c) \<and>
     (clean \<longrightarrow> no_error (awrs s) \<and> cached_ok s \<and> (\<forall>c\<in>#M. stream_ok (A (sock c)) s c))"

lemma answered_Nil [simp]: "answered [] []"
  by (simp add: answered_def)

lemma answered_snoc: "answered fs out \<Longrightarrow> ans f r \<Longrightarrow> answered (fs @ [f]) (out @ r)"
  unfolding answered_def by (elim exE conjE, rule_tac x = "rs @ [r]" in exI) (simp add: list_all2_appendI)

lemma halfway_done: "halfway asked p d (ok_frame d) out \<Longrightarrow> answered asked out"
  unfolding halfway_def using answered_snoc ans_file by blast

lemma halfway_fail:
  assumes "halfway asked p d [] out" "kok le" "ae_aio le x p = AioFailed"
  shows "answered asked (out @ err_reply ''read error'')"
  using assms answered_snoc [OF _ ans_read] unfolding halfway_def by fastforce

lemma halfway_more: "halfway asked p d x out \<Longrightarrow> halfway asked p d (x @ y) (out @ y)"
  unfolding halfway_def by fastforce

lemma halfway_content: "halfway asked p d x out \<Longrightarrow> content p d' \<Longrightarrow> halfway asked p d' x out"
  unfolding halfway_def by blast

lemma halfway_start:
  "answered fs out \<Longrightarrow> vok v \<Longrightarrow> inside root v f p \<Longrightarrow> content p d \<Longrightarrow> halfway (fs @ [f]) p d [] out"
  unfolding halfway_def by blast

subsection \<open>Consequences of the invariant\<close>

lemma good_mem: "good A M s \<Longrightarrow> count (mems M) a + one_if (a \<in> cache_owned (acache s)) = one_if (aheap s a \<noteq> None)"
  unfolding good_def accounts_def by blast

lemma good_file: "good A M s \<Longrightarrow> count (files_of M) x = one_if (x \<in> afiles s)"
  unfolding good_def holds_files_def by blast

lemma good_sock: "good A M s \<Longrightarrow> count (image_mset sock M) x = one_if (x \<in> asocks s)"
  unfolding good_def holds_socks_def by blast

lemma good_cache:
  assumes "good A M s"
  shows "cache_inv (acache s) (aheap s)" "aheap s 0 = None" "a_docroot s = root"
  using assms unfolding good_def by blast+

lemma good_client: "good A M s \<Longrightarrow> c \<in># M \<Longrightarrow> client_ok (aheap s) c"
  unfolding good_def by blast

lemma good_clean:
  assumes "good A M s" clean
  shows "no_error (awrs s)" "cached_ok s" "c \<in># M \<Longrightarrow> stream_ok (A (sock c)) s c"
  using assms unfolding good_def by blast+

text \<open>Only so many blocks and descriptors are in use.\<close>

lemma good_finite:
  assumes g: "good A M s"
  shows "finite (dom (aheap s))" "finite (afiles s \<union> asocks s)"
proof -
  have "a \<in> set_mset (mems M) \<union> cache_owned (acache s)" if "a \<in> dom (aheap s)" for a
  proof -
    have "count (mems M) a + one_if (a \<in> cache_owned (acache s)) = 1" using good_mem [OF g, of a] that by auto
    then show ?thesis unfolding Un_iff in_count by (cases "a \<in> cache_owned (acache s)") simp_all
  qed
  then show "finite (dom (aheap s))"
    by (intro finite_subset [of "dom (aheap s)" "set_mset (mems M) \<union> cache_owned (acache s)"])
      (auto simp: cache_owned_def)
  have "afiles s \<subseteq> set_mset (files_of M)" "asocks s \<subseteq> set_mset (image_mset sock M)"
    using good_file [OF g] good_sock [OF g] by (metis in_count subsetI zero_less_one)+
  then show "finite (afiles s \<union> asocks s)" by (meson finite_UnI finite_set_mset finite_subset)
qed

lemma good_cong:
  assumes "a_docroot s' = a_docroot s" "acache s' = acache s" "aheap s' = aheap s" "afiles s' = afiles s"
    "asocks s' = asocks s" "awrs s' = awrs s" "peer s' = peer s" "a_path s' = a_path s"
  shows "good A M s' = good A M s"
  unfolding good_def cached_ok_def stream_ok_def assms by (rule refl)

lemma good_owned:
  assumes g: "good A M s" and a: "a \<in># mems M"
  shows "a \<notin> cache_owned (acache s)"
proof -
  have "count (mems M) a + one_if (a \<in> cache_owned (acache s)) \<le> 1" using good_mem [OF g, of a] by (simp split: if_splits)
  moreover have "0 < count (mems M) a" using a by (simp only: in_count)
  ultimately show ?thesis by (intro one_if_zero) linarith
qed

lemma good_others:
  assumes g: "good A (add_mset c X) s" and d: "d \<in># X"
  shows "sock d \<noteq> sock c" "a \<in># mem_of d \<Longrightarrow> a \<in># mems X" "x \<in># file_of d \<Longrightarrow> x \<in># files_of X"
    "a \<in># mems X \<Longrightarrow> a \<notin># mem_of c" "x \<in># files_of X \<Longrightarrow> x \<in> afiles s"
proof -
  have "sock c \<notin># image_mset sock X"
    unfolding not_in_count using good_sock [OF g, of "sock c"] by (simp split: if_splits)
  with d show "sock d \<noteq> sock c" by (metis image_eqI set_image_mset)
  show "a \<in># mem_of d \<Longrightarrow> a \<in># mems X" "x \<in># file_of d \<Longrightarrow> x \<in># files_of X" using d by auto
  have m: "count (mem_of c) a + count (mems X) a + one_if (a \<in> cache_owned (acache s)) \<le> 1"
    using good_mem [OF g, of a] by (simp split: if_splits)
  show "a \<in># mems X \<Longrightarrow> a \<notin># mem_of c" unfolding not_in_count in_count using m by linarith
  have f: "count (file_of c) x + count (files_of X) x = one_if (x \<in> afiles s)"
    using good_file [OF g, of x] by simp
  show "x \<in># files_of X \<Longrightarrow> x \<in> afiles s"
    unfolding in_count by (rule one_if_pos) (use f in linarith)
qed

lemma stream_ok_same: "same_for c s s' \<Longrightarrow> stream_ok asked s c \<Longrightarrow> stream_ok asked s' c"
  by (cases "state c") (simp_all add: stream_ok_def same_for_def aio_of Let_def)

subsection \<open>One client changes\<close>

lemma good_update:
  assumes g: "good A (add_mset c X) s"
    and cache: "a_docroot s' = a_docroot s" "cache_inv (acache s') (aheap s')" "aheap s' 0 = None"
    and acc: "accounts (add_mset c' X) (acache s') (aheap s')" and fls: "holds_files (add_mset c' X) (afiles s')"
    and same: "asocks s' = asocks s" "sock c' = sock c" "\<forall>x. x \<noteq> sock c \<longrightarrow> peer s' x = peer s x \<and> A' x = A x"
      "\<forall>x\<in>#files_of X. a_path s' x = a_path s x" "\<forall>a\<in>#mems X. aheap s' a = aheap s a"
    and ok: "client_ok (aheap s') c'"
    and clean: "clean \<Longrightarrow> no_error (awrs s') \<and> cached_ok s' \<and> stream_ok (A' (sock c)) s' c'"
  shows "good A' (add_mset c' X) s'"
proof -
  have "client_ok (aheap s') d" if "d \<in># X" for d
    by (rule client_ok_heap [OF good_client [OF g]]) (use that same(5) in auto)
  moreover have "stream_ok (A' (sock d)) s' d" if "d \<in># X" clean for d
  proof -
    have "sock d \<noteq> sock c" by (rule good_others(1) [OF g that(1)])
    then have "same_for d s s'" "A' (sock d) = A (sock d)"
      unfolding same_for_def using same(3-5) that(1) by auto
    then show ?thesis using stream_ok_same good_clean(3) [OF g that(2), of d] that(1) by simp
  qed
  moreover have "holds_socks (add_mset c' X) (asocks s')" using g same by (simp add: good_def holds_socks_def)
  ultimately show ?thesis using cache acc fls ok clean same(2) good_cache(3) [OF g] by (simp add: good_def)
qed

text \<open>
  The cache is left alone and at most one block of the heap changes. The client pays for what the
  heap and the table of descriptors gain or lose.
\<close>

lemma good_step:
  assumes g: "good A (add_mset c X) s"
    and s': "a_docroot s' = a_docroot s" "acache s' = acache s" "aheap s' = (aheap s)(r := ob)" "asocks s' = asocks s"
    and r: "r \<notin> cache_owned (acache s)" "r \<notin># mems X" "r = 0 \<longrightarrow> ob = None"
    and same: "sock c' = sock c" "\<forall>x. x \<noteq> sock c \<longrightarrow> peer s' x = peer s x \<and> A' x = A x"
      "\<forall>x\<in>afiles s. a_path s' x = a_path s x"
    and mem: "\<forall>a. count (mem_of c') a + one_if (aheap s a \<noteq> None) = count (mem_of c) a + one_if (aheap s' a \<noteq> None)"
    and fl: "\<forall>x. count (file_of c') x + one_if (x \<in> afiles s) = count (file_of c) x + one_if (x \<in> afiles s')"
    and ok: "client_ok (aheap s') c'"
    and clean: "clean \<Longrightarrow> no_error (awrs s) \<Longrightarrow> stream_ok (A (sock c)) s c \<Longrightarrow>
      no_error (awrs s') \<and> stream_ok (A' (sock c)) s' c'"
  shows "good A' (add_mset c' X) s'"
proof (rule good_update [OF g])
  note k = cache_inv_other [OF good_cache(1) [OF g] r(1), of ob]
  show "cache_inv (acache s') (aheap s')" using k(1) s' by simp
  show "aheap s' 0 = None" using good_cache(2) [OF g] s'(3) r(3) by simp
  show "accounts (add_mset c' X) (acache s') (aheap s')" unfolding accounts_def
  proof
    fix a
    have "count (mem_of c) a + count (mems X) a + one_if (a \<in> cache_owned (acache s)) = one_if (aheap s a \<noteq> None)"
      using good_mem [OF g, of a] by simp
    then have "count (mem_of c') a + count (mems X) a + one_if (a \<in> cache_owned (acache s)) = one_if (aheap s' a \<noteq> None)"
      using mem [rule_format, of a] by linarith
    then show "count (mems (add_mset c' X)) a + one_if (a \<in> cache_owned (acache s')) = one_if (aheap s' a \<noteq> None)"
      using s'(2) by simp
  qed
  show "holds_files (add_mset c' X) (afiles s')" unfolding holds_files_def
  proof
    fix x
    have "count (file_of c) x + count (files_of X) x = one_if (x \<in> afiles s)" using good_file [OF g, of x] by simp
    then have "count (file_of c') x + count (files_of X) x = one_if (x \<in> afiles s')"
      using fl [rule_format, of x] by linarith
    then show "count (files_of (add_mset c' X)) x = one_if (x \<in> afiles s')" by simp
  qed
  show "\<forall>x\<in>#files_of X. a_path s' x = a_path s x" using same(3) good_others(3,5) [OF g] by fastforce
  show "\<forall>a\<in>#mems X. aheap s' a = aheap s a" using r(2) s'(3) by auto
  show "no_error (awrs s') \<and> cached_ok s' \<and> stream_ok (A' (sock c)) s' c'" if clean
    using clean [OF that good_clean(1,3) [OF g that]] good_clean(2) [OF g that] k(2) s'(2,3) by (simp add: cached_ok_def)
qed (use s' same ok in simp_all)

lemma good_stay:
  assumes g: "good A (add_mset c X) s"
    and s': "a_docroot s' = a_docroot s" "acache s' = acache s" "aheap s' = aheap s" "asocks s' = asocks s"
    and same: "sock c' = sock c" "\<forall>x. x \<noteq> sock c \<longrightarrow> peer s' x = peer s x \<and> A' x = A x"
      "\<forall>x\<in>afiles s. a_path s' x = a_path s x" "mem_of c' = mem_of c"
    and fl: "\<forall>x. count (file_of c') x + one_if (x \<in> afiles s) = count (file_of c) x + one_if (x \<in> afiles s')"
    and ok: "client_ok (aheap s) c'"
    and clean: "clean \<Longrightarrow> no_error (awrs s) \<Longrightarrow> stream_ok (A (sock c)) s c \<Longrightarrow>
      no_error (awrs s') \<and> stream_ok (A' (sock c)) s' c'"
  shows "good A' (add_mset c' X) s'"
proof (rule good_step [OF g s'(1,2) _ s'(4), of 0 None])
  have z: "count (mems (add_mset c X)) 0 + one_if (0 \<in> cache_owned (acache s)) = 0"
    using good_mem [OF g, of 0] good_cache(2) [OF g] by simp
  then show "0 \<notin> cache_owned (acache s)" by (intro one_if_zero) simp
  from z show "0 \<notin># mems X" unfolding not_in_count by simp
  show "aheap s' = (aheap s)(0 := None)" using good_cache(2) [OF g] s'(3) by (simp add: fun_upd_idem)
qed (use assms in simp_all)

subsection \<open>Between two replies\<close>

text \<open>One more request on the connection of a client, and what holds once it has been handled.\<close>

abbreviation asks :: "(int \<Rightarrow> string list) \<Rightarrow> int \<Rightarrow> string \<Rightarrow> int \<Rightarrow> string list" where
  "asks A x f \<equiv> A(x := A x @ [f])"

definition served :: "(int \<Rightarrow> string list) \<Rightarrow> AClient multiset \<Rightarrow> AClient \<Rightarrow> aserver \<Rightarrow> AClient \<times> aserver \<Rightarrow> bool" where
  "served A X c s = (\<lambda>(c', s'). good A (add_mset c' X) s' \<and> keeps s s' \<and>
     sock c' = sock c \<and> req_buf c' = req_buf c \<and> req_len c' = req_len c)"

text \<open>A client between two replies owns nothing, and most of its fields do not matter.\<close>

lemma reading_of:
  assumes "good A (add_mset c X) s" "state c = STATE_READING"
  shows "mem_of c = {#}" "file_of c = {#}" "a_resp c = 0"
  using good_client [OF assms(1), of c] assms(2) by (simp_all add: aio_of client_ok_def block_ok_def)

lemma good_reading:
  assumes g: "good A (add_mset c X) s" and st: "state c = STATE_READING"
    and c': "state c' = STATE_READING" "sock c' = sock c" "a_resp c' = 0" "length (req_buf c') = REQ_BUF_SIZE"
      "req_len c' \<le> REQ_BUF_SIZE - 1" "length (cache_key c') < PATH_MAX"
  shows "good A (add_mset c' X) s"
  by (rule good_stay [OF g])
    (use reading_of [OF g st] st c' in \<open>auto simp: aio_of client_ok_def block_ok_def stream_ok_def Let_def\<close>)

lemma good_req:
  assumes g: "good A (add_mset c X) s" and "length b = REQ_BUF_SIZE" "n \<le> REQ_BUF_SIZE - 1"
  shows "good A (add_mset (c\<lparr>req_buf := b, req_len := n\<rparr>) X) s"
proof (rule good_stay [OF g])
  let ?c = "c\<lparr>req_buf := b, req_len := n\<rparr>"
  have same: "mem_of ?c = mem_of c" "file_of ?c = file_of c" "block_ok h ?c = block_ok h c"
    "stream_ok asked s ?c = stream_ok asked s c" for h asked
    by (cases "state c"; simp add: aio_of block_ok_def stream_ok_def Let_def)+
  show "client_ok (aheap s) ?c" using good_client [OF g, of c] assms by (simp add: client_ok_def same)
  show "mem_of ?c = mem_of c" "\<forall>x. count (file_of ?c) x + one_if (x \<in> afiles s) = count (file_of c) x + one_if (x \<in> afiles s)"
    by (simp_all add: same)
  show "no_error (awrs s) \<and> stream_ok (A (sock c)) s ?c" if "no_error (awrs s)" "stream_ok (A (sock c)) s c"
    using that by (simp add: same)
qed simp_all

lemma good_sends:
  assumes g: "good A (add_mset c X) s" and st: "state c = STATE_READING" and a: "ans f (err_reply r)"
    and sd: "sends (sock c) (err_reply r) s s'"
  shows "good (asks A (sock c) f) (add_mset c X) s'"
proof (rule good_stay [OF g])
  show "no_error (awrs s') \<and> stream_ok (asks A (sock c) f (sock c)) s' c"
    if "no_error (awrs s)" "stream_ok (A (sock c)) s c"
    using that sends_clean [OF sd] answered_snoc [OF _ a] st by (simp add: stream_ok_def Let_def)
qed (use sends_same [OF sd] good_client [OF g, of c] in simp_all)

lemma aio_refuse_ok:
  assumes g: "good A (add_mset c X) s" and st: "state c = STATE_READING" and a: "ans f (err_reply r)"
  shows "aok (served (asks A (sock c) f) X c s) (aio_refuse c r s)"
  unfolding aio_refuse_def
  by (rule aok_bind [OF sock_send_ok]) (simp add: served_def good_sends [OF g st a] sends_keeps)

end

end
