(* ===== verification/AioRequests.thy ===== *)
theory AioRequests
  imports AioStreams
begin

section \<open>Requests of the asynchronous server\<close>

text \<open>
  \<^verbatim>\<open>begin_file_serve\<close>, \<^verbatim>\<open>check_aio\<close> and the loop over the lines in the buffer keep the invariant: a request is
  refused at once, or its reply is under way and the client is in one of the other three states.
\<close>

lemma sends_afiles: "sends x m (s\<lparr>afiles := F\<rparr>) s' \<Longrightarrow> sends x m s (s'\<lparr>afiles := afiles s\<rparr>)"
  unfolding sends_def by (elim exE conjE, rule_tac x = out in exI, rule_tac x = ws in exI) simp

lemma gives_fd_open:
  assumes "gives_fd v" "finite (afiles s \<union> asocks s)" "v_open v p"
  shows "can_open v p s"
  using assms(1) [unfolded gives_fd_def, rule_format, OF assms(2)] assms(3) by (simp add: can_open_def new_fd_def)

text \<open>The client while its file is read into the block \<open>r\<close>.\<close>

definition reading_file :: "int \<Rightarrow> addr \<Rightarrow> bytes \<Rightarrow> nat \<Rightarrow> AClient \<Rightarrow> AClient" where
  "reading_file x r hdr n c = c\<lparr>file_fd := x, a_resp := r, a_size := length hdr + n, a_sent := 0,
     aio_off := length hdr, aio_nbytes := n\<rparr>"

text \<open>
  The bytes \<open>inp\<close> received on a connection are the lines of the requests \<open>asked\<close> so far and a \<open>rest\<close>.
\<close>

definition heard :: "string list \<Rightarrow> bytes \<Rightarrow> bytes \<Rightarrow> bool" where
  "heard asked inp rest \<longleftrightarrow>
     (\<exists>ls. inp = concat (map (\<lambda>l. l @ [NL]) ls) @ rest \<and> (\<forall>l\<in>set ls. NL \<notin> set l) \<and> asked = map request_of ls)"

lemma heard_line: "heard asked inp (l @ NL # rest) \<Longrightarrow> NL \<notin> set l \<Longrightarrow> heard (asked @ [request_of l]) inp rest"
  unfolding heard_def by (elim exE conjE, rule_tac x = "ls @ [l]" in exI) auto

lemma heard_more: "heard asked inp rest \<Longrightarrow> heard asked (inp @ d) (rest @ d)"
  unfolding heard_def by auto

context reply_world
begin

subsection \<open>Starting a transfer\<close>

lemma good_path:
  assumes g: "good A (add_mset c X) s" and st: "state c = STATE_READING" and x: "x \<notin> afiles s"
  shows "good A (add_mset c X) (s\<lparr>a_path := (a_path s)(x := p)\<rparr>)"
  by (rule good_stay [OF g])
    (use st x good_client [OF g, of c] in \<open>auto simp: stream_ok_def Let_def\<close>)

lemma start_sendfile_ok:
  assumes g: "good A (add_mset c X) s" and st: "state c = STATE_READING"
    and x: "x \<notin> afiles s" "0 \<le> x" "a_path s x = cache_key c"
    and f: "vok v" "inside root v f (cache_key c)" "content (cache_key c) d"
  shows "aok (served (asks A (sock c) f) X c s)
    (start_sendfile x (ok_header (int (length d))) (length d) c (s\<lparr>afiles := insert x (afiles s)\<rparr>))"
  unfolding start_sendfile_def
proof (rule aok_bind [OF sock_send_ok])
  let ?s = "s\<lparr>afiles := insert x (afiles s)\<rparr>" and ?h = "ok_header (int (length d))"
  let ?c = "c\<lparr>sf_fd := x, sf_offset := 0, sf_remaining := length d, state := STATE_SENDFILE\<rparr>"
  fix s' assume sd: "sends (sock c) ?h ?s s'"
  have "good (asks A (sock c) f) (add_mset ?c X) s'"
  proof (rule good_stay [OF g])
    show "no_error (awrs s') \<and> stream_ok (asks A (sock c) f (sock c)) s' ?c"
      if ne: "no_error (awrs s)" and str: "stream_ok (A (sock c)) s c"
    proof -
      have "answered (A (sock c)) (peer s (sock c))" using str st by (simp add: stream_ok_def Let_def)
      from halfway_more [OF halfway_start [OF this f], of ?h] show ?thesis
        using ne sends_clean [OF sd] sends_same(6) [OF sd] x(3) by (auto simp: stream_ok_def Let_def)
    qed
  qed (use sends_same [OF sd] x reading_of [OF g st] good_client [OF g, of c] st in
      \<open>auto simp: aio_of client_ok_def block_ok_def\<close>)
  then show "aok (served (asks A (sock c) f) X c s) (Inr (?c, s'))"
    using sends_keeps [OF sd] by (simp add: served_def keeps_def)
qed

text \<open>A block is allocated and written for a client.\<close>

lemma malloc_block:
  assumes g: "good A (add_mset c X) s" and m: "h_malloc ch n (aheap s) = Some (r, h0)" and len: "length bs \<le> n"
  shows "\<exists>b. h_write r 0 bs h0 = Inr ((aheap s)(r \<mapsto> b)) \<and> length b = n \<and> take (length bs) b = bs \<and>
    aheap s r = None \<and> r \<noteq> 0 \<and> r \<notin> cache_owned (acache s) \<and> r \<notin># mems X \<and> r \<notin># mem_of c"
proof -
  from h_malloc_SomeD [OF m] obtain b0 where b0: "r \<noteq> 0" "aheap s r = None" "length b0 = n" "h0 = (aheap s)(r \<mapsto> b0)"
    by blast
  have z: "count (mem_of c) r + count (mems X) r + one_if (r \<in> cache_owned (acache s)) = 0"
    using good_mem [OF g, of r] b0(2) by simp
  then have "r \<notin># mems X" "r \<notin># mem_of c" "r \<notin> cache_owned (acache s)"
    by (simp_all only: not_in_count) (simp_all split: if_splits)
  moreover have "h_write r 0 bs h0 = Inr ((aheap s)(r \<mapsto> blit b0 0 bs))"
    using b0 len by (simp add: h_write_def)
  moreover have "length (blit b0 0 bs) = n" "take (length bs) (blit b0 0 bs) = bs"
    using b0(3) len by (simp_all add: blit_def)
  ultimately show ?thesis using b0 by blast
qed

text \<open>The reply when no block is to be had; the file is closed again.\<close>

lemma start_aio_no_memory:
  assumes g: "good A (add_mset c X) s" and st: "state c = STATE_READING" and x: "x \<notin> afiles s"
    and f: "vok v" "inside root v f p" "content p d"
    and m: "h_malloc (v_malloc v) (length hdr + n) (aheap s) = None"
  shows "aok (served (asks A (sock c) f) X c s) (start_aio v i x hdr n c (s\<lparr>afiles := insert x (afiles s)\<rparr>))"
proof -
  let ?s = "s\<lparr>afiles := insert x (afiles s)\<rparr>" and ?m = "err_reply ''out of memory''"
  have "\<not> gives_memory (v_malloc v)" using h_malloc_gives [OF _ good_finite(1) [OF g]] m by blast
  then have a: "ans f ?m" by (rule ans_memory [OF f])
  have "start_aio v i x hdr n c ?s = cbind (sock_send (sock c) ?m ?s) (\<lambda>s'. Inr (c, s'\<lparr>afiles := afiles s' - {x}\<rparr>))"
    using m by (simp add: start_aio_def aio_refuse_def cbind_def split: sum.split)
  moreover have "aok (served (asks A (sock c) f) X c s) (Inr (c, s'\<lparr>afiles := afiles s' - {x}\<rparr>))"
    if sd: "sends (sock c) ?m ?s s'" for s'
  proof -
    have "afiles s' - {x} = afiles s" using sends_same(5) [OF sd] x by simp
    then show ?thesis
      using good_sends [OF g st a sends_afiles [OF sd]] sends_keeps [OF sends_afiles [OF sd]] by (simp add: served_def)
  qed
  ultimately show ?thesis by (simp add: aok_bind [OF sock_send_ok])
qed

lemma start_aio_refused:
  assumes g: "good A (add_mset c X) s" and st: "state c = STATE_READING" and x: "x \<notin> afiles s"
    and f: "vok v" "inside root v f p" "content p d"
    and m: "h_malloc (v_malloc v) (length hdr + n) (aheap s) = Some (r, h0)" and no: "\<not> v_aio v"
  shows "aok (served (asks A (sock c) f) X c s) (start_aio v i x hdr n c (s\<lparr>afiles := insert x (afiles s)\<rparr>))"
proof -
  from malloc_block [OF g m, of hdr] obtain b where
    b: "h_write r 0 hdr h0 = Inr ((aheap s)(r \<mapsto> b))" "aheap s r = None" "r \<noteq> 0" by auto
  let ?c = "(reading_file x r hdr n c)\<lparr>a_resp := 0\<rparr>"
  have "good A (add_mset ?c X) s"
    by (rule good_reading [OF g st]) (use st good_client [OF g, of c] in \<open>auto simp: client_ok_def reading_file_def\<close>)
  then have "aok (served (asks A (sock ?c) f) X ?c s) (aio_refuse ?c ''aio_read failed'' s)"
    by (rule aio_refuse_ok) (use st ans_queue [OF f no] in \<open>simp_all add: reading_file_def\<close>)
  moreover have "(aheap s)(r := None) = aheap s" "s\<lparr>afiles := afiles s, aheap := aheap s\<rparr> = s"
    using b(2) by (simp_all add: fun_upd_idem_iff)
  then have "start_aio v i x hdr n c (s\<lparr>afiles := insert x (afiles s)\<rparr>) = aio_refuse ?c ''aio_read failed'' s"
    using m b no x by (simp add: start_aio_def h_free_def reading_file_def)
  ultimately show ?thesis by (simp add: served_def reading_file_def)
qed

lemma start_aio_started:
  assumes g: "good A (add_mset c X) s" and st: "state c = STATE_READING" and x: "x \<notin> afiles s" "a_path s x = cache_key c"
    and f: "vok v" "inside root v f (cache_key c)" "content (cache_key c) d"
    and m: "h_malloc (v_malloc v) (length (ok_header (int (length d))) + length d) (aheap s) = Some (r, h0)" and go: "v_aio v"
  shows "aok (served (asks A (sock c) f) X c s)
    (start_aio v i x (ok_header (int (length d))) (length d) c (s\<lparr>afiles := insert x (afiles s)\<rparr>))"
proof -
  let ?hd = "ok_header (int (length d))"
  from malloc_block [OF g m, of ?hd] obtain b where
    b: "h_write r 0 ?hd h0 = Inr ((aheap s)(r \<mapsto> b))" "length b = length ?hd + length d" "take (length ?hd) b = ?hd"
      "aheap s r = None" "r \<noteq> 0" "r \<notin> cache_owned (acache s)" "r \<notin># mems X" by auto
  let ?c = "(reading_file x r ?hd (length d) c)\<lparr>state := STATE_AIO\<rparr>"
  let ?s = "s\<lparr>afiles := insert x (afiles s), aheap := (aheap s)(r \<mapsto> b), a_inflight := insert i (a_inflight s)\<rparr>"
  have "good (asks A (sock c) f) (add_mset ?c X) ?s"
  proof (rule good_step [OF g, where r = r and ob = "Some b"])
    show "client_ok (aheap ?s) ?c"
      using good_client [OF g, of c] b by (simp add: client_ok_def block_ok_def reading_file_def)
    show "no_error (awrs ?s) \<and> stream_ok (asks A (sock c) f (sock c)) ?s ?c"
      if "no_error (awrs s)" "stream_ok (A (sock c)) s c"
      using that halfway_start [OF _ f, of "A (sock c)" "peer s (sock c)"] st b(3) x(2)
      by (auto simp: stream_ok_def Let_def reading_file_def)
  qed (use b reading_of [OF g st] x in \<open>auto simp: aio_of reading_file_def\<close>)
  then show ?thesis using m b go by (simp add: start_aio_def served_def keeps_def reading_file_def)
qed

lemma start_aio_ok:
  assumes "good A (add_mset c X) s" "state c = STATE_READING" "x \<notin> afiles s" "a_path s x = cache_key c"
    and "vok v" "inside root v f (cache_key c)" "content (cache_key c) d"
  shows "aok (served (asks A (sock c) f) X c s)
    (start_aio v i x (ok_header (int (length d))) (length d) c (s\<lparr>afiles := insert x (afiles s)\<rparr>))"
  using start_aio_no_memory [OF assms(1-3,5-7)] start_aio_refused [OF assms(1-3,5-7)] start_aio_started [OF assms]
  by (cases "h_malloc (v_malloc v) (length (ok_header (int (length d))) + length d) (aheap s)"; cases "v_aio v") auto

lemma begin_disk_ok:
  assumes g: "good A (add_mset c X) s" and st: "state c = STATE_READING"
    and f: "vok v" "inside root v f p" and key: "cache_key c = p"
  shows "aok (served (asks A (sock c) f) X c s) (begin_disk v i p c s)"
proof (cases "\<exists>t. v_stat v p = Some t \<and> st_reg t \<and> can_open v p s")
  case False
  define why where "why = (case v_stat v p of None \<Rightarrow> if v_junk v then ''stat failed'' else ''not a regular file''
    | Some t \<Rightarrow> if st_reg t then ''open failed'' else ''not a regular file'')"
  have "begin_disk v i p c s = aio_refuse c why s"
    using False by (auto simp: begin_disk_def why_def split: option.split)
  moreover have "ans f (err_reply why)"
  proof (cases "v_stat v p")
    case None
    then show ?thesis using ans_stat [OF f None, of "v_junk v"] by (simp add: why_def)
  next
    case (Some t)
    have "\<not> gives_fd v" if "st_reg t" "v_open v p"
      using that Some False gives_fd_open [OF _ good_finite(2) [OF g]] by blast
    with Some show ?thesis using ans_open [OF f Some] ans_irregular [OF f Some] by (simp add: why_def)
  qed
  ultimately show ?thesis using aio_refuse_ok [OF g st, of f why] by simp
next
  case True
  then obtain t where t: "v_stat v p = Some t" "st_reg t" "v_open v p" "0 \<le> new_fd v s" "new_fd v s \<notin> afiles s" "can_open v p s"
    by (auto simp: can_open_def)
  from stat_content [OF f(1) t(1-3)] obtain d where d: "content p d" "st_size t = int (length d)" by auto
  have "st_size t < 2 ^ 63" using vok_view [OF f(1)] t(1) unfolding aview_ok_def by blast
  then have n: "int (length d) mod 18446744073709551616 = int (length d)" "length (ok_header (int (length d))) < 64"
    using length_ok_header [of "int (length d)"] d(2) by simp_all
  let ?x = "new_fd v s"
  let ?s = "s\<lparr>a_path := (a_path s)(?x := p)\<rparr>"
  have g2: "good A (add_mset c X) ?s" by (rule good_path [OF g st t(5)])
  have eq: "?s\<lparr>afiles := insert ?x (afiles ?s)\<rparr> = s\<lparr>afiles := insert ?x (afiles s), a_path := (a_path s)(?x := p)\<rparr>"
    by simp
  have srv: "served B X c ?s = served B X c s" for B by (simp add: served_def keeps_def)
  note sf = start_sendfile_ok [OF g2 st, where x = ?x and v = v and f = f and d = d]
    and sa = start_aio_ok [OF g2 st, where x = ?x and v = v and f = f and d = d and i = i]
  show ?thesis using sf sa t d f key n unfolding eq srv by (simp add: begin_disk_def Let_def)
qed

subsection \<open>A cached response\<close>

text \<open>The client while it sends the block \<open>r\<close>.\<close>

lemma cache_hit_ok:
  assumes g: "good A (add_mset c X) s" and st: "state c = STATE_READING" and f: "vok v" "inside root v f p"
    and key: "cache_key c = p" and look: "cache_lookup p (acache s) = Some e"
    and m: "h_malloc ch (resp_size e) (aheap s) = Some (r, h0)"
  shows "\<exists>b. h_read (resp e) 0 (resp_size e) h0 = Inr b \<and> h_write r 0 b h0 = Inr ((aheap s)(r \<mapsto> b)) \<and>
    good (asks A (sock c) f) (add_mset (c\<lparr>a_resp := r, a_size := resp_size e, a_sent := 0, state := STATE_WRITING\<rparr>) X)
      (s\<lparr>aheap := (aheap s)(r \<mapsto> b)\<rparr>)"
proof -
  let ?b = "entry_bytes (aheap s) e"
  let ?d = "c\<lparr>a_resp := r, a_size := resp_size e, a_sent := 0, state := STATE_WRITING\<rparr>"
  have inv: "cache_inv (acache s) (aheap s)" by (rule good_cache(1) [OF g])
  from h_malloc_SomeD [OF m] obtain b0 where b0: "r \<noteq> 0" "aheap s r = None" "h0 = (aheap s)(r \<mapsto> b0)" by blast
  have rd: "h_read (resp e) 0 (resp_size e) (aheap s) = Inr ?b" by (rule cache_lookup_size(1) [OF inv look])
  then have "aheap s (resp e) \<noteq> None" by (auto simp: h_read_def split: option.splits)
  then have rd0: "h_read (resp e) 0 (resp_size e) h0 = Inr ?b" using rd b0 by (auto simp: h_read_def)
  have len: "length ?b = resp_size e"
    using rd by (auto simp: h_read_def entry_bytes_def split: option.splits if_splits)
  from malloc_block [OF g m, of ?b] len have
    b: "h_write r 0 ?b h0 = Inr ((aheap s)(r \<mapsto> ?b))" "r \<notin> cache_owned (acache s)" "r \<notin># mems X" by auto
  let ?s = "s\<lparr>aheap := (aheap s)(r \<mapsto> ?b)\<rparr>"
  have "good (asks A (sock c) f) (add_mset ?d X) ?s"
  proof (rule good_step [OF g, where r = r and ob = "Some ?b"])
    show "client_ok (aheap ?s) ?d" using good_client [OF g, of c] len b0(1) by (simp add: client_ok_def block_ok_def)
    show "no_error (awrs ?s) \<and> stream_ok (asks A (sock c) f (sock c)) ?s ?d"
      if cl: clean and "no_error (awrs s)" "stream_ok (A (sock c)) s c"
    proof -
      have "(p, ?b) \<in> set (cache_entries (acache s) (aheap s))"
        using cache_lookup_entries [OF inv, of p] look by (metis map_of_SomeD option.simps(9))
      then obtain d where d: "content p d" "?b = ok_frame d" using good_clean(2) [OF g cl] by (auto simp: cached_ok_def)
      have "answered (A (sock c)) (peer s (sock c))" using that st by (simp add: stream_ok_def Let_def)
      from halfway_start [OF this f d(1)] show ?thesis using that key d(2) by (auto simp: stream_ok_def Let_def)
    qed
  qed (use b b0 reading_of [OF g st] in \<open>auto simp: aio_of\<close>)
  with rd0 b(1) show ?thesis by blast
qed

subsection \<open>One request\<close>

lemma serve_inside_ok:
  assumes g: "good A (add_mset c X) s" and st: "state c = STATE_READING" and f: "vok v" "inside root v f p"
    and key: "cache_key c = p"
  shows "aok (served (asks A (sock c) f) X c s)
    (case cache_lookup p (acache s) of None \<Rightarrow> begin_disk v i p c s
     | Some e \<Rightarrow> (case h_malloc (v_hit v) (resp_size e) (aheap s) of
          None \<Rightarrow> begin_disk v i p c s
        | Some (r, h0) \<Rightarrow>
            cbind (h_read (resp e) 0 (resp_size e) h0) (\<lambda>bs. cbind (h_write r 0 bs h0) (\<lambda>h1.
              Inr (c\<lparr>a_resp := r, a_size := resp_size e, a_sent := 0, state := STATE_WRITING\<rparr>, s\<lparr>aheap := h1\<rparr>)))))"
proof -
  note disk = begin_disk_ok [OF g st f key, of i]
  show ?thesis
  proof (cases "cache_lookup p (acache s)")
    case look: (Some e)
    show ?thesis
    proof (cases "h_malloc (v_hit v) (resp_size e) (aheap s)")
      case (Some rh)
      then obtain r h0 where rh: "h_malloc (v_hit v) (resp_size e) (aheap s) = Some (r, h0)" by (cases rh) simp
      from cache_hit_ok [OF g st f key look rh] show ?thesis by (auto simp: look rh served_def keeps_def)
    qed (use disk look in simp)
  qed (use disk in simp)
qed

lemma begin_file_serve_ok:
  assumes g: "good A (add_mset c X) s" and st: "state c = STATE_READING" and vok: "\<forall>t. vok (env t)"
  shows "aok (served (asks A (sock c) f) X c s) (begin_file_serve env i c f s)"
proof -
  define v t where vt: "v = env (aclock s)" "t = s\<lparr>aclock := Suc (aclock s)\<rparr>"
  have g1: "good A (add_mset c X) t" and srv: "served B X c' t = served B X c' s" for B c'
    using g good_cong [of t s] by (simp_all add: vt served_def keeps_def)
  have v: "vok v" and root: "a_docroot s = root" "a_docroot t = root" using vok good_cache(3) [OF g] by (simp_all add: vt)
  have refuse: "aok (served (asks A (sock c) f) X c s) (aio_refuse c r t)" if "ans f (err_reply r)" for r
    using aio_refuse_ok [OF g1 st that] by (simp add: srv)
  show ?thesis
  proof (cases "\<exists>p. inside root v f p")
    case False
    note def = begin_file_serve_def Let_def vt(1) [symmetric] vt(2) [symmetric] root
    consider "f = []" | "f \<noteq> []" "hd f = CHR ''/''" | "f \<noteq> []" "hd f \<noteq> CHR ''/''" "v_realpath v (candidate root f) = None"
      | p where "f \<noteq> []" "hd f \<noteq> CHR ''/''" "v_realpath v (candidate root f) = Some p" "\<not> in_docroot root p"
      using False by (auto simp: inside_def)
    then show ?thesis
    proof cases
      case 1
      then show ?thesis using refuse [of "''empty filename''"] ans_empty by (simp add: def)
    next
      case 2
      then show ?thesis using refuse [OF ans_absolute] by (simp add: def)
    next
      case 3
      then show ?thesis using refuse [OF ans_missing [OF v]] by (simp add: def)
    next
      case 4
      then show ?thesis using refuse [OF ans_outside [OF v]] by (simp add: def)
    qed
  next
    case True
    then obtain p where p: "inside root v f p" by blast
    have "length p < PATH_MAX" using vok_view [OF v] p by (auto simp: aview_ok_def inside_def)
    then have key: "strncpy (PATH_MAX - 1) p = p" "length p < PATH_MAX" by simp_all
    let ?c = "c\<lparr>cache_key := p\<rparr>"
    have "good A (add_mset ?c X) t"
      by (intro good_reading [OF g1 st]) (use st key good_client [OF g1, of c] in \<open>auto simp: client_ok_def block_ok_def\<close>)
    from serve_inside_ok [OF this _ v p, of i] st
    have "aok (served (asks A (sock c) f) X ?c s) (begin_file_serve env i c f s)"
      using p key(1) root by (simp add: begin_file_serve_def Let_def vt(1) [symmetric] vt(2) [symmetric] inside_def srv)
    then show ?thesis by (simp add: served_def)
  qed
qed

subsection \<open>The end of an asynchronous read\<close>

lemma own_block:
  assumes g: "good A (add_mset c X) s" and st: "state c = STATE_AIO \<or> state c = STATE_WRITING"
  shows "a_resp c \<noteq> 0" "\<exists>b. aheap s (a_resp c) = Some b \<and> length b = a_size c" "a_resp c \<notin> cache_owned (acache s)"
    "a_resp c \<notin># mems X" "mem_of c = {#a_resp c#}" "h_free (a_resp c) (aheap s) = Inr ((aheap s)(a_resp c := None))"
proof -
  have ok: "block_ok (aheap s) c" using good_client [OF g, of c] by (simp add: client_ok_def)
  show nz: "a_resp c \<noteq> 0" and b: "\<exists>b. aheap s (a_resp c) = Some b \<and> length b = a_size c"
    using ok st by (auto simp: block_ok_def)
  show mem: "mem_of c = {#a_resp c#}" using st by (auto simp: mem_of_def)
  have le: "1 + count (mems X) (a_resp c) + one_if (a_resp c \<in> cache_owned (acache s)) = 1"
    using good_mem [OF g, of "a_resp c"] b mem by auto
  then have "count (mems X) (a_resp c) = 0" and "a_resp c \<notin> cache_owned (acache s)" by (auto split: if_splits)
  then show "a_resp c \<notin> cache_owned (acache s)" "a_resp c \<notin># mems X" by (simp, simp only: not_in_count)
  show "h_free (a_resp c) (aheap s) = Inr ((aheap s)(a_resp c := None))"
    using nz b by (auto simp: h_free_def)
qed

text \<open>The cache takes over a fresh block and may free others of its own.\<close>

lemma owner_accounts:
  assumes g: "good A M s" and r: "aheap s r = None"
    and own: "owner_step (insert r (cache_owned (acache s))) (cache_owned k') ((aheap s)(r \<mapsto> b)) h'" "r \<in> cache_owned k'"
  shows "accounts M k' h'" "a \<in># mems M \<Longrightarrow> h' a = aheap s a" "r \<noteq> 0 \<Longrightarrow> h' 0 = None"
proof -
  have *: "count (mems M) a + one_if (a \<in> cache_owned k') = one_if (h' a \<noteq> None) \<and> (0 < count (mems M) a \<longrightarrow> h' a = aheap s a)" for a
  proof -
    define m where "m = count (mems M) a"
    have mm: "m + one_if (a \<in> cache_owned (acache s)) = one_if (aheap s a \<noteq> None)" unfolding m_def by (rule good_mem [OF g])
    have "m + one_if (a \<in> cache_owned k') = one_if (h' a \<noteq> None) \<and> (0 < m \<longrightarrow> h' a = aheap s a)"
      using own mm r by (cases "a = r"; cases "a \<in> cache_owned k'"; cases "a \<in> cache_owned (acache s)")
        (auto simp: owner_step_def split: if_splits)
    then show ?thesis unfolding m_def .
  qed
  then show "accounts M k' h'" unfolding accounts_def by blast
  show "h' a = aheap s a" if "a \<in># mems M" using * [of a] that unfolding in_count by blast
  show "h' 0 = None" if "r \<noteq> 0"
    using own(1) good_cache(2) [OF g] that
    by (cases "0 \<in> insert r (cache_owned (acache s)) - cache_owned k'") (auto simp: owner_step_def)
qed

lemma good_cached:
  assumes g: "good A (add_mset c X) s" and st: "state c = STATE_WRITING" and b: "aheap s (a_resp c) = Some b" "length b = n"
    and r: "aheap s r = None" "r \<noteq> 0" "r \<notin> cache_owned (acache s)"
  shows "\<exists>k h. cache_insert (cache_key c) r n (acache s) ((aheap s)(r \<mapsto> b)) = Inr (k, h) \<and>
    good A (add_mset c X) (s\<lparr>acache := k, aheap := h\<rparr>)"
proof -
  let ?h = "(aheap s)(r \<mapsto> b)"
  note inv = good_cache(1) [OF g]
  have key: "length (cache_key c) < PATH_MAX" using good_client [OF g, of c] by (simp add: client_ok_def)
  from cache_insert_ok [OF cache_inv_other(1) [OF inv r(3), of "Some b"] _ r(2,3) _ key, of b n] b(2)
  obtain k h where ins: "cache_insert (cache_key c) r n (acache s) ?h = Inr (k, h)" "cache_inv k h"
    "cache_entries k h = fifo_insert MAX_CACHE_ENTRIES (cache_key c) b (cache_entries (acache s) ?h)"
    "r \<in> cache_owned k" "owner_step (insert r (cache_owned (acache s))) (cache_owned k) ?h h" by auto
  note acc = owner_accounts [OF g r(1) ins(5,4)]
  let ?s = "s\<lparr>acache := k, aheap := h\<rparr>"
  have own: "a \<in># mem_of c \<Longrightarrow> h a = aheap s a" for a by (rule acc(2)) simp
  have "good A (add_mset c X) ?s"
  proof (rule good_update [OF g])
    show "client_ok (aheap ?s) c" by (rule client_ok_heap [OF good_client [OF g, of c]]) (use own in auto)
    show "no_error (awrs ?s) \<and> cached_ok ?s \<and> stream_ok (A (sock c)) ?s c" if clean
    proof -
      note old = good_clean(1,2) [OF g that] good_clean(3) [OF g that, of c]
      have "stream_ok (A (sock c)) ?s c" by (rule stream_ok_same [OF _ old(3)]) (use own in \<open>simp_all add: same_for_def\<close>)
      moreover obtain d where "content (cache_key c) d" "b = ok_frame d"
        using old(3) st b(1) by (auto simp: stream_ok_def Let_def halfway_def)
      ultimately show ?thesis
        using old(1,2) ins(3) fifo_insert_set [of MAX_CACHE_ENTRIES "cache_key c" b "cache_entries (acache s) (aheap s)"]
          cache_inv_other(2) [OF inv r(3), of "Some b"] by (auto simp: cached_ok_def)
    qed
    show "\<forall>a\<in>#mems X. aheap ?s a = aheap s a" using acc(2) by simp
  qed (use g ins(2) acc(1,3) r(2) in \<open>simp_all add: good_def\<close>)
  with ins(1) show ?thesis by blast
qed

lemma aio_to_cache_ok:
  assumes g: "good A (add_mset c X) s" and st: "state c = STATE_WRITING"
  shows "aok (\<lambda>s'. good A (add_mset c X) s' \<and> keeps s s') (aio_to_cache mal c s)"
proof (cases "a_size c \<le> MAX_CACHE_FILE_SIZE + 64 \<and> cache_key c \<noteq> [] \<and> h_malloc mal (a_size c) (aheap s) \<noteq> None")
  case False
  then show ?thesis using g by (auto simp: aio_to_cache_def split: option.splits)
next
  case True
  then obtain r h1 where m: "h_malloc mal (a_size c) (aheap s) = Some (r, h1)" by auto
  from own_block(2) [OF g disjI2 [OF st]] obtain b where b: "aheap s (a_resp c) = Some b" "length b = a_size c" by blast
  from malloc_block [OF g m, of b] b(2) have
    w: "h_write r 0 b h1 = Inr ((aheap s)(r \<mapsto> b))" "aheap s r = None" "r \<noteq> 0" "r \<notin> cache_owned (acache s)" by auto
  have "h_read (a_resp c) 0 (a_size c) h1 = Inr b" using b w(2) h_malloc_SomeD [OF m] by (auto simp: h_read_def)
  with good_cached [OF g st b w(2-4)] True m w(1) show ?thesis by (auto simp: aio_to_cache_def keeps_def)
qed

lemma check_aio_failed:
  assumes g: "good A (add_mset c X) s" and st: "state c = STATE_AIO" and i: "i \<in> a_inflight s"
    and k: "kok le" "ae_aio le x (a_path s (file_fd c)) = AioFailed"
  shows "aok (served A X c s) (check_aio mal AioFailed i c s)"
proof -
  note own = own_block [OF g disjI1 [OF st]]
  let ?c = "c\<lparr>file_fd := -1, a_resp := 0, state := STATE_READING\<rparr>" and ?m = "err_reply ''read error''"
  let ?s = "s\<lparr>a_inflight := a_inflight s - {i}, aheap := (aheap s)(a_resp c := None), afiles := afiles s - {file_fd c}\<rparr>"
  have "good A (add_mset ?c X) s'" if sd: "sends (sock c) ?m ?s s'" for s'
  proof (rule good_step [OF g, where r = "a_resp c" and ob = None])
    show "client_ok (aheap s') ?c" using good_client [OF g, of c] by (simp add: client_ok_def block_ok_def)
    show "no_error (awrs s') \<and> stream_ok (A (sock c)) s' ?c" if "no_error (awrs s)" "stream_ok (A (sock c)) s c"
      using that sends_clean [OF sd] halfway_fail [OF _ k(1), of _ _ _ _ x] k(2) st by (auto simp: stream_ok_def Let_def)
    show "\<forall>x. count (file_of ?c) x + one_if (x \<in> afiles s) = count (file_of c) x + one_if (x \<in> afiles s')"
      using good_file [OF g, of "file_fd c"] st sends_same(5) [OF sd] by (auto simp: file_of_def split: if_splits)
    show "\<forall>a. count (mem_of ?c) a + one_if (aheap s a \<noteq> None) = count (mem_of c) a + one_if (aheap s' a \<noteq> None)"
      using own(2,5) sends_same(3) [OF sd] by (auto simp: mem_of_def)
  qed (use own sends_same [OF sd] in simp_all)
  then have "aok (served A X c s) (cbind (sock_send (sock c) ?m ?s) (\<lambda>s'. Inr (?c, s')))"
    by (intro aok_bind [OF sock_send_ok]) (auto simp: served_def keeps_def sends_same)
  then show ?thesis using own(6) i by (simp add: check_aio_def)
qed

lemma blit_behind: "length h = off \<Longrightarrow> blit (h @ j) off ys = h @ blit j 0 ys"
  by (simp add: blit_def)

lemma check_aio_done:
  assumes g: "good A (add_mset c X) s" and st: "state c = STATE_AIO"
    and i: "i \<in> a_inflight s" and k: "kok le" "ae_aio le x (a_path s (file_fd c)) = AioRead bs"
  shows "aok (served A X c s) (check_aio mal (AioRead bs) i c s)"
proof -
  note own = own_block [OF g disjI1 [OF st]]
  have ok: "client_ok (aheap s) c" by (rule good_client [OF g]) simp
  from own(2) obtain b where b: "aheap s (a_resp c) = Some b" "length b = a_size c" by blast
  have sz: "aio_off c + aio_nbytes c = a_size c" using ok st by (simp add: client_ok_def block_ok_def)
  define b' where "b' = blit b (aio_off c) (take (aio_nbytes c) bs)"
  have b': "length b' = a_size c" using b(2) sz by (simp add: b'_def)
  have w: "h_write (a_resp c) (aio_off c) (take (aio_nbytes c) bs) (aheap s) = Inr ((aheap s)(a_resp c \<mapsto> b'))"
    using b sz by (simp add: h_write_def b'_def)
  let ?c = "c\<lparr>file_fd := -1, state := STATE_WRITING\<rparr>"
  let ?s = "s\<lparr>a_inflight := a_inflight s - {i}, aheap := (aheap s)(a_resp c \<mapsto> b'), afiles := afiles s - {file_fd c}\<rparr>"
  have g1: "good A (add_mset ?c X) ?s"
  proof (rule good_step [OF g, where r = "a_resp c" and ob = "Some b'"])
    show "client_ok (aheap ?s) ?c" using ok st b' own(1) by (simp add: client_ok_def block_ok_def)
    show "no_error (awrs ?s) \<and> stream_ok (A (sock c)) ?s ?c" if "no_error (awrs s)" and str: "stream_ok (A (sock c)) s c"
    proof -
      from str st b(1) obtain d where d: "halfway (A (sock c)) (cache_key c) d [] (peer s (sock c))"
        "a_path s (file_fd c) = cache_key c" "aio_nbytes c = length d" "aio_off c = length (ok_header (int (length d)))"
        "take (aio_off c) b = ok_header (int (length d))" by (auto simp: stream_ok_def Let_def)
      define e where "e = blit (drop (aio_off c) b) 0 (take (length d) bs)"
      have cont: "content (cache_key c) e" unfolding e_def
        by (rule aio_content [OF k [unfolded d(2)]]) (use d(1,3) b(2) sz in \<open>auto simp: halfway_def\<close>)
      have e: "length e = length d" using d(3) b(2) sz by (simp add: e_def)
      have "b' = blit (take (aio_off c) b @ drop (aio_off c) b) (aio_off c) (take (length d) bs)" by (simp add: b'_def d(3))
      also have "\<dots> = ok_frame e" using d(4,5) e by (subst blit_behind) (simp_all add: e_def)
      finally have "b' = ok_frame e" .
      moreover have "a_sent c = 0" using ok st by (simp add: client_ok_def block_ok_def)
      ultimately show ?thesis using that halfway_content [OF d(1) cont] by (auto simp: stream_ok_def Let_def)
    qed
    show "\<forall>x. count (file_of ?c) x + one_if (x \<in> afiles s) = count (file_of c) x + one_if (x \<in> afiles ?s)"
      using good_file [OF g, of "file_fd c"] st by (auto simp: file_of_def split: if_splits)
  qed (use own b in \<open>auto simp: mem_of_def\<close>)
  have "aio_to_cache mal c ?s = aio_to_cache mal ?c ?s" by (simp add: aio_to_cache_def split: option.split)
  then have "aok (\<lambda>s'. good A (add_mset ?c X) s' \<and> keeps ?s s') (aio_to_cache mal c ?s)"
    using aio_to_cache_ok [OF g1, of mal] by simp
  then have "aok (served A X c s) (cbind (aio_to_cache mal c ?s) (\<lambda>s'. Inr (?c, s')))"
    by (rule aok_bind) (simp add: served_def keeps_def)
  then show ?thesis using w i by (simp add: check_aio_def)
qed

lemma check_aio_ok:
  assumes "good A (add_mset c X) s" "state c = STATE_AIO" "kok le"
  shows "aok (served A X c s) (check_aio mal (ae_aio le x (a_path s (file_fd c))) i c s)"
proof (cases "i \<in> a_inflight s")
  case True
  then show ?thesis
    using assms(1) check_aio_failed [OF assms(1,2) True assms(3)] check_aio_done [OF assms(1,2) True assms(3)]
    by (cases "ae_aio le x (a_path s (file_fd c))") (auto simp: check_aio_def served_def)
qed (simp add: check_aio_def)

subsection \<open>The requests in the buffer\<close>

text \<open>What holds after the lines in the buffer, for the bytes \<open>inp\<close> received on the connection.\<close>

definition lines_done ::
  "(int \<Rightarrow> string list) \<Rightarrow> AClient multiset \<Rightarrow> bytes \<Rightarrow> AClient \<Rightarrow> aserver \<Rightarrow> AClient \<times> aserver \<Rightarrow> bool" where
  "lines_done A X inp c s = (\<lambda>(c', s'). \<exists>A'. good A' (add_mset c' X) s' \<and> keeps s s' \<and> sock c' = sock c \<and>
     (\<forall>x. x \<noteq> sock c \<longrightarrow> A' x = A x) \<and> heard (A' (sock c)) inp (take (req_len c') (req_buf c')))"

lemma line_served:
  assumes g: "good A (add_mset c X) s" and st: "state c = STATE_READING" and v: "\<forall>t. vok (env t)"
    and hrd: "heard (A (sock c)) inp (take (req_len c) (req_buf c))"
    and p: "memchr (req_buf c) NL (req_len c) = Some p" and b: "b = terminate_line (req_buf c) p" and n: "n = req_len c - (p + 1)"
  shows "aok (\<lambda>(c', s'). let c2 = c'\<lparr>req_buf := memmove0 b (p + 1) n, req_len := n\<rparr>
      in \<exists>A'. good A' (add_mset c2 X) s' \<and> keeps s s' \<and> sock c2 = sock c \<and> (\<forall>x. x \<noteq> sock c \<longrightarrow> A' x = A x) \<and>
        heard (A' (sock c)) inp (take (req_len c2) (req_buf c2)))
    (begin_file_serve env i (c\<lparr>req_buf := b\<rparr>) (cstr b) s)"
proof -
  note m = memchr_Some [OF p]
  have ok: "length (req_buf c) = REQ_BUF_SIZE" "req_len c \<le> REQ_BUF_SIZE - 1"
    using good_client [OF g, of c] by (simp_all add: client_ok_def)
  then have le: "req_len c \<le> length (req_buf c)" by simp
  have lb: "length b = REQ_BUF_SIZE" using ok(1) by (simp add: b)
  let ?f = "request_of (take p (req_buf c))" and ?b = "memmove0 b (p + 1) n"
  have f: "cstr b = ?f" unfolding b by (rule cstr_terminate_line [OF m(2)])
  have rest: "take n ?b = drop (Suc p) (take (req_len c) (req_buf c))"
    by (rule nl_split_turn(2) [OF p le n]) (simp_all add: b drop_terminate_line)
  have "heard (A (sock c)) inp (take p (req_buf c) @ NL # drop (Suc p) (take (req_len c) (req_buf c)))"
    using hrd by (subst (asm) memchr_split [OF p le])
  then have hrd2: "heard (A (sock c) @ [?f]) inp (take n ?b)" unfolding rest by (rule heard_line [OF _ m(4)])
  have len: "length ?b = REQ_BUF_SIZE" "n \<le> REQ_BUF_SIZE - 1"
    using m(1) ok lb by (simp_all add: n REQ_BUF_SIZE_def)
  let ?c = "c\<lparr>req_buf := b\<rparr>"
  have g1: "good A (add_mset ?c X) s" using good_req [OF g lb ok(2)] by simp
  have "aok (served (asks A (sock ?c) (cstr b)) X ?c s) (begin_file_serve env i ?c (cstr b) s)"
    by (rule begin_file_serve_ok [OF g1 _ v]) (simp add: st)
  then show ?thesis
  proof (rule aok_mono, clarsimp simp: Let_def)
    fix c' s' assume *: "served (asks A (sock c) (cstr b)) X ?c s (c', s')"
    have "good (asks A (sock c) (cstr b)) (add_mset (c'\<lparr>req_buf := ?b, req_len := n\<rparr>) X) s'"
      by (rule good_req [OF _ len]) (use * in \<open>simp add: served_def\<close>)
    with * hrd2 show "\<exists>A'. good A' (add_mset (c'\<lparr>req_buf := memmove0 b (Suc p) n, req_len := n\<rparr>) X) s' \<and> keeps s s' \<and>
        sock c' = sock c \<and> (\<forall>x. x \<noteq> sock c \<longrightarrow> A' x = A x) \<and> heard (A' (sock c)) inp (take n (memmove0 b (Suc p) n))"
      by (intro exI [of _ "asks A (sock c) (cstr b)"]) (simp add: served_def f)
  qed
qed

lemma aio_requests_ok:
  assumes "good A (add_mset c X) s" "state c = STATE_READING" "\<forall>t. vok (env t)"
    and "heard (A (sock c)) inp (take (req_len c) (req_buf c))"
  shows "aok (lines_done A X inp c s) (aio_requests env i c s)"
  using assms
proof (induction env i c s arbitrary: A rule: aio_requests.induct)
  case (1 env i c s)
  show ?case
  proof (cases "memchr (req_buf c) NL (req_len c)")
    case None
    with "1.prems" show ?thesis by (auto simp: aio_requests.simps [of env i c s] lines_done_def)
  next
    case (Some p)
    define b where "b = terminate_line (req_buf c) p"
    define n where "n = req_len c - (p + 1)"
    have body: "aok (lines_done A X inp c s) (if state c2 \<noteq> STATE_READING then Inr (c2, s') else aio_requests env i c2 s')"
      if bf: "begin_file_serve env i (c\<lparr>req_buf := b\<rparr>) (cstr b) s = Inr (c', s')"
        and c2: "c2 = c'\<lparr>req_buf := memmove0 b (p + 1) n, req_len := n\<rparr>"
        and A': "good A' (add_mset c2 X) s'" "keeps s s'" "sock c2 = sock c" "\<forall>x. x \<noteq> sock c \<longrightarrow> A' x = A x"
          "heard (A' (sock c)) inp (take (req_len c2) (req_buf c2))" for c' s' c2 A'
    proof (cases "state c2 = STATE_READING")
      case True
      have "aok (lines_done A' X inp c2 s') (aio_requests env i c2 s')"
        by (rule "1.IH" [OF Some b_def bf refl n_def c2]) (use True A' "1.prems"(3) in simp_all)
      then have "aok (lines_done A X inp c s) (aio_requests env i c2 s')"
        by (rule aok_mono) (use A'(2-4) keeps_trans in \<open>fastforce simp: lines_done_def\<close>)
      with True show ?thesis by simp
    qed (use A' in \<open>auto simp: lines_done_def\<close>)
    have "aio_requests env i c s = cbind (begin_file_serve env i (c\<lparr>req_buf := b\<rparr>) (cstr b) s) (\<lambda>(c', s').
        let c2 = c'\<lparr>req_buf := memmove0 b (p + 1) n, req_len := n\<rparr>
        in if state c2 \<noteq> STATE_READING then Inr (c2, s') else aio_requests env i c2 s')"
      by (subst aio_requests.simps) (simp add: Some b_def n_def Let_def)
    then show ?thesis
      by (simp only:, intro aok_bind [OF line_served [OF "1.prems" Some b_def n_def]])
        (use body in \<open>force simp: Let_def\<close>)
  qed
qed

end

end
