(* ===== verification/AioLoop.thy ===== *)
theory AioLoop
  imports AioRequests
begin

section \<open>The event loop of the asynchronous server\<close>

text \<open>
  The table of connections, the parts of the body of the client loop, a turn of the loop and whole
  executions keep the invariant, in every world of files.
\<close>

subsection \<open>The table as a multiset\<close>

abbreviation others :: "nat \<Rightarrow> aserver \<Rightarrow> AClient multiset" where
  "others i s \<equiv> mset (alive s) - {#aclients s ! i#}"

abbreviation unread :: "AClient \<Rightarrow> bytes" where
  "unread c \<equiv> take (req_len c) (req_buf c)"

lemma alive_split:
  assumes "i < anum s" "anum s \<le> length (aclients s)"
  shows "mset (alive s) = add_mset (aclients s ! i) (others i s)"
proof -
  have "aclients s ! i \<in># mset (alive s)" using assms by (auto simp: alive_def in_set_conv_nth)
  then show ?thesis by simp
qed

lemma alive_put:
  assumes "i < anum s" "anum s \<le> length (aclients s)" "aclients s' = aclients s" "anum s' = anum s"
  shows "mset (alive (put_client i c s')) = add_mset c (others i s)"
  using assms by (simp add: alive_def put_client_def take_update_swap mset_update)

lemma alive_removed:
  assumes "i < anum s" "anum s \<le> length (aclients s)"
    and "aclients s' = (aclients s)[i := aclients s ! (anum s - 1)]" "anum s' = anum s - 1"
  shows "mset (alive s') = others i s"
proof -
  let ?xs = "aclients s"
  obtain m where n: "anum s = Suc m" using assms(1) by (cases "anum s") auto
  have t: "take (anum s) ?xs = take m ?xs @ [?xs ! m]" using assms(2) by (simp add: n take_Suc_conv_app_nth)
  show ?thesis
  proof (cases "i = m")
    case True
    then show ?thesis using assms(3,4) unfolding alive_def t by (simp add: n take_update_swap)
  next
    case False
    then have i: "i < m" using assms(1) n by simp
    then have mem: "?xs ! i \<in># mset (take m ?xs)" using assms(2) n by (auto simp: in_set_conv_nth)
    have "mset (alive s') = add_mset (?xs ! m) (mset (take m ?xs) - {#?xs ! i#})"
      using assms(2-4) i n by (simp add: alive_def take_update_swap mset_update)
    then show ?thesis using mem unfolding alive_def t by simp
  qed
qed

text \<open>The calls may answer differently in every turn, within what \<open>vok\<close> and \<open>wok\<close> allow.\<close>

definition aio_run ::
  "(areqview \<Rightarrow> bool) \<Rightarrow> (wres list \<Rightarrow> aloop_env \<Rightarrow> bool) \<Rightarrow> int \<Rightarrow> bool \<times> aserver \<Rightarrow> bool \<times> aserver \<Rightarrow> bool" where
  "aio_run vok wok listen_fd x y \<longleftrightarrow> (\<exists>env. (\<forall>t. vok (env t)) \<and> aio_step wok env listen_fd x y)"

text \<open>The clients that hold a block for a response, and the files of the clients.\<close>

abbreviation holders :: "aserver \<Rightarrow> AClient list" where
  "holders s \<equiv> filter (\<lambda>c. state c = STATE_AIO \<or> state c = STATE_WRITING) (alive s)"

definition open_files :: "AClient list \<Rightarrow> int list" where
  "open_files cs = map file_fd (filter (\<lambda>c. state c = STATE_AIO) cs) @ map sf_fd (filter (\<lambda>c. state c = STATE_SENDFILE) cs)"

lemma mems_list: "mems (mset cs) = mset (map a_resp (filter (\<lambda>c. state c = STATE_AIO \<or> state c = STATE_WRITING) cs))"
proof (induction cs)
  case (Cons c cs)
  then show ?case by (cases "state c") (simp_all add: mem_of_def)
qed simp

lemma files_list: "files_of (mset cs) = mset (open_files cs)"
proof (induction cs)
  case (Cons c cs)
  then show ?case by (cases "state c") (simp_all add: file_of_def open_files_def)
qed (simp add: open_files_def)

lemma distinct_counts: "(\<And>x. count (mset xs) x \<le> 1) \<Longrightarrow> distinct xs"
  unfolding distinct_count_atmost_1 by (metis count_mset_0_iff less_one nat_less_le)

text \<open>
  A conversation: the received bytes \<open>inp\<close> are the lines served so far and the bytes \<open>unserved\<close>, each line
  has a reply \<open>ok\<close> allows, and what was sent are these replies in order, up to a \<open>rest\<close> of the last one.
\<close>

definition conversation :: "(bytes \<Rightarrow> bytes \<Rightarrow> bool) \<Rightarrow> bytes \<Rightarrow> bytes \<Rightarrow> bytes \<Rightarrow> bytes \<Rightarrow> bool" where
  "conversation ok inp unserved out rest \<longleftrightarrow> (\<exists>ls rs.
     inp = concat (map (\<lambda>l. l @ [NL]) ls) @ unserved \<and> (\<forall>l\<in>set ls. NL \<notin> set l) \<and> list_all2 ok ls rs \<and>
     out @ rest = concat rs \<and> length rest \<le> length (last rs))"

context reply_world
begin

subsection \<open>The invariant of the loop\<close>

definition table_ok :: "(int \<Rightarrow> string list) \<Rightarrow> AClient multiset \<Rightarrow> aserver \<Rightarrow> bool" where
  "table_ok A M s \<longleftrightarrow> good A M s \<and> (\<forall>c\<in>#M. heard (A (sock c)) (a_rcvd s (sock c)) (unread c))"

definition ainv :: "aserver \<Rightarrow> bool" where
  "ainv s \<longleftrightarrow> length (aclients s) = MAX_CLIENTS \<and> anum s \<le> MAX_CLIENTS \<and> (\<exists>A. table_ok A (mset (alive s)) s)"

text \<open>
  After a part of the body the invariant holds again, the slots below are still in use, and so is
  the slot itself if the body goes on.
\<close>

definition phase :: "nat \<Rightarrow> bool \<times> aserver \<Rightarrow> bool" where
  "phase i = (\<lambda>(go, s'). ainv s' \<and> i \<le> anum s' \<and> (go \<longrightarrow> i < anum s'))"

lemma ainv_slot:
  assumes "ainv s" "i < anum s"
  obtains A where "table_ok A (add_mset (aclients s ! i) (others i s)) s"
    "good A (add_mset (aclients s ! i) (others i s)) s"
proof -
  obtain A where t: "table_ok A (mset (alive s)) s" using assms(1) by (auto simp: ainv_def)
  have "mset (alive s) = add_mset (aclients s ! i) (others i s)" by (rule alive_split) (use assms in \<open>auto simp: ainv_def\<close>)
  with t have "table_ok A (add_mset (aclients s ! i) (others i s)) s" by (rule back_subst [of "\<lambda>M. table_ok A M s"])
  with that show ?thesis by (auto simp: table_ok_def)
qed

lemma table_put:
  assumes t: "table_ok A (add_mset c X) s" and g: "good A' (add_mset c' X) s'" and c': "sock c' = sock c"
    and same: "\<forall>x. x \<noteq> sock c \<longrightarrow> A' x = A x \<and> a_rcvd s' x = a_rcvd s x"
    and hrd: "heard (A' (sock c)) (a_rcvd s' (sock c)) (unread c')"
  shows "table_ok A' (add_mset c' X) s'"
proof -
  have "heard (A' (sock d)) (a_rcvd s' (sock d)) (unread d)" if "d \<in># X" for d
    using t same good_others(1) [of A c X s d] that by (auto simp: table_ok_def)
  with g hrd c' show ?thesis by (simp add: table_ok_def)
qed

lemma table_keep:
  assumes t: "table_ok A (add_mset c X) s" and g: "good A (add_mset c' X) s'"
    and c': "sock c' = sock c" "unread c' = unread c" "a_rcvd s' = a_rcvd s"
  shows "table_ok A (add_mset c' X) s'"
  by (rule table_put [OF t g]) (use t c' in \<open>simp_all add: table_ok_def\<close>)

lemma table_cong:
  assumes "a_docroot s' = a_docroot s" "acache s' = acache s" "aheap s' = aheap s" "afiles s' = afiles s"
    "asocks s' = asocks s" "awrs s' = awrs s" "peer s' = peer s" "a_path s' = a_path s" "a_rcvd s' = a_rcvd s"
  shows "table_ok A M s' = table_ok A M s"
  using good_cong [OF assms(1-8)] assms(9) by (simp add: table_ok_def)

lemma phase_put:
  assumes inv: "ainv s" "i < anum s" and t: "table_ok A (add_mset c (others i s)) s'"
    and s': "aclients s' = aclients s" "anum s' = anum s"
  shows "phase i (True, put_client i c s')"
proof -
  have "mset (alive (put_client i c s')) = add_mset c (others i s)"
    by (rule alive_put) (use assms in \<open>auto simp: ainv_def\<close>)
  moreover have "table_ok A M (put_client i c s') = table_ok A M s'" for M
    by (rule table_cong) (simp_all add: put_client_def)
  ultimately show ?thesis using assms by (auto simp: phase_def ainv_def put_client_def)
qed

subsection \<open>A client leaves\<close>

lemma good_remove:
  assumes g: "good A (add_mset c X) s" and s': "a_docroot s' = a_docroot s" "acache s' = acache s"
      "aheap s' = (\<lambda>a. if a \<in># mem_of c then None else aheap s a)" "afiles s' = afiles s - set_mset (file_of c)"
      "asocks s' = asocks s - {sock c}" "peer s' = peer s" "awrs s' = awrs s" "a_path s' = a_path s"
  shows "good A X s'"
proof -
  have acc: "accounts X (acache s') (aheap s')" unfolding accounts_def
  proof
    fix a
    define n where "n = count (mem_of c) a"
    have n: "a \<in># mem_of c \<longleftrightarrow> n \<noteq> 0" by (simp add: n_def)
    show "count (mems X) a + one_if (a \<in> cache_owned (acache s')) = one_if (aheap s' a \<noteq> None)"
      using good_mem [OF g, of a] unfolding s'(2,3) n by (simp add: n_def [symmetric] split: if_splits)
  qed
  have fls: "holds_files X (afiles s')" unfolding holds_files_def
  proof
    fix x
    define n where "n = count (file_of c) x"
    have n: "x \<in># file_of c \<longleftrightarrow> n \<noteq> 0" by (simp add: n_def)
    show "count (files_of X) x = one_if (x \<in> afiles s')"
      using good_file [OF g, of x] unfolding s'(4) Diff_iff n by (simp add: n_def [symmetric] split: if_splits)
  qed
  have sks: "holds_socks X (asocks s')" unfolding holds_socks_def
  proof
    fix x
    show "count (image_mset sock X) x = one_if (x \<in> asocks s')" using good_sock [OF g, of x] by (auto simp: s' split: if_splits)
  qed
  have cch: "cache_inv (acache s) (aheap s') \<and> cache_entries (acache s) (aheap s') = cache_entries (acache s) (aheap s)"
  proof (cases "mem_of c = {#}")
    case False
    then have m: "mem_of c = {#a_resp c#}" by (cases "state c") (auto simp: mem_of_def)
    have "a_resp c \<notin> cache_owned (acache s)" using good_mem [OF g, of "a_resp c"] m by (simp split: if_splits)
    moreover have "aheap s' = (aheap s)(a_resp c := None)" using m by (auto simp: s')
    ultimately show ?thesis using good_cache(1) [OF g] cache_inv_other by simp
  qed (use good_cache(1) [OF g] s'(3) in simp)
  have same: "same_for d s s'" if "d \<in># X" for d
    using good_others(2,4) [OF g that] by (auto simp: same_for_def s')
  have "client_ok (aheap s') d" if "d \<in># X" for d
    by (rule client_ok_heap [OF good_client [OF g]]) (use that same in \<open>auto simp: same_for_def\<close>)
  moreover have "no_error (awrs s') \<and> cached_ok s' \<and> (\<forall>d\<in>#X. stream_ok (A (sock d)) s' d)" if clean
    using good_clean [OF g that] cch stream_ok_same [OF same] by (simp add: cached_ok_def s'(2,7))
  ultimately show ?thesis using cch acc fls sks good_cache(2,3) [OF g] by (simp add: good_def s'(1-3))
qed

lemma drop_client_ok:
  assumes inv: "ainv s" and i: "i < anum s"
  shows "aok (phase i) (drop_client le i s)"
proof -
  let ?c = "aclients s ! i"
  obtain A where t: "table_ok A (add_mset ?c (others i s)) s" and g: "good A (add_mset ?c (others i s)) s"
    by (rule ainv_slot [OF inv i])
  have ok: "block_ok (aheap s) ?c" using good_client [OF g, of ?c] by (simp add: client_ok_def)
  define h where "h = (\<lambda>a. if a \<in># mem_of ?c then None else aheap s a)"
  have free: "h_free (a_resp ?c) (aheap s) = Inr h"
  proof (cases "state ?c = STATE_AIO \<or> state ?c = STATE_WRITING")
    case True
    then show ?thesis using own_block(5,6) [OF g True] by (auto simp: h_def fun_eq_iff)
  next
    case False
    then have "mem_of ?c = {#}" "a_resp ?c = 0" using ok by (cases "state ?c"; simp add: mem_of_def block_ok_def)+
    then show ?thesis by (simp add: h_def h_free_def)
  qed
  define s' where "s' = s\<lparr>a_inflight := (if state ?c = STATE_AIO then a_inflight s - {i} else a_inflight s),
      afiles := afiles s - set_mset (file_of ?c), aheap := h, asocks := asocks s - {sock ?c},
      aclients := (aclients s)[i := aclients s ! (anum s - 1)], anum := anum s - 1\<rparr>"
  have "good A (others i s) s'" by (rule good_remove [OF g]) (simp_all add: s'_def h_def)
  then have "table_ok A (others i s) s'" using t by (simp add: table_ok_def s'_def)
  moreover have "mset (alive s') = others i s"
    by (rule alive_removed) (use inv i in \<open>auto simp: ainv_def s'_def\<close>)
  ultimately have "phase i (False, s')" using inv i by (auto simp: phase_def ainv_def s'_def)
  moreover have "aok (\<lambda>x. x = s') (aio_remove_client fin i s)" for fin
    using free ok by (cases "state ?c") (auto simp: aio_remove_client_def Let_def s'_def file_of_def block_ok_def)
  ultimately show ?thesis unfolding drop_client_def by (auto intro: aok_bind [where P = "\<lambda>x. x = s'"])
qed

subsection \<open>Completed reads and new requests\<close>

lemma probe_phase_ok:
  assumes inv: "ainv s" and i: "i < anum s"
  shows "aok (phase i) (probe_phase le rset i s)"
  using drop_client_ok [OF assms] assms by (auto simp: probe_phase_def Let_def phase_def split: rres.split)

lemma aio_phase_ok:
  assumes inv: "ainv s" and i: "i < anum s" and k: "kok le"
  shows "aok (phase i) (aio_phase le i s)"
proof (cases "state (aclients s ! i) = STATE_AIO")
  case True
  let ?c = "aclients s ! i"
  obtain A where t: "table_ok A (add_mset ?c (others i s)) s" and g: "good A (add_mset ?c (others i s)) s"
    by (rule ainv_slot [OF inv i])
  have "phase i (True, put_client i c' s')" if "served A (others i s) ?c s (c', s')" for c' s'
    by (rule phase_put [OF inv i table_keep [OF t]]) (use that in \<open>auto simp: served_def keeps_def\<close>)
  then have "aok (phase i) (cbind (check_aio (ae_malloc le (sock ?c)) (ae_aio le (sock ?c) (a_path s (file_fd ?c))) i ?c s)
      (\<lambda>(c', s'). Inr (True, put_client i c' s')))"
    by (intro aok_bind [OF check_aio_ok [OF g True k]]) auto
  with True show ?thesis by (simp add: aio_phase_def Let_def)
qed (use assms in \<open>simp add: aio_phase_def Let_def phase_def\<close>)

text \<open>The bytes \<open>d\<close> arrive on the connection of slot \<open>i\<close> and the lines they complete are served.\<close>

lemma read_served:
  assumes inv: "ainv s" and i: "i < anum s" and v: "\<forall>t. vok (env t)" and st: "state (aclients s ! i) = STATE_READING"
    and d: "length d \<le> REQ_BUF_SIZE - 1 - req_len (aclients s ! i)"
  shows "aok (\<lambda>(c', s'). phase i (True, put_client i c' s'))
    (aio_requests env i ((aclients s ! i)\<lparr>req_buf := blit (req_buf (aclients s ! i)) (req_len (aclients s ! i)) d,
        req_len := req_len (aclients s ! i) + length d\<rparr>)
      (s\<lparr>a_rcvd := (a_rcvd s)(sock (aclients s ! i) := a_rcvd s (sock (aclients s ! i)) @ d)\<rparr>))"
proof -
  let ?c = "aclients s ! i"
  let ?c1 = "?c\<lparr>req_buf := blit (req_buf ?c) (req_len ?c) d, req_len := req_len ?c + length d\<rparr>"
  let ?s1 = "s\<lparr>a_rcvd := (a_rcvd s)(sock ?c := a_rcvd s (sock ?c) @ d)\<rparr>"
  obtain A where t: "table_ok A (add_mset ?c (others i s)) s" and g: "good A (add_mset ?c (others i s)) s"
    by (rule ainv_slot [OF inv i])
  have ok: "length (req_buf ?c) = REQ_BUF_SIZE" "req_len ?c \<le> REQ_BUF_SIZE - 1"
    using good_client [OF g, of ?c] by (simp_all add: client_ok_def)
  have len: "req_len ?c + length d \<le> REQ_BUF_SIZE - 1" "req_len ?c + length d \<le> length (req_buf ?c)" using ok d by simp_all
  then have "length (blit (req_buf ?c) (req_len ?c) d) = REQ_BUF_SIZE" using ok(1) by simp
  from good_req [OF g this len(1)] have g1: "good A (add_mset ?c1 (others i s)) ?s1" using good_cong [of ?s1 s] by simp
  have "heard (A (sock ?c)) (a_rcvd s (sock ?c)) (unread ?c)" using t by (simp add: table_ok_def)
  from heard_more [OF this, of d] have hrd: "heard (A (sock ?c)) (a_rcvd s (sock ?c) @ d) (unread ?c1)"
    using len(2) by simp
  have "aok (lines_done A (others i s) (a_rcvd s (sock ?c) @ d) ?c1 ?s1) (aio_requests env i ?c1 ?s1)"
    by (rule aio_requests_ok [OF g1 _ v]) (use st hrd in simp_all)
  then show ?thesis
  proof (rule aok_mono, clarsimp)
    fix c' s' assume "lines_done A (others i s) (a_rcvd s (sock ?c) @ d) ?c1 ?s1 (c', s')"
    then obtain A' where A': "good A' (add_mset c' (others i s)) s'" "keeps ?s1 s'" "sock c' = sock ?c"
      "\<forall>x. x \<noteq> sock ?c \<longrightarrow> A' x = A x" "heard (A' (sock ?c)) (a_rcvd s (sock ?c) @ d) (unread c')"
      by (auto simp: lines_done_def)
    have "table_ok A' (add_mset c' (others i s)) s'"
      by (rule table_put [OF t A'(1,3)]) (use A' in \<open>simp_all add: keeps_def\<close>)
    then show "phase i (True, put_client i c' s')" by (rule phase_put [OF inv i]) (use A'(2) in \<open>simp_all add: keeps_def\<close>)
  qed
qed

lemma read_phase_ok:
  assumes inv: "ainv s" and i: "i < anum s" and v: "\<forall>t. vok (env t)"
  shows "aok (phase i) (read_phase env le rset i s)"
proof (cases "state (aclients s ! i) = STATE_READING \<and> sock (aclients s ! i) \<in> rset")
  case True
  let ?c = "aclients s ! i"
  note drop = drop_client_ok [OF inv i, of le]
  show ?thesis
  proof (cases "ae_read le (sock ?c)")
    case (R bs)
    define d where "d = take (REQ_BUF_SIZE - 1 - req_len ?c) bs"
    have "aok (phase i) (if REQ_BUF_SIZE - 1 \<le> req_len c' then drop_client le i s' else Inr (True, s'))"
      if "phase i (True, s')" for c' s'
      using that drop_client_ok [of s' i le] by (simp add: phase_def)
    then have "aok (phase i) (cbind (aio_requests env i (?c\<lparr>req_buf := blit (req_buf ?c) (req_len ?c) d, req_len := req_len ?c + length d\<rparr>)
        (s\<lparr>a_rcvd := (a_rcvd s)(sock ?c := a_rcvd s (sock ?c) @ d)\<rparr>)) (\<lambda>(c', s').
        let s2 = put_client i c' s' in if REQ_BUF_SIZE - 1 \<le> req_len c' then drop_client le i s2 else Inr (True, s2)))"
      by (intro aok_bind [OF read_served [OF inv i v]]) (use True in \<open>auto simp: d_def Let_def\<close>)
    then show ?thesis using True R drop by (simp add: read_phase_def Let_def d_def)
  qed (use True drop in \<open>simp add: read_phase_def Let_def\<close>)
qed (use assms in \<open>auto simp: read_phase_def Let_def phase_def\<close>)

subsection \<open>Sending a response from memory\<close>

lemma good_wrote:
  assumes g: "good A (add_mset c X) s" and st: "state c = STATE_WRITING" and b: "aheap s (a_resp c) = Some b"
    and n: "a_sent c + n \<le> a_size c"
  shows "good A (add_mset (c\<lparr>a_sent := a_sent c + n\<rparr>) X)
    (s\<lparr>peer := (peer s)(sock c := peer s (sock c) @ take n (drop (a_sent c) b))\<rparr>)"
proof (rule good_stay [OF g])
  let ?c = "c\<lparr>a_sent := a_sent c + n\<rparr>" and ?s = "s\<lparr>peer := (peer s)(sock c := peer s (sock c) @ take n (drop (a_sent c) b))\<rparr>"
  show "client_ok (aheap s) ?c" using good_client [OF g, of c] st n by (simp add: client_ok_def block_ok_def)
  show "no_error (awrs ?s) \<and> stream_ok (A (sock c)) ?s ?c" if "no_error (awrs s)" and str: "stream_ok (A (sock c)) s c"
  proof -
    from str st b obtain d where d: "halfway (A (sock c)) (cache_key c) d (take (a_sent c) b) (peer s (sock c))" "b = ok_frame d"
      by (auto simp: stream_ok_def Let_def)
    from halfway_more [OF d(1), of "take n (drop (a_sent c) b)"] that st b d(2) show ?thesis
      by (auto simp: stream_ok_def Let_def take_add)
  qed
qed (use st in \<open>simp_all add: aio_of\<close>)

lemma good_written:
  assumes g: "good A (add_mset c X) s" and st: "state c = STATE_WRITING" and fin: "a_sent c = a_size c"
  shows "good A (add_mset (c\<lparr>a_resp := 0, state := STATE_READING\<rparr>) X) (s\<lparr>aheap := (aheap s)(a_resp c := None)\<rparr>)"
proof (rule good_step [OF g, where r = "a_resp c" and ob = None])
  let ?c = "c\<lparr>a_resp := 0, state := STATE_READING\<rparr>" and ?s = "s\<lparr>aheap := (aheap s)(a_resp c := None)\<rparr>"
  note own = own_block [OF g disjI2 [OF st]]
  show "client_ok (aheap ?s) ?c" using good_client [OF g, of c] by (simp add: client_ok_def block_ok_def)
  show "no_error (awrs ?s) \<and> stream_ok (A (sock c)) ?s ?c" if "no_error (awrs s)" "stream_ok (A (sock c)) s c"
    using that own(2) st fin halfway_done by (fastforce simp: stream_ok_def Let_def)
  show "\<forall>a. count (mem_of ?c) a + one_if (aheap s a \<noteq> None) = count (mem_of c) a + one_if (aheap ?s a \<noteq> None)"
    using own(2,5) by (auto simp: mem_of_def)
  show "a_resp c \<notin> cache_owned (acache s)" "a_resp c \<notin># mems X" by (rule own)+
qed (use st in \<open>simp_all add: aio_of\<close>)

lemma write_phase_ok:
  assumes inv: "ainv s" and i: "i < anum s"
  shows "aok (phase i) (write_phase le wset i s)"
proof (cases "state (aclients s ! i) = STATE_WRITING \<and> sock (aclients s ! i) \<in> wset")
  case True
  let ?c = "aclients s ! i" and ?X = "others i s"
  obtain A where t: "table_ok A (add_mset ?c ?X) s" and g: "good A (add_mset ?c ?X) s" by (rule ainv_slot [OF inv i])
  have st: "state ?c = STATE_WRITING" using True by blast
  note own = own_block [OF g disjI2 [OF st]]
  from own(2) obtain b where b: "aheap s (a_resp ?c) = Some b" "length b = a_size ?c" by blast
  have le: "a_sent ?c \<le> a_size ?c" using good_client [OF g, of ?c] st by (simp add: client_ok_def block_ok_def)
  then have rd: "h_read (a_resp ?c) (a_sent ?c) (a_size ?c - a_sent ?c) (aheap s) = Inr (drop (a_sent ?c) b)"
    using b by (simp add: h_read_def)
  show ?thesis
  proof (cases "nb_write (ae_write le (sock ?c)) (drop (a_sent ?c) b)")
    case (Some n)
    let ?c1 = "?c\<lparr>a_sent := a_sent ?c + n\<rparr>"
    let ?s1 = "s\<lparr>peer := (peer s)(sock ?c := peer s (sock ?c) @ take n (drop (a_sent ?c) b))\<rparr>"
    have "a_sent ?c + n \<le> a_size ?c" using Some b(2) le by (auto simp: nb_write_def split: wres.splits if_splits)
    note g1 = good_wrote [OF g st b(1) this]
    show ?thesis
    proof (cases "a_sent ?c + n = a_size ?c")
      case False
      have "phase i (True, put_client i ?c1 ?s1)" by (rule phase_put [OF inv i table_keep [OF t g1]]) simp_all
      with False True rd Some show ?thesis by (simp add: write_phase_def Let_def)
    next
      case fin: True
      let ?c2 = "?c1\<lparr>a_resp := 0, state := STATE_READING\<rparr>" and ?s2 = "?s1\<lparr>aheap := (aheap s)(a_resp ?c := None)\<rparr>"
      have "good A (add_mset ?c2 ?X) ?s2" using good_written [OF g1] st fin by simp
      then have "phase i (True, put_client i ?c2 ?s2)" by (intro phase_put [OF inv i table_keep [OF t]]) simp_all
      with fin True rd Some own(6) show ?thesis by (simp add: write_phase_def Let_def)
    qed
  qed (use True rd drop_client_ok [OF assms] in \<open>simp add: write_phase_def Let_def\<close>)
qed (use assms in \<open>auto simp: write_phase_def Let_def phase_def\<close>)

subsection \<open>Sending a large file\<close>

lemma good_chunk:
  assumes g: "good A (add_mset c X) s" and st: "state c = STATE_SENDFILE"
    and k: "kok le" "ae_sendfile le x (a_path s (sf_fd c)) (sf_offset c) = R bs" and e: "e = take (sf_remaining c) bs"
  shows "good A (add_mset (c\<lparr>sf_offset := sf_offset c + length e, sf_remaining := sf_remaining c - length e\<rparr>) X)
    (s\<lparr>peer := (peer s)(sock c := peer s (sock c) @ e)\<rparr>)"
proof (rule good_stay [OF g])
  let ?c = "c\<lparr>sf_offset := sf_offset c + length e, sf_remaining := sf_remaining c - length e\<rparr>"
  let ?s = "s\<lparr>peer := (peer s)(sock c := peer s (sock c) @ e)\<rparr>"
  show "client_ok (aheap s) ?c" using good_client [OF g, of c] st by (simp add: client_ok_def block_ok_def)
  show "no_error (awrs ?s) \<and> stream_ok (A (sock c)) ?s ?c" if "no_error (awrs s)" and str: "stream_ok (A (sock c)) s c"
  proof -
    let ?o = "sf_offset c" and ?hd = "\<lambda>d::bytes. ok_header (int (length d))"
    from str st obtain d where d: "halfway (A (sock c)) (cache_key c) d (?hd d @ take ?o d) (peer s (sock c))"
      "a_path s (sf_fd c) = cache_key c" "?o \<le> length d" "sf_remaining c = length d - ?o" by (auto simp: stream_ok_def Let_def)
    then have "content (cache_key c) d" by (simp add: halfway_def)
    from sendfile_content [OF k [unfolded d(2)] this d(3)] obtain d' where d': "content (cache_key c) d'"
      "length d' = length d" "take (?o + length e) d' = take ?o d @ e" unfolding e d(4) by blast
    have "halfway (A (sock c)) (cache_key c) d' (?hd d' @ take (?o + length e) d') (peer s (sock c) @ e)"
      using halfway_content [OF halfway_more [OF d(1), of e] d'(1)] d'(2,3) by simp
    then show ?thesis using that st d d'(2) by (auto simp: stream_ok_def Let_def e intro!: exI [of _ d'])
  qed
qed (use st in \<open>simp_all add: aio_of\<close>)

lemma good_sent:
  assumes g: "good A (add_mset c X) s" and st: "state c = STATE_SENDFILE" and fin: "sf_remaining c = 0"
  shows "good A (add_mset (c\<lparr>sf_fd := -1, state := STATE_READING\<rparr>) X) (s\<lparr>afiles := afiles s - {sf_fd c}\<rparr>)"
proof (rule good_stay [OF g])
  let ?c = "c\<lparr>sf_fd := -1, state := STATE_READING\<rparr>" and ?s = "s\<lparr>afiles := afiles s - {sf_fd c}\<rparr>"
  show "client_ok (aheap s) ?c" using good_client [OF g, of c] st by (simp add: client_ok_def block_ok_def)
  show "no_error (awrs ?s) \<and> stream_ok (A (sock c)) ?s ?c" if "no_error (awrs s)" "stream_ok (A (sock c)) s c"
    using that st fin halfway_done by (auto simp: stream_ok_def Let_def)
  show "\<forall>x. count (file_of ?c) x + one_if (x \<in> afiles s) = count (file_of c) x + one_if (x \<in> afiles ?s)"
    using good_file [OF g, of "sf_fd c"] st by (auto simp: file_of_def split: if_splits)
qed (use st in \<open>simp_all add: mem_of_def\<close>)

text \<open>The test for the end of the file, after a chunk or after no progress.\<close>

lemma sendfile_finish:
  assumes inv: "ainv s" and i: "i < anum s" and t: "table_ok A (add_mset (aclients s ! i) (others i s)) s"
    and g: "good A (add_mset c (others i s)) s1" and st: "state c = STATE_SENDFILE"
    and same: "sock c = sock (aclients s ! i)" "unread c = unread (aclients s ! i)" "keeps s s1"
  shows "phase i (if sf_remaining c = 0
    then (True, put_client i (c\<lparr>sf_fd := -1, state := STATE_READING\<rparr>) (s1\<lparr>afiles := afiles s1 - {sf_fd c}\<rparr>))
    else (True, put_client i c s1))"
proof -
  have "phase i (True, put_client i c s1)"
    by (rule phase_put [OF inv i table_keep [OF t g]]) (use same in \<open>simp_all add: keeps_def\<close>)
  moreover have "phase i (True, put_client i (c\<lparr>sf_fd := -1, state := STATE_READING\<rparr>) (s1\<lparr>afiles := afiles s1 - {sf_fd c}\<rparr>))"
    if "sf_remaining c = 0"
    by (rule phase_put [OF inv i table_keep [OF t good_sent [OF g st that]]]) (use same in \<open>simp_all add: keeps_def\<close>)
  ultimately show ?thesis by simp
qed

lemma sendfile_phase_ok:
  assumes inv: "ainv s" and i: "i < anum s" and k: "kok le"
  shows "aok (phase i) (sendfile_phase le wset i s)"
proof (cases "state (aclients s ! i) = STATE_SENDFILE \<and> sock (aclients s ! i) \<in> wset")
  case True
  let ?c = "aclients s ! i"
  obtain A where t: "table_ok A (add_mset ?c (others i s)) s" and g: "good A (add_mset ?c (others i s)) s"
    by (rule ainv_slot [OF inv i])
  have st: "state ?c = STATE_SENDFILE" using True by blast
  note finish = sendfile_finish [OF inv i t]
  show ?thesis
  proof (cases "ae_sendfile le (sock ?c) (a_path s (sf_fd ?c)) (sf_offset ?c)")
    case (R bs)
    from finish [OF good_chunk [OF g st k R refl]] st True R show ?thesis
      by (auto simp: sendfile_phase_def Let_def keeps_def split: if_splits)
  next
    case (RErr e)
    from finish [OF g st] True RErr drop_client_ok [OF inv i] show ?thesis
      by (auto simp: sendfile_phase_def Let_def split: if_splits)
  qed
qed (use assms in \<open>auto simp: sendfile_phase_def Let_def phase_def\<close>)

subsection \<open>The client loop\<close>

lemma andthen_ok:
  assumes "aok (phase i) m" "\<And>s. ainv s \<Longrightarrow> i < anum s \<Longrightarrow> aok (phase i) (f s)"
  shows "aok (phase i) (andthen m f)"
  unfolding andthen_def by (rule aok_bind [OF assms(1)]) (use assms(2) in \<open>auto simp: phase_def\<close>)

lemma aio_body_ok:
  assumes "ainv s" "i < anum s" "\<forall>t. vok (env t)" "kok le"
  shows "aok (phase i) (aio_body env le rset wset i s)"
  unfolding aio_body_def
  by (intro andthen_ok probe_phase_ok aio_phase_ok read_phase_ok write_phase_ok sendfile_phase_ok assms)

lemma aio_client_loop_ok:
  assumes "ainv s" "n \<le> anum s" "\<forall>t. vok (env t)" "kok le"
  shows "aok ainv (aio_client_loop env le rset wset n s)"
  using assms
proof (induction n arbitrary: s)
  case (Suc n)
  show ?case unfolding aio_client_loop.simps
    by (rule aok_bind [OF aio_body_ok [of s n env le]]) (use Suc in \<open>auto simp: phase_def\<close>)
qed simp

subsection \<open>New connections\<close>

lemma good_add:
  assumes g: "good A M s" and new: "sock c \<notin> asocks s" and c: "state c = STATE_READING" "client_ok Map.empty c"
    and s': "a_docroot s' = a_docroot s" "acache s' = acache s" "aheap s' = aheap s" "afiles s' = afiles s"
      "asocks s' = insert (sock c) (asocks s)" "peer s' = (peer s)(sock c := [])" "awrs s' = awrs s" "a_path s' = a_path s"
  shows "good (A(sock c := [])) (add_mset c M) s'"
proof -
  have "count (image_mset sock M) (sock c) = 0" using good_sock [OF g, of "sock c"] new by simp
  then have "sock c \<notin># image_mset sock M" by (simp only: not_in_count)
  then have ne: "sock d \<noteq> sock c" if "d \<in># M" for d using that by (metis image_eqI set_image_mset)
  have "client_ok (aheap s) c" by (rule client_ok_heap [OF c(2)]) (simp add: mem_of_def c)
  moreover have "holds_socks (add_mset c M) (asocks s')" unfolding holds_socks_def
  proof
    fix x
    show "count (image_mset sock (add_mset c M)) x = one_if (x \<in> asocks s')"
      using good_sock [OF g, of x] new by (auto simp: s')
  qed
  moreover have "stream_ok ((A(sock c := [])) (sock d)) s' d" if "d \<in># M" clean for d
    using stream_ok_same [of d s s'] good_clean(3) [OF g that(2,1)] ne [OF that(1)] by (simp add: same_for_def s')
  moreover have "stream_ok [] s' c" by (simp add: stream_ok_def Let_def c s')
  moreover have "accounts (add_mset c M) (acache s') (aheap s')" "holds_files (add_mset c M) (afiles s')"
    using g c by (simp_all add: good_def accounts_def holds_files_def s' aio_of)
  ultimately show ?thesis using g by (simp add: good_def s' cached_ok_def)
qed

lemma aio_add_client_ok:
  assumes inv: "ainv s" and new: "fst conn \<notin> asocks s"
  shows "ainv (aio_add_client conn s)"
proof (cases "MAX_CLIENTS \<le> anum s")
  case False
  obtain cfd cip cport where conn: "conn = (cfd, cip, cport)" by (cases conn)
  let ?c = "aclient0\<lparr>sock := cfd, state := STATE_READING, a_port := cport, a_ip := cip\<rparr>"
  define s' where "s' = aio_add_client conn s"
  have s': "s' = s\<lparr>asocks := insert cfd (asocks s), peer := (peer s)(cfd := []), a_rcvd := (a_rcvd s)(cfd := []),
      aclients := (aclients s)[anum s := ?c], anum := anum s + 1\<rparr>"
    using False by (simp add: s'_def aio_add_client_def conn)
  obtain A where t: "good A (mset (alive s)) s" "\<forall>d\<in>set (alive s). heard (A (sock d)) (a_rcvd s (sock d)) (unread d)"
    using inv by (auto simp: ainv_def table_ok_def)
  have "good (A(sock ?c := [])) (add_mset ?c (mset (alive s))) s'"
    by (rule good_add [OF t(1)]) (use new in
      \<open>auto simp: s' conn client_ok_def block_ok_def aclient0_def REQ_BUF_SIZE_def PATH_MAX_def\<close>)
  then have g: "good (A(cfd := [])) (add_mset ?c (mset (alive s))) s'" by simp
  have "sock d \<noteq> cfd" if "d \<in> set (alive s)" for d using good_others(1) [OF g] that by simp
  then have "table_ok (A(cfd := [])) (add_mset ?c (mset (alive s))) s'"
    using g t(2) by (auto simp: table_ok_def s' aclient0_def) (auto simp: heard_def)
  moreover have "anum s < length (aclients s)" using inv False by (simp add: ainv_def)
  then have "mset (alive s') = add_mset ?c (mset (alive s))" by (simp add: alive_def s' take_Suc_conv_app_nth)
  ultimately have "ainv s'" using inv False unfolding ainv_def by (auto simp: s' simp del: fun_upd_apply)
  then show ?thesis by (simp add: s'_def)
qed (use inv in \<open>simp add: aio_add_client_def split: prod.split\<close>)

lemma aio_accept_loop_ok:
  assumes "ainv s" "distinct (map fst conns)" "set (map fst conns) \<inter> asocks s = {}"
  shows "ainv (aio_accept_loop conns s)"
  using assms
proof (induction conns arbitrary: s)
  case (Cons conn conns)
  have add: "ainv (aio_add_client conn s)" by (rule aio_add_client_ok) (use Cons.prems in auto)
  have "asocks (aio_add_client conn s) \<subseteq> insert (fst conn) (asocks s)" by (auto simp: aio_add_client_def split: prod.splits)
  moreover have "set (map fst conns) \<inter> insert (fst conn) (asocks s) = {}" using Cons.prems(2,3) by simp
  ultimately have "set (map fst conns) \<inter> asocks (aio_add_client conn s) = {}" by blast
  with Cons.IH [OF add] Cons.prems show ?case by simp
qed simp

subsection \<open>A turn of the loop\<close>

lemma good_clear:
  assumes g: "good A M s" and h: "cache_inv k h" "cache_entries k h = []" "cache_owned k = {}"
      "owner_step (cache_owned (acache s)) {} (aheap s) h"
    and s': "s' = s\<lparr>a_clear := False, acache := k, aheap := h\<rparr>"
  shows "good A M s'"
proof -
  have h': "h a = (if a \<in> cache_owned (acache s) then None else aheap s a)" for a
    using h(4) by (auto simp: owner_step_def)
  have acc: "accounts M k h" unfolding accounts_def
  proof
    fix a
    define n where "n = count (mems M) a"
    have "n + one_if (a \<in> cache_owned (acache s)) = one_if (aheap s a \<noteq> None)" unfolding n_def by (rule good_mem [OF g])
    then have "n + one_if (a \<in> cache_owned k) = one_if (h a \<noteq> None)" by (simp add: h(3) h' split: if_splits)
    then show "count (mems M) a + one_if (a \<in> cache_owned k) = one_if (h a \<noteq> None)" unfolding n_def .
  qed
  have same: "same_for d s s'" if "d \<in># M" for d
    using good_owned [OF g] that by (auto simp: same_for_def s' h')
  have "client_ok (aheap s') d" if "d \<in># M" for d
    by (rule client_ok_heap [OF good_client [OF g that]]) (use same [OF that] in \<open>auto simp: same_for_def\<close>)
  moreover have "no_error (awrs s') \<and> cached_ok s' \<and> (\<forall>d\<in>#M. stream_ok (A (sock d)) s' d)" if clean
    using good_clean [OF g that] stream_ok_same [OF same] by (simp add: cached_ok_def s' h(2))
  moreover have "h 0 = None" using good_cache(2) [OF g] by (simp add: h')
  ultimately show ?thesis using g acc h(1) by (simp add: good_def s')
qed

lemma clear_ok:
  assumes inv: "ainv s"
  shows "aok (\<lambda>s'. ainv s' \<and> asocks s' = asocks s)
    (if a_clear s then cbind (cache_clear (acache s) (aheap s)) (\<lambda>(c, h).
       Inr (s\<lparr>a_clear := False, acache := c, aheap := h\<rparr>)) else Inr s)"
proof (cases "a_clear s")
  case True
  obtain A where t: "good A (mset (alive s)) s" "\<forall>d\<in>set (alive s). heard (A (sock d)) (a_rcvd s (sock d)) (unread d)"
    using inv by (auto simp: ainv_def table_ok_def)
  from cache_clear_ok [OF good_cache(1) [OF t(1)]] obtain k h where c: "cache_clear (acache s) (aheap s) = Inr (k, h)"
    "cache_inv k h" "cache_entries k h = []" "cache_owned k = {}" "owner_step (cache_owned (acache s)) {} (aheap s) h"
    by blast
  let ?s = "s\<lparr>a_clear := False, acache := k, aheap := h\<rparr>"
  have "good A (mset (alive s)) ?s" by (rule good_clear [OF t(1) c(2-5) refl])
  moreover have "alive ?s = alive s" by (simp add: alive_def)
  ultimately have "ainv ?s" using inv t(2) by (auto simp: ainv_def table_ok_def)
  then show ?thesis using True c(1) by simp
qed (use inv in simp)

lemma aio_turn_ok:
  assumes inv: "ainv s" and v: "\<forall>t. vok (env t)" and k: "kok le" and acc: "aio_accept_ok listen_fd le s"
  shows "aok (\<lambda>(go, s'). ainv s') (aio_turn env le listen_fd s)"
  unfolding aio_turn_def
proof (rule aok_bind [OF clear_ok [OF inv]])
  fix s1 assume s1: "ainv s1 \<and> asocks s1 = asocks s"
  have a: "ainv (aio_accept_loop (ae_accept le) s1)"
    using s1 acc by (intro aio_accept_loop_ok) (auto simp: aio_accept_ok_def)
  have loop: "aok ainv (aio_client_loop env le r w (anum t) t)" if "ainv t" for r w t
    by (rule aio_client_loop_ok [OF that order_refl v k])
  show "aok (\<lambda>(go, s'). ainv s') (case ae_select le of Inl e \<Rightarrow> Inr (e = EINTR, s1)
      | Inr (rds, wds) \<Rightarrow>
         let rset = rds \<inter> insert listen_fd (sock ` set (alive s1));
             wset = wds \<inter> sock ` {c \<in> set (alive s1). state c = STATE_WRITING \<or> state c = STATE_SENDFILE};
             s2 = (if listen_fd \<in> rset then aio_accept_loop (ae_accept le) s1 else s1)
         in cbind (aio_client_loop env le rset wset (anum s2) s2) (\<lambda>s3. Inr (True, s3)))"
    using s1 a by (auto simp: Let_def split: sum.split prod.split intro!: aok_bind [OF loop])
qed

subsection \<open>Executions\<close>

lemma ainv_init: "ainv (aio_init root)"
proof -
  have "table_ok (\<lambda>_. []) {#} (aio_init root)"
    by (simp add: table_ok_def aio_init_def good_def accounts_def holds_files_def holds_socks_def cache_init_inv
        cached_ok_def no_error_def)
  moreover have "length (aclients (aio_init root)) = MAX_CLIENTS" "anum (aio_init root) = 0" "alive (aio_init root) = []"
    by (simp_all add: aio_init_def alive_def)
  ultimately show ?thesis unfolding ainv_def by auto
qed

lemma ainv_frame:
  assumes "ainv s" "clean \<Longrightarrow> no_error ws"
  shows "ainv (s\<lparr>awrs := ws\<rparr>)" "ainv (s\<lparr>a_running := x\<rparr>)" "ainv (s\<lparr>a_clear := x\<rparr>)"
proof -
  obtain A where t: "table_ok A (mset (alive s)) s" using assms(1) by (auto simp: ainv_def)
  have "table_ok A M (s\<lparr>a_running := x\<rparr>) = table_ok A M s" "table_ok A M (s\<lparr>a_clear := x\<rparr>) = table_ok A M s" for M
    by (rule table_cong; simp)+
  moreover have "stream_ok asked (s\<lparr>awrs := ws\<rparr>) c = stream_ok asked s c" for asked c
    by (cases "state c") (simp_all add: stream_ok_def)
  then have "table_ok A (mset (alive s)) (s\<lparr>awrs := ws\<rparr>)"
    using t assms(2) by (auto simp: table_ok_def good_def cached_ok_def)
  ultimately show "ainv (s\<lparr>awrs := ws\<rparr>)" "ainv (s\<lparr>a_running := x\<rparr>)" "ainv (s\<lparr>a_clear := x\<rparr>)"
    using assms(1) t by (auto simp: ainv_def alive_def)
qed

lemma aio_run_inv:
  assumes "ainv (snd x)" "aio_run vok wok listen_fd x y" "\<forall>ws le. wok ws le \<longrightarrow> kok le \<and> (clean \<longrightarrow> no_error ws)"
  shows "ainv (snd y)"
proof -
  from assms(2) obtain env where v: "\<forall>t. vok (env t)" and st: "aio_step wok env listen_fd x y"
    by (auto simp: aio_run_def)
  from st show ?thesis
  proof (cases rule: aio_step.cases)
    case (turn s le ws go s')
    have "aok (\<lambda>(go, s'). ainv s') (aio_turn env le listen_fd (s\<lparr>awrs := ws\<rparr>))"
      by (rule aio_turn_ok [OF ainv_frame(1) v])
        (use turn assms(1,3) in \<open>auto simp: aio_accept_ok_def\<close>)
    with turn show ?thesis by simp
  next
    case (sigint b s)
    then show ?thesis using ainv_frame(2) [of s "[]"] assms(1) by (simp add: no_error_def)
  next
    case (sigusr1 b s)
    then show ?thesis using ainv_frame(3) [of s "[]"] assms(1) by (simp add: no_error_def)
  qed (use assms(1) in simp)
qed

subsection \<open>What the invariant says\<close>

lemma good_dom:
  assumes g: "good A (mset (alive s)) s"
  shows "dom (aheap s) = cache_owned (acache s) \<union> a_resp ` set (holders s)"
    and "distinct (map a_resp (holders s))" "cache_owned (acache s) \<inter> a_resp ` set (holders s) = {}"
    and "afiles s = set (open_files (alive s))" "distinct (open_files (alive s))"
    and "asocks s = sock ` set (alive s)" "distinct (map sock (alive s))"
proof -
  have mem: "count (mset (map a_resp (holders s))) a + one_if (a \<in> cache_owned (acache s)) = one_if (aheap s a \<noteq> None)" for a
    using good_mem [OF g, of a] unfolding mems_list .
  have fl: "count (mset (open_files (alive s))) x = one_if (x \<in> afiles s)" for x
    using good_file [OF g, of x] unfolding files_list .
  have sk: "count (mset (map sock (alive s))) x = one_if (x \<in> asocks s)" for x
    using good_sock [OF g, of x] by simp
  have held: "a \<in> a_resp ` set (holders s) \<longleftrightarrow> 0 < count (mset (map a_resp (holders s))) a" for a
    unfolding count_greater_zero_iff by simp
  have one: "one_if b \<le> 1" for b by simp
  have "count (mset (map a_resp (holders s))) a \<le> 1" for a using mem [of a] one [of "aheap s a \<noteq> None"] by linarith
  then show "distinct (map a_resp (holders s))" by (rule distinct_counts)
  show "distinct (open_files (alive s))" "distinct (map sock (alive s))"
    by (rule distinct_counts, simp only: fl sk one)+
  have "(a \<in> dom (aheap s) \<longleftrightarrow> a \<in> cache_owned (acache s) \<or> a \<in> a_resp ` set (holders s)) \<and>
      \<not> (a \<in> cache_owned (acache s) \<and> a \<in> a_resp ` set (holders s))" for a
  proof -
    define n where "n = count (mset (map a_resp (holders s))) a"
    have "n + one_if (a \<in> cache_owned (acache s)) = one_if (aheap s a \<noteq> None)" unfolding n_def by (rule mem)
    then have "(a \<in> dom (aheap s) \<longleftrightarrow> a \<in> cache_owned (acache s) \<or> 0 < n) \<and> \<not> (a \<in> cache_owned (acache s) \<and> 0 < n)"
      by (auto split: if_splits)
    then show ?thesis unfolding n_def held .
  qed
  then show "dom (aheap s) = cache_owned (acache s) \<union> a_resp ` set (holders s)"
    "cache_owned (acache s) \<inter> a_resp ` set (holders s) = {}" by blast+
  have "x \<in> afiles s \<longleftrightarrow> x \<in># mset (open_files (alive s))" "x \<in> asocks s \<longleftrightarrow> x \<in># mset (map sock (alive s))" for x
    unfolding in_count fl sk by simp_all
  then show "afiles s = set (open_files (alive s))" "asocks s = sock ` set (alive s)" by auto
qed

text \<open>The shutdown closes every socket and frees the whole cache; what replies in flight hold is left.\<close>

lemma aio_exit:
  assumes g: "good A (mset (alive s)) s"
  shows "\<exists>s'. aio_finish listen_fd aio_sfd s = Inr (map sock (alive s) @ [listen_fd, aio_sfd], s') \<and>
    asocks s' = {} \<and> dom (aheap s') = dom (aheap s) - cache_owned (acache s)"
proof -
  obtain c h where ch: "cache_clear (acache s) (aheap s) = Inr (c, h)"
    "owner_step (cache_owned (acache s)) {} (aheap s) h"
    using cache_clear_ok [OF good_cache(1) [OF g]] by blast
  then have "h a = (if a \<in> cache_owned (acache s) then None else aheap s a)" for a by (simp add: owner_step_def)
  then have "dom h = dom (aheap s) - cache_owned (acache s)" by (auto simp: dom_def split: if_splits)
  moreover have "asocks s = sock ` set (alive s)" using good_dom [OF g] by blast
  ultimately show ?thesis using ch(1) by (simp add: aio_finish_def)
qed

lemma halfway_reply:
  assumes "halfway asked p d sofar out" "ok_frame d = sofar @ rest"
  shows "\<exists>rs. list_all2 ans asked rs \<and> out @ rest = concat rs \<and> length rest \<le> length (last rs)"
proof -
  from assms(1) obtain fs f v pre where *: "asked = fs @ [f]" "answered fs pre" "vok v" "inside root v f p" "content p d"
    "out = pre @ sofar" by (auto simp: halfway_def)
  then obtain rs where "list_all2 ans fs rs" "pre = concat rs" by (auto simp: answered_def)
  with * assms(2) ans_file [OF *(3-5)] show ?thesis
    by (intro exI [of _ "rs @ [ok_frame d]"]) (simp add: list_all2_appendI)
qed

lemma stream_replies:
  assumes str: "stream_ok asked s c"
  shows "\<exists>rs rest. list_all2 ans asked rs \<and> peer s (sock c) @ rest = concat rs \<and> length rest \<le> length (last rs) \<and>
    (state c = STATE_READING \<longrightarrow> rest = [])"
proof (cases "state c = STATE_READING")
  case True
  with str show ?thesis by (auto simp: stream_ok_def Let_def answered_def)
next
  case False
  have "\<exists>d sofar. halfway asked (cache_key c) d sofar (peer s (sock c)) \<and> (\<exists>rest. ok_frame d = sofar @ rest)"
  proof (cases "state c")
    case STATE_SENDFILE
    with str obtain d where "halfway asked (cache_key c) d (ok_header (int (length d)) @ take (sf_offset c) d) (peer s (sock c))"
      by (auto simp: stream_ok_def Let_def)
    moreover have "ok_frame d = (ok_header (int (length d)) @ take (sf_offset c) d) @ drop (sf_offset c) d" by simp
    ultimately show ?thesis by blast
  next
    case STATE_WRITING
    with str obtain d where "halfway asked (cache_key c) d (take (a_sent c) (ok_frame d)) (peer s (sock c))"
      by (auto simp: stream_ok_def Let_def)
    then show ?thesis by (metis append_take_drop_id)
  next
    case STATE_AIO
    with str obtain d where "halfway asked (cache_key c) d [] (peer s (sock c))" by (auto simp: stream_ok_def Let_def)
    then show ?thesis by (metis append_Nil)
  qed (use False in \<open>auto simp: stream_ok_def Let_def\<close>)
  with halfway_reply False show ?thesis by blast
qed

lemma ainv_conversation:
  assumes inv: "ainv s" and cl: clean and c: "c \<in> set (alive s)"
  shows "\<exists>rest. conversation (\<lambda>l. ans (request_of l)) (a_rcvd s (sock c)) (unread c) (peer s (sock c)) rest \<and>
    (state c = STATE_READING \<longrightarrow> rest = [])"
proof -
  obtain A where t: "good A (mset (alive s)) s" "heard (A (sock c)) (a_rcvd s (sock c)) (unread c)"
    using inv c by (auto simp: ainv_def table_ok_def)
  have m: "c \<in># mset (alive s)" using c by simp
  from stream_replies [OF good_clean(3) [OF t(1) cl m]] obtain rs rest where
    rs: "list_all2 ans (A (sock c)) rs" "peer s (sock c) @ rest = concat rs" "length rest \<le> length (last rs)"
    "state c = STATE_READING \<longrightarrow> rest = []" by blast
  from t(2) obtain ls where "a_rcvd s (sock c) = concat (map (\<lambda>l. l @ [NL]) ls) @ unread c" "\<forall>l\<in>set ls. NL \<notin> set l"
    "A (sock c) = map request_of ls" by (auto simp: heard_def)
  with rs show ?thesis unfolding conversation_def by (auto simp: list_all2_map1)
qed

end

end
