(* ===== verification/AioRuns.thy ===== *)
theory AioRuns
  imports AioLoop
begin

section \<open>An execution of the asynchronous server\<close>

text \<open>
  A file system with the one file \<^verbatim>\<open>/srv/a\<close>, and executions on it from \<^verbatim>\<open>main\<close> on, turn by turn: connections
  on the descriptors 7 and 8, a request for the file on 8, and then either the reply to it, or the end
  of the connection on 7. They show that the properties of the server speak of something.
\<close>

subsection \<open>The calls\<close>

definition one_path :: "string \<Rightarrow> string option" where
  "one_path p = (if p = ''/srv/a'' then Some p else None)"

text \<open>A fresh address and a fresh descriptor, whatever is in use.\<close>

definition fresh_block :: malloc_choice where
  "fresh_block h = Some (if h 1 = None then 1 else Suc (Max (dom h)), \<lambda>_. NUL)"

definition fresh_fd :: "int set \<Rightarrow> int" where
  "fresh_fd used = (if 5 \<notin> used then 5 else max 0 (Max used + 1))"

definition one_view :: areqview where
  "one_view = \<lparr>v_realpath = one_path,
     v_stat = \<lambda>p. if p = ''/srv/a'' then Some \<lparr>st_reg = True, st_size = 1\<rparr> else None,
     v_open = \<lambda>p. p = ''/srv/a'', v_malloc = fresh_block,
     v_pread = \<lambda>p. if p = ''/srv/a'' then Some ''x'' else None,
     v_chunks = \<lambda>p. if p = ''/srv/a'' then [''x''] else [],
     v_fd = fresh_fd, v_hit = \<lambda>_. None, v_aio = True, v_junk = True\<rparr>"

lemma fresh_block_gives: "gives_memory fresh_block"
proof -
  have "h (Suc (Max (dom h))) = None" if "finite (dom h)" for h :: heap
    using Max_ge [OF that, of "Suc (Max (dom h))"] by fastforce
  then show ?thesis by (simp add: gives_memory_def fresh_block_def)
qed

lemma fresh_fd_gives: "finite used \<Longrightarrow> 0 \<le> fresh_fd used \<and> fresh_fd used \<notin> used"
proof -
  assume "finite used"
  then have "max 0 (Max used + 1) \<notin> used" using Max_ge [of used] by (metis max.cobounded2 not_less zle_add1_eq_le)
  then show ?thesis by (simp add: fresh_fd_def)
qed

lemma one_view_ok: "aview_ok one_view" "gives_fd one_view" "gives_memory (v_malloc one_view)" "v_aio one_view"
  using fresh_fd_gives fresh_block_gives
  by (auto simp: aview_ok_def gives_fd_def one_view_def one_path_def PATH_MAX_def)

text \<open>The calls of a turn: what \<^verbatim>\<open>select\<close> reports, the new connections, what \<^verbatim>\<open>read\<close> returns and how the reads stand.\<close>

definition calls :: "int set \<Rightarrow> int set \<Rightarrow> (int \<times> string \<times> nat) list \<Rightarrow> bytes \<Rightarrow> aio_answer \<Rightarrow> aloop_env" where
  "calls rds wds conns bs ans = \<lparr>ae_select = Inr (rds, wds), ae_accept = conns, ae_peek = \<lambda>_. RErr EAGAIN,
     ae_read = \<lambda>_. R bs, ae_aio = \<lambda>_ p. if p = ''/srv/a'' then ans else AioBusy, ae_malloc = \<lambda>_ _. None, ae_cancel = \<lambda>_. True,
     ae_write = \<lambda>_. W 100, ae_sendfile = \<lambda>_ _ _. RErr EAGAIN\<rparr>"

lemma calls_simps [simp]:
  "ae_select (calls rds wds conns bs ans) = Inr (rds, wds)" "ae_accept (calls rds wds conns bs ans) = conns"
  "ae_peek (calls rds wds conns bs ans) x = RErr EAGAIN" "ae_read (calls rds wds conns bs ans) x = R bs"
  "ae_aio (calls rds wds conns bs ans) x p = (if p = ''/srv/a'' then ans else AioBusy)" "ae_malloc (calls rds wds conns bs ans) x = (\<lambda>_. None)"
  "ae_cancel (calls rds wds conns bs ans) x" "ae_write (calls rds wds conns bs ans) x = W 100"
  "ae_sendfile (calls rds wds conns bs ans) x p off = RErr EAGAIN"
  by (simp_all add: calls_def)

subsection \<open>The states\<close>

definition first_two :: "AClient \<Rightarrow> AClient \<Rightarrow> AClient list" where
  "first_two c d = c # d # replicate (MAX_CLIENTS - 2) aclient0"

lemma first_two_simps [simp]:
  "first_two c d ! 0 = c" "first_two c d ! Suc 0 = d" "(first_two c d)[0 := e] = first_two e d"
  "(first_two c d)[Suc 0 := e] = first_two c e" "take (Suc 0) (first_two c d) = [c]" "take (Suc (Suc 0)) (first_two c d) = [c, d]"
  "take 2 (first_two c d) = [c, d]" "first_two c d = first_two c' d' \<longleftrightarrow> c = c' \<and> d = d'"
  by (simp_all add: first_two_def take_Suc numeral_2_eq_2)

definition pair :: "AClient list \<Rightarrow> nat \<Rightarrow> aserver" where
  "pair cs n = (aio_init ''/srv'')\<lparr>aclients := cs, anum := n, asocks := {7, 8}\<rparr>"

abbreviation idle :: "int \<Rightarrow> AClient" where
  "idle x \<equiv> aclient0\<lparr>sock := x\<rparr>"

definition asked_buf :: bytes where
  "asked_buf = ''a'' @ NUL # replicate (REQ_BUF_SIZE - 2) NUL"

text \<open>The client on descriptor 8 while its file is read, and the server then.\<close>

definition waiting :: AClient where
  "waiting = (idle 8)\<lparr>req_buf := asked_buf, cache_key := ''/srv/a'', file_fd := 5, a_resp := 1, a_size := 7, a_sent := 0,
     aio_off := 6, aio_nbytes := 1, state := STATE_AIO\<rparr>"

definition started :: aserver where
  "started = (pair (first_two (idle 7) waiting) 2)\<lparr>aheap := [1 \<mapsto> ''+OK 1'' @ [NL, NUL]],
     a_rcvd := (\<lambda>_. [])(8 := ''a'' @ [NL]), afiles := {5}, a_path := (\<lambda>_. [])(5 := ''/srv/a''), a_inflight := {1}, aclock := 1\<rparr>"

subsection \<open>Two connections\<close>

lemma accept_turn:
  "aio_turn env (calls {3} {} [(7, [], 0), (8, [], 0)] bs ans) 3 ((aio_init ''/srv'')\<lparr>awrs := []\<rparr>) =
     Inr (True, pair (first_two (idle 7) (idle 8)) 2)"
proof -
  let ?s = "pair (first_two (idle 7) (idle 8)) 2"
  have i: "aio_init ''/srv''\<lparr>awrs := []\<rparr> = aio_init ''/srv''" by (simp add: aio_init_def)
  have tab: "(replicate MAX_CLIENTS aclient0)[0 := idle 7, Suc 0 := idle 8] = first_two (idle 7) (idle 8)"
    by (simp add: first_two_def MAX_CLIENTS_def numeral_eq_Suc)
  have acc: "aio_accept_loop [(7, [], 0), (8, [], 0)] (aio_init ''/srv'') = ?s"
    using tab by (simp add: aio_add_client_def aio_init_def pair_def MAX_CLIENTS_def aclient0_def insert_commute fun_upd_idem)
  have "aio_body env le {3} {} k ?s = Inr (True, ?s)" if "k \<in> {0, Suc 0}" for le k
    using that by (auto simp: aio_body_def andthen_def probe_phase_def aio_phase_def read_phase_def write_phase_def
        sendfile_phase_def pair_def aclient0_def)
  then have "aio_client_loop env le {3} {} (anum ?s) ?s = Inr ?s" for le by (simp add: pair_def numeral_2_eq_2)
  moreover have "a_clear (aio_init ''/srv'') = False" "alive (aio_init ''/srv'') = []" by (simp_all add: aio_init_def alive_def)
  ultimately show ?thesis unfolding i
    by (simp add: aio_turn_def acc Let_def del: aio_accept_loop.simps aio_client_loop.simps)
qed

subsection \<open>A request\<close>

lemma one_header: "ok_header 1 = ''+OK 1'' @ [NL]" "snprintf_out 64 (''+OK 1'' @ [NL]) = Inr (''+OK 1'' @ [NL])"
  by code_simp+

lemma request_started:
  "begin_file_serve (\<lambda>_. one_view) (Suc 0) ((idle 8)\<lparr>req_buf := asked_buf, req_len := 2\<rparr>) ''a''
     ((pair cs 2)\<lparr>a_rcvd := rc\<rparr>) =
   Inr (waiting\<lparr>req_len := 2\<rparr>, (pair cs 2)\<lparr>aheap := [1 \<mapsto> ''+OK 1'' @ [NL, NUL]], a_rcvd := rc,
     afiles := {5}, a_path := (\<lambda>_. [])(5 := ''/srv/a''), a_inflight := {1}, aclock := 1\<rparr>)"
proof -
  have p: "candidate ''/srv'' ''a'' = ''/srv/a''" "in_docroot ''/srv'' ''/srv/a''" "strncpy (PATH_MAX - Suc 0) ''/srv/a'' = ''/srv/a''"
    "cache_lookup ''/srv/a'' cache_init = None"
    by (simp_all add: candidate_def in_docroot_def PATH_MAX_def cache_lookup_def cache_init_def cache_find.simps)
  have m: "h_malloc fresh_block n Map.empty = Some (Suc 0, [Suc 0 \<mapsto> replicate n NUL])" for n
    by (simp add: h_malloc_def fresh_block_def map_replicate_const)
  show ?thesis
    by (simp add: begin_file_serve_def pair_def aio_init_def one_view_def one_path_def p Let_def
        begin_disk_def can_open_def new_fd_def fresh_fd_def one_header MAX_CACHE_FILE_SIZE_def start_aio_def m h_write_def blit_def waiting_def aclient0_def)
qed

lemma requests_started:
  "aio_requests (\<lambda>_. one_view) (Suc 0) ((idle 8)\<lparr>req_buf := blit (req_buf (idle 8)) 0 (''a'' @ [NL]), req_len := 2\<rparr>)
     ((pair cs 2)\<lparr>a_rcvd := rc\<rparr>) =
   Inr (waiting, (pair cs 2)\<lparr>aheap := [1 \<mapsto> ''+OK 1'' @ [NL, NUL]], a_rcvd := rc,
     afiles := {5}, a_path := (\<lambda>_. [])(5 := ''/srv/a''), a_inflight := {1}, aclock := 1\<rparr>)"
proof -
  define b where "b = CHR ''a'' # NL # replicate (REQ_BUF_SIZE - 2) NUL"
  have m: "memchr b NL 2 = Some (Suc 0)" "terminate_line b (Suc 0) = asked_buf" "cstr asked_buf = ''a''"
    "memmove0 asked_buf (Suc (Suc 0)) 0 = asked_buf" "blit (req_buf (idle 8)) 0 (''a'' @ [NL]) = b"
    by (simp_all add: memchr_def terminate_line_def cstr_def memmove0_def b_def asked_buf_def blit_def aclient0_def
        REQ_BUF_SIZE_def numeral_2_eq_2)
  show ?thesis
    by (subst aio_requests.simps) (use request_started [of rc cs] m in \<open>simp add: waiting_def aclient0_def\<close>)
qed

lemma request_turn:
  "aio_turn (\<lambda>_. one_view) (calls {8} {} [] (''a'' @ [NL]) ans) 3 ((pair (first_two (idle 7) (idle 8)) 2)\<lparr>awrs := []\<rparr>) =
     Inr (True, started)"
proof -
  let ?s = "pair (first_two (idle 7) (idle 8)) 2" and ?le = "calls {8} {} [] (''a'' @ [NL]) ans"
  have i: "?s\<lparr>awrs := []\<rparr> = ?s" by (simp add: pair_def aio_init_def)
  have sel: "a_clear ?s = False" "alive ?s = [idle 7, idle 8]" "anum ?s = Suc (Suc 0)" "a_rcvd ?s = (\<lambda>_. [])"
    "aclients ?s = first_two (idle 7) (idle 8)" by (simp_all add: pair_def aio_init_def alive_def)
  have c: "sock (idle x) = x" "state (idle x) = STATE_READING" "req_len (idle x) = 0" for x by (simp_all add: aclient0_def)
  have "read_phase (\<lambda>_. one_view) ?le {8} (Suc 0) ?s = Inr (True, started)"
    using requests_started [of "(\<lambda>_. [])(8 := ''a'' @ [NL])" "first_two (idle 7) (idle 8)"]
    by (simp add: read_phase_def sel c REQ_BUF_SIZE_def Let_def waiting_def put_client_def started_def pair_def aio_init_def aclient0_def numeral_2_eq_2)
  then have "aio_body (\<lambda>_. one_view) ?le {8} {} (Suc 0) ?s = Inr (True, started)"
    by (simp add: aio_body_def andthen_def probe_phase_def aio_phase_def write_phase_def sendfile_phase_def sel c)
  moreover have "aio_body (\<lambda>_. one_view) ?le {8} {} 0 started = Inr (True, started)"
    by (simp add: aio_body_def andthen_def probe_phase_def aio_phase_def read_phase_def write_phase_def
        sendfile_phase_def started_def pair_def c)
  ultimately show ?thesis unfolding i by (simp add: aio_turn_def sel c Let_def)
qed

subsection \<open>The reply\<close>

definition replied :: aserver where
  "replied = started\<lparr>aheap := Map.empty, aclients := first_two (idle 7)
     (waiting\<lparr>file_fd := -1, a_resp := 0, a_sent := 7, state := STATE_READING\<rparr>),
     peer := (\<lambda>_. [])(8 := ''+OK 1'' @ [NL] @ ''x''), afiles := {}, a_inflight := {}\<rparr>"

definition filled :: aserver where
  "filled = started\<lparr>aheap := [1 \<mapsto> ''+OK 1'' @ [NL] @ ''x''], aclients := first_two (idle 7)
     (waiting\<lparr>file_fd := -1, state := STATE_WRITING\<rparr>), afiles := {}, a_inflight := {}\<rparr>"

lemmas run_defs = aio_turn_def aio_body_def andthen_def probe_phase_def aio_phase_def read_phase_def write_phase_def
  sendfile_phase_def drop_client_def aio_remove_client_def check_aio_def put_client_def Let_def
  alive_def started_def pair_def aio_init_def waiting_def aclient0_def numeral_2_eq_2

lemma filled_turn: "aio_turn env (calls {} {} [] [] (AioRead ''x'')) 3 (started\<lparr>awrs := []\<rparr>) = Inr (True, filled)"
  by (simp add: run_defs filled_def h_write_def blit_def aio_to_cache_def h_malloc_def)

lemma replied_turn: "aio_turn env (calls {} {8} [] [] AioBusy) 3 (filled\<lparr>awrs := []\<rparr>) = Inr (True, replied)"
  by (simp add: run_defs filled_def replied_def h_read_def h_free_def nb_write_def image_iff conj_disj_distribR ex_disj_distrib)

subsection \<open>The end of a connection\<close>

definition moved :: aserver where
  "moved = started\<lparr>aclients := first_two waiting waiting, anum := 1, asocks := {8}\<rparr>"

lemma moved_turn: "aio_turn env (calls {7} {} [] [] AioBusy) 3 (started\<lparr>awrs := []\<rparr>) = Inr (True, moved)"
  by (simp add: run_defs moved_def h_free_def)

text \<open>Whatever the next look at the client is for, its control block is not where the read was started.\<close>

lemma moved_faults:
  assumes "ae_select le = Inr (rds, wds)" "3 \<notin> rds"
  shows "aio_turn env le 3 (moved\<lparr>awrs := ws\<rparr>) = Inl MovedBlock"
  using assms by (simp add: run_defs moved_def split: rres.split)

subsection \<open>The executions\<close>

text \<open>They are possible whenever \<open>vok\<close> and \<open>wok\<close> allow the calls in them.\<close>

lemma run_turn:
  assumes "vok one_view" "wok [] le" "a_running s" "aio_accept_ok 3 le s"
    and "aio_turn (\<lambda>_. one_view) le 3 (s\<lparr>awrs := []\<rparr>) = Inr (True, s')"
    and "reachable (aio_run vok wok 3) x (True, s)"
  shows "reachable (aio_run vok wok 3) x (True, s')"
proof -
  have "aio_step wok (\<lambda>_. one_view) 3 (True, s) (True, s')" by (rule aio_step.turn [of _ _ le wok "[]"]) (use assms in auto)
  then have "aio_run vok wok 3 (True, s) (True, s')" using assms(1) unfolding aio_run_def by (intro exI [of _ "\<lambda>_. one_view"]) simp
  with assms(6) show ?thesis by (rule reachable.step)
qed

lemma runs:
  assumes v: "vok one_view" and k: "\<And>rds wds conns bs ans. ans \<in> {AioBusy, AioRead ''x''} \<Longrightarrow> wok [] (calls rds wds conns bs ans)"
  shows "reachable (aio_run vok wok 3) (True, aio_init ''/srv'') (True, started)"
    "reachable (aio_run vok wok 3) (True, aio_init ''/srv'') (True, replied)"
    "reachable (aio_run vok wok 3) (True, aio_init ''/srv'') (True, moved)"
proof -
  let ?r = "reachable (aio_run vok wok 3) (True, aio_init ''/srv'')"
  have k': "wok [] (calls rds wds conns bs AioBusy)" "wok [] (calls rds wds conns bs (AioRead ''x''))" for rds wds conns bs
    by (rule k, simp)+
  have run: "a_running (aio_init ''/srv'')" "a_running (pair cs n)" "a_running started" "a_running filled" for cs n
    by (simp_all add: aio_init_def pair_def started_def filled_def)
  have acc: "aio_accept_ok 3 (calls rds wds [] bs ans) s" "aio_accept_ok 3 (calls rds wds [(7, [], 0), (8, [], 0)] bs ans) (aio_init ''/srv'')"
    for rds wds bs ans s by (simp_all add: aio_accept_ok_def aio_init_def)
  note turn = run_turn [of vok wok, OF v k'(1)] and turn2 = run_turn [of vok wok, OF v k'(2)]
  have 0: "?r (True, aio_init ''/srv'')" by (rule reachable.start)
  have 1: "?r (True, pair (first_two (idle 7) (idle 8)) 2)" by (rule turn [OF run(1) acc(2) accept_turn 0])
  show 2: "?r (True, started)" by (rule turn [OF run(2) acc(1) request_turn 1])
  have 3: "?r (True, filled)" by (rule turn2 [OF run(3) acc(1) filled_turn 2])
  show "?r (True, replied)" by (rule turn [OF run(4) acc(1) replied_turn 3])
  show "?r (True, moved)" by (rule turn [OF run(3) acc(1) moved_turn 2])
qed

lemma runs_alive:
  "alive started = [idle 7, waiting]" "alive replied = [idle 7, waiting\<lparr>file_fd := -1, a_resp := 0, a_sent := 7, state := STATE_READING\<rparr>]"
  "alive moved = [waiting]"
  by (simp_all add: alive_def started_def replied_def moved_def pair_def)

end
