(* ===== verification/AioReturns.thy ===== *)
theory AioReturns
  imports AioServer FileReturns
begin

section \<open>The turns of the asynchronous file server return\<close>

text \<open>
  Every operation of \<^verbatim>\<open>aio-file-server.c\<close> settles while the kernel goes on taking bytes, provided that a
  cancelled read leaves \<^verbatim>\<open>EINPROGRESS\<close>, for which \<^verbatim>\<open>remove_client\<close> spins. Only \<^verbatim>\<open>sock_send\<close> looks at the
  answers to blocking writes.
\<close>

interpretation aw: writing awrs "\<lambda>ws s. s\<lparr>awrs := ws\<rparr>"
  by unfold_locales simp_all

subsection \<open>Replies\<close>

lemma sock_send_settles:
  assumes "keeps_taking w"
  shows "aw.settles w alone (sock_send cfd msg) s"
proof -
  define upd where "upd out s = s\<lparr>peer := (peer s)(cfd := peer s cfd @ out)\<rparr>" for out and s :: aserver
  have "aw.settles w Pair (\<lambda>s. cbind (write_loop (awrs s) msg) (\<lambda>(r, out, ws). Inr (r, (upd out s)\<lparr>awrs := ws\<rparr>))) s"
    by (rule aw.settles_write [OF assms]) (simp add: upd_def)
  then have "aw.settles w alone (\<lambda>s. cbind (cbind (write_loop (awrs s) msg)
      (\<lambda>(r, out, ws). Inr (r, (upd out s)\<lparr>awrs := ws\<rparr>))) (\<lambda>(r, s'). Inr (alone () s'))) s"
    by (rule aw.settles_bind) (simp add: aw.settles_const)
  then show ?thesis
    by (rule aw.settles_cong) (cases s, auto simp: sock_send_def alone_def upd_def cbind_def split: sum.split)
qed

lemma aio_refuse_settles:
  assumes "keeps_taking w"
  shows "aw.settles w Pair (aio_refuse c reason) s"
  unfolding aio_refuse_def [abs_def]
  by (rule aw.settles_bind [OF sock_send_settles [OF assms]]) (simp add: alone_def aw.settles_const)

lemma start_sendfile_settles:
  assumes "keeps_taking w"
  shows "aw.settles w Pair (start_sendfile ffd header n c) s"
  unfolding start_sendfile_def [abs_def]
  by (rule aw.settles_bind [OF sock_send_settles [OF assms]]) (simp add: alone_def aw.settles_const)

lemma start_aio_settles:
  assumes "keeps_taking w"
  shows "aw.settles w Pair (start_aio v i ffd header n c) s"
proof (cases "h_malloc (v_malloc v) (length header + n) (aheap s)")
  case None
  have "aw.settles w Pair (\<lambda>s. cbind (aio_refuse c ''out of memory'' s)
      (\<lambda>(c', s'). Inr (c', s'\<lparr>afiles := afiles s' - {ffd}\<rparr>))) s"
    by (rule aw.settles_bind [OF aio_refuse_settles [OF assms]]) (simp, rule aw.settles_update, simp)
  then show ?thesis by (rule aw.settles_cong) (simp add: start_aio_def None)
next
  case (Some rh)
  define c1 where "c1 = c\<lparr>file_fd := ffd, a_resp := fst rh, a_size := length header + n, a_sent := 0,
    aio_off := length header, aio_nbytes := n\<rparr>"
  have "aw.settles w Pair (\<lambda>s. aio_refuse (c1\<lparr>a_resp := 0\<rparr>) ''aio_read failed''
      (s\<lparr>aheap := h2, afiles := afiles s - {ffd}\<rparr>)) s" for h2
    by (rule aw.settles_after [OF aio_refuse_settles [OF assms]]) (cases s, simp)
  then have "aw.settles w Pair (\<lambda>s. cbind (h_write (fst rh) 0 header (snd rh)) (\<lambda>h1.
      if v_aio v then Inr (c1\<lparr>state := STATE_AIO\<rparr>, s\<lparr>aheap := h1, a_inflight := insert i (a_inflight s)\<rparr>)
      else cbind (h_free (fst rh) h1) (\<lambda>h2. aio_refuse (c1\<lparr>a_resp := 0\<rparr>) ''aio_read failed''
        (s\<lparr>aheap := h2, afiles := afiles s - {ffd}\<rparr>)))) s"
    by (intro aw.settles_step aw.settles_if aw.settles_update) simp_all
  then show ?thesis
    by (rule aw.settles_cong) (simp add: start_aio_def c1_def Let_def case_prod_unfold Some cong: if_cong)
qed


lemma begin_disk_settles:
  assumes "keeps_taking w"
  shows "aw.settles w Pair (begin_disk v i p c) s"
proof (cases "\<exists>st. v_stat v p = Some st \<and> st_reg st \<and> can_open v p s")
  case False
  have can: "can_open v p (s\<lparr>awrs := ws\<rparr>) = can_open v p s" for ws by (simp add: can_open_def new_fd_def)
  define why where "why = (case v_stat v p of None \<Rightarrow> if v_junk v then ''stat failed'' else ''not a regular file''
    | Some st \<Rightarrow> if \<not> st_reg st then ''not a regular file'' else ''open failed'')"
  have "begin_disk v i p c (s\<lparr>awrs := ws\<rparr>) = aio_refuse c why (s\<lparr>awrs := ws\<rparr>)" for ws
    using False by (auto simp: begin_disk_def why_def can split: option.split)
  then show ?thesis by (rule aw.settles_cong [OF aio_refuse_settles [OF assms]])
next
  case True
  then obtain st where st: "v_stat v p = Some st" "st_reg st" "can_open v p s" by blast
  have can: "can_open v p (s\<lparr>awrs := ws\<rparr>)" for ws using st(3) by (simp add: can_open_def new_fd_def)
  define x where "x = new_fd v s"
  have x: "new_fd v (s\<lparr>awrs := ws\<rparr>) = x" for ws by (simp add: x_def new_fd_def)
  define opened where "opened s = s\<lparr>afiles := insert x (afiles s), a_path := (a_path s)(x := p)\<rparr>" for s :: aserver
  have after: "aw.settles w Pair (\<lambda>s. f (opened s)) s" if "\<And>s. aw.settles w Pair f s" for f
    by (rule aw.settles_after [OF that]) (cases s, simp add: opened_def)
  have "aw.settles w Pair (\<lambda>s. cbind (snprintf_out 64 (ok_header (st_size st))) (\<lambda>header.
      if MAX_CACHE_FILE_SIZE < nat (st_size st mod 2 ^ 64)
      then start_sendfile x header (nat (st_size st mod 2 ^ 64)) c (opened s)
      else start_aio v i x header (nat (st_size st mod 2 ^ 64)) c (opened s))) s"
    by (intro aw.settles_step aw.settles_if after snprintf_out_blocks start_sendfile_settles start_aio_settles assms)
  then show ?thesis
    by (rule aw.settles_cong) (simp add: begin_disk_def st can x opened_def Let_def cong: if_cong)
qed

lemma found_settles:
  assumes "keeps_taking w"
  shows "aw.settles w Pair (\<lambda>s. case aio_cache_lookup p (acache s) of
      None \<Rightarrow> begin_disk v i p c s
    | Some e \<Rightarrow> (case h_malloc (v_hit v) (resp_size e) (aheap s) of
        None \<Rightarrow> begin_disk v i p c s
      | Some (r, h0) \<Rightarrow> cbind (h_read (resp e) 0 (resp_size e) h0) (\<lambda>bs. cbind (h_write r 0 bs h0) (\<lambda>h1.
          Inr (c\<lparr>a_resp := r, a_size := resp_size e, a_sent := 0, state := STATE_WRITING\<rparr>, s\<lparr>aheap := h1\<rparr>))))) s"
    (is "aw.settles w Pair ?f s")
proof -
  have disk: "aw.settles w Pair ?f s" if "\<And>ws. ?f (s\<lparr>awrs := ws\<rparr>) = begin_disk v i p c (s\<lparr>awrs := ws\<rparr>)"
    by (rule aw.settles_cong [OF begin_disk_settles [OF assms]]) (rule that)
  show ?thesis
  proof (cases "aio_cache_lookup p (acache s)")
    case None
    then show ?thesis by (intro disk) simp
  next
    case e: (Some e)
    show ?thesis
    proof (cases "h_malloc (v_hit v) (resp_size e) (aheap s)")
      case None
      with e show ?thesis by (intro disk) simp
    next
      case (Some rh)
      have "aw.settles w Pair (\<lambda>s. cbind (h_read (resp e) 0 (resp_size e) (snd rh)) (\<lambda>bs. cbind (h_write (fst rh) 0 bs (snd rh)) (\<lambda>h1.
          Inr (c\<lparr>a_resp := fst rh, a_size := resp_size e, a_sent := 0, state := STATE_WRITING\<rparr>, s\<lparr>aheap := h1\<rparr>)))) s"
        by (intro aw.settles_step aw.settles_update) simp_all
      then show ?thesis by (rule aw.settles_cong) (simp add: e Some case_prod_unfold)
    qed
  qed
qed

lemma begin_file_serve_settles:
  assumes "keeps_taking w"
  shows "aw.settles w Pair (begin_file_serve env i c filename) s"
proof -
  define v where "v = env (aclock s)"
  define s1 where "s1 = s\<lparr>aclock := aclock s + 1\<rparr>"
  have tick: "s\<lparr>awrs := ws, aclock := Suc (aclock s)\<rparr> = s1\<lparr>awrs := ws\<rparr>" "a_docroot s1 = a_docroot s" for ws
    by (simp_all add: s1_def)
  have refused: "aw.settles w Pair (begin_file_serve env i c filename) s"
    if "\<And>ws. begin_file_serve env i c filename (s\<lparr>awrs := ws\<rparr>) = aio_refuse c why (s1\<lparr>awrs := ws\<rparr>)" for why
    by (rule aw.settles_cong [OF aio_refuse_settles [OF assms]]) (rule that)
  show ?thesis
  proof (cases "filename \<noteq> [] \<and> hd filename \<noteq> CHR ''/''")
    case False
    then show ?thesis
      by (intro refused [of "if filename = [] then ''empty filename'' else ''absolute paths not allowed''"])
        (auto simp: begin_file_serve_def tick Let_def)
  next
    case name: True
    show ?thesis
    proof (cases "v_realpath v (candidate (a_docroot s) filename)")
      case None
      with name show ?thesis
        by (intro refused [of "''not found''"]) (simp add: begin_file_serve_def tick v_def Let_def)
    next
      case (Some p)
      show ?thesis
      proof (cases "in_docroot (a_docroot s) p")
        case False
        with name Some show ?thesis
          by (intro refused [of "''access denied''"]) (simp add: begin_file_serve_def tick v_def Let_def)
      next
        case True
        with name Some show ?thesis
          by (intro aw.settles_cong [OF found_settles [OF assms, of v i p "c\<lparr>cache_key := strncpy (PATH_MAX - 1) p\<rparr>" s1]])
            (simp add: begin_file_serve_def tick v_def Let_def split: option.split)
      qed
    qed
  qed
qed

subsection \<open>What does not write\<close>

lemma aio_to_cache_put:
  "aio_to_cache mal c (s\<lparr>awrs := ws\<rparr>) = cbind (aio_to_cache mal c s) (\<lambda>s'. Inr (s'\<lparr>awrs := ws\<rparr>))"
  by (cases s) (auto simp: aio_to_cache_def cbind_def split: option.split sum.split)

lemma aio_to_cache_blocks: "aio_to_cache mal c s \<noteq> Inl Pending"
  by (auto simp: aio_to_cache_def cbind_blocks split: option.splits)

lemma drop_client_put:
  "drop_client le i (s\<lparr>awrs := ws\<rparr>) = cbind (drop_client le i s) (\<lambda>(go, s'). Inr (go, s'\<lparr>awrs := ws\<rparr>))"
  by (cases s) (auto simp: drop_client_def aio_remove_client_def Let_def cbind_def split: sum.split)

lemma drop_client_blocks: "\<forall>fd. ae_cancel le fd \<Longrightarrow> drop_client le i s \<noteq> Inl Pending"
  by (auto simp: drop_client_def aio_remove_client_def Let_def cbind_blocks)

lemma drop_client_settles:
  assumes "\<forall>fd. ae_cancel le fd"
  shows "aw.settles w Pair (drop_client le i) s"
  by (rule aw.settles_oblivious [OF drop_client_blocks [OF assms] drop_client_put])

lemma probe_phase_settles:
  assumes "\<forall>fd. ae_cancel le fd"
  shows "aw.settles w Pair (probe_phase le rset i) s"
proof -
  have "\<exists>b. \<forall>ws. probe_phase le rset i (s\<lparr>awrs := ws\<rparr>) =
      (if b then drop_client le i (s\<lparr>awrs := ws\<rparr>) else Inr (True, s\<lparr>awrs := ws\<rparr>))"
    by (cases "ae_peek le (sock (aclients s ! i))") (auto simp: probe_phase_def Let_def)
  then obtain b where "\<And>ws. probe_phase le rset i (s\<lparr>awrs := ws\<rparr>) =
      (if b then drop_client le i (s\<lparr>awrs := ws\<rparr>) else Inr (True, s\<lparr>awrs := ws\<rparr>))" by blast
  then show ?thesis
    by (rule aw.settles_cong [OF aw.settles_if [OF drop_client_settles [OF assms] aw.settles_const]])
qed

lemma put_client_put [simp]: "put_client i c (s\<lparr>awrs := ws\<rparr>) = (put_client i c s)\<lparr>awrs := ws\<rparr>"
  by (simp add: put_client_def)

lemma write_phase_settles:
  assumes "\<forall>fd. ae_cancel le fd"
  shows "aw.settles w Pair (write_phase le wset i) s"
proof (rule aw.settles_oblivious)
  show "write_phase le wset i s \<noteq> Inl Pending"
    by (auto simp: write_phase_def Let_def cbind_blocks drop_client_blocks [OF assms] split: option.splits)
  show "write_phase le wset i (s\<lparr>awrs := ws\<rparr>) =
      cbind (write_phase le wset i s) (\<lambda>(go, s'). Inr (go, s'\<lparr>awrs := ws\<rparr>))" for ws
    using drop_client_put [of le i ws s]
    by (cases s) (auto simp: write_phase_def Let_def put_client_def cbind_def split: option.split sum.split)
qed

lemma sendfile_phase_settles:
  assumes "\<forall>fd. ae_cancel le fd"
  shows "aw.settles w Pair (sendfile_phase le wset i) s"
proof (rule aw.settles_oblivious)
  show "sendfile_phase le wset i s \<noteq> Inl Pending"
    by (auto simp: sendfile_phase_def Let_def drop_client_blocks [OF assms] split: rres.splits)
  show "sendfile_phase le wset i (s\<lparr>awrs := ws\<rparr>) =
      cbind (sendfile_phase le wset i s) (\<lambda>(go, s'). Inr (go, s'\<lparr>awrs := ws\<rparr>))" for ws
    using drop_client_put [of le i ws s]
    by (cases s) (auto simp: sendfile_phase_def Let_def put_client_def split: rres.split)
qed

subsection \<open>Turns\<close>

lemma check_aio_settles:
  assumes "keeps_taking w"
  shows "aw.settles w Pair (check_aio mal ans i c) s"
proof (cases "i \<in> a_inflight s")
  case False
  then show ?thesis by (intro aw.settles_fault [of MovedBlock]) (simp_all add: check_aio_def)
next
  case home: True
  show ?thesis
  proof (cases ans)
    case AioBusy
    with home show ?thesis by (intro aw.settles_return [where x = c and s' = s]) (simp add: check_aio_def)
  next
    case AioFailed
    have "aw.settles w alone (\<lambda>s. sock_send (sock c) (err_reply ''read error'') (s\<lparr>a_inflight := a_inflight s - {i}, aheap := h, afiles := afiles s - {file_fd c}\<rparr>)) s" for h
      by (rule aw.settles_after [OF sock_send_settles [OF assms]]) (cases s, simp)
    then have "aw.settles w Pair (\<lambda>s. cbind (sock_send (sock c) (err_reply ''read error'') (s\<lparr>a_inflight := a_inflight s - {i}, aheap := h, afiles := afiles s - {file_fd c}\<rparr>))
        (\<lambda>s'. Inr (c\<lparr>file_fd := -1, a_resp := 0, state := STATE_READING\<rparr>, s'))) s" for h
      by (rule aw.settles_bind) (simp add: alone_def aw.settles_const)
    with home AioFailed show ?thesis
      by - (rule aw.settles_pure [of _ _ "h_free (a_resp c) (aheap s)" "\<lambda>h s. cbind (sock_send (sock c) (err_reply ''read error'') (s\<lparr>a_inflight := a_inflight s - {i}, aheap := h, afiles := afiles s - {file_fd c}\<rparr>))
        (\<lambda>s'. Inr (c\<lparr>file_fd := -1, a_resp := 0, state := STATE_READING\<rparr>, s'))"], simp_all add: check_aio_def)
  next
    case (AioRead d)
    show ?thesis
    proof (rule aw.settles_oblivious)
      show "check_aio mal ans i c s \<noteq> Inl Pending"
        using home AioRead by (auto simp: check_aio_def cbind_blocks aio_to_cache_blocks)
      have put: "s\<lparr>awrs := ws, a_inflight := x, aheap := h, afiles := f\<rparr> =
          (s\<lparr>a_inflight := x, aheap := h, afiles := f\<rparr>)\<lparr>awrs := ws\<rparr>" for ws x h f
        by (cases s) simp
      show "check_aio mal ans i c (s\<lparr>awrs := ws\<rparr>) = cbind (check_aio mal ans i c s) (\<lambda>(x, s'). Inr (x, s'\<lparr>awrs := ws\<rparr>))" for ws
        using home AioRead by (auto simp: check_aio_def put aio_to_cache_put cbind_def simp del: select_convs update_convs split: sum.split)
    qed
  qed
qed

lemma aio_phase_settles:
  assumes "keeps_taking w"
  shows "aw.settles w Pair (aio_phase le i) s"
proof -
  define c where "c = aclients s ! i"
  define ans where "ans = ae_aio le (sock c) (a_path s (file_fd c))"
  have "aw.settles w Pair (\<lambda>s. cbind (check_aio (ae_malloc le (sock c)) ans i c s)
      (\<lambda>(c', s'). Inr (True, put_client i c' s'))) s"
    by (rule aw.settles_bind [OF check_aio_settles [OF assms]]) (simp add: aw.settles_update)
  then have "aw.settles w Pair (\<lambda>s. if state c = STATE_AIO then cbind (check_aio (ae_malloc le (sock c)) ans i c s)
      (\<lambda>(c', s'). Inr (True, put_client i c' s')) else Inr (True, s)) s"
    by (rule aw.settles_if [OF _ aw.settles_const])
  then show ?thesis
    by (rule aw.settles_cong) (simp add: aio_phase_def c_def ans_def Let_def)
qed

lemma aio_requests_settles:
  assumes "keeps_taking w"
  shows "aw.settles w Pair (aio_requests env i c) s"
proof (induction "req_len c" arbitrary: c s rule: less_induct)
  case (less c s)
  show ?case
  proof (cases "memchr (req_buf c) NL (req_len c)")
    case None
    then show ?thesis
      by (intro aw.settles_return [where x = c and s' = s]) (subst aio_requests.simps, simp)
  next
    case (Some q)
    define b where "b = terminate_line (req_buf c) q"
    define rest where "rest c' = c'\<lparr>req_buf := memmove0 b (q + 1) (req_len c - (q + 1)), req_len := req_len c - (q + 1)\<rparr>" for c' :: AClient
    have "req_len (rest c') < req_len c" for c' using memchr_Some(1) [OF Some] by (simp add: rest_def)
    note IH = less [OF this]
    have "aw.settles w Pair (\<lambda>s. cbind (begin_file_serve env i (c\<lparr>req_buf := b\<rparr>) (cstr b) s) (\<lambda>(c', s').
        if state (rest c') \<noteq> STATE_READING then Inr (rest c', s') else aio_requests env i (rest c') s')) s"
      using IH by (intro aw.settles_bind [OF begin_file_serve_settles [OF assms]]) (simp add: aw.settles_if aw.settles_const)
    then show ?thesis
      by (rule aw.settles_cong) (subst aio_requests.simps, simp add: Some b_def rest_def Let_def case_prod_unfold cong: if_cong)
  qed
qed

lemma read_phase_settles:
  assumes "keeps_taking w" "\<forall>fd. ae_cancel le fd"
  shows "aw.settles w Pair (read_phase env le rset i) s"
proof -
  define c where "c = aclients s ! i"
  have gone: "aw.settles w Pair (read_phase env le rset i) s"
    if "\<And>ws. read_phase env le rset i (s\<lparr>awrs := ws\<rparr>) = drop_client le i (s\<lparr>awrs := ws\<rparr>)"
    by (rule aw.settles_cong [OF drop_client_settles [OF assms(2)]]) (rule that)
  show ?thesis
  proof (cases "state c = STATE_READING \<and> sock c \<in> rset")
    case False
    then show ?thesis by (intro aw.settles_return [where x = True and s' = s]) (auto simp: read_phase_def c_def Let_def)
  next
    case reading: True
    show ?thesis
    proof (cases "ae_read le (sock c)")
      case (RErr e)
      with reading show ?thesis by (intro gone) (simp add: read_phase_def c_def Let_def)
    next
      case (R bs)
      define d where "d = take (REQ_BUF_SIZE - 1 - req_len c) bs"
      have get: "aw.settles w Pair (\<lambda>s. aio_requests env i (c\<lparr>req_buf := blit (req_buf c) (req_len c) d,
          req_len := req_len c + length d\<rparr>) (s\<lparr>a_rcvd := (a_rcvd s)(sock c := a_rcvd s (sock c) @ d)\<rparr>)) s"
        by (rule aw.settles_after [OF aio_requests_settles [OF assms(1)]]) simp
      have "aw.settles w Pair (\<lambda>s. drop_client le i (put_client i c' s)) s'" for c' s'
        by (rule aw.settles_after [OF drop_client_settles [OF assms(2)]]) simp
      then have stored: "aw.settles w Pair (\<lambda>s. case (c', s) of (c', s') \<Rightarrow> let s2 = put_client i c' s'
          in if REQ_BUF_SIZE - 1 \<le> req_len c' then drop_client le i s2 else Inr (True, s2)) s'" for c' s'
        unfolding Let_def prod.case by (intro aw.settles_if aw.settles_update) simp_all
      show ?thesis
      proof (cases "d = []")
        case True
        with reading R show ?thesis by (intro gone) (simp add: read_phase_def c_def d_def Let_def)
      next
        case False
        with reading R show ?thesis
          by (intro aw.settles_cong [OF aw.settles_bind [OF get stored]]) (simp add: read_phase_def c_def d_def Let_def)
      qed
    qed
  qed
qed

lemma andthen_settles:
  assumes "aw.settles w Pair f s" "\<And>s. aw.settles w Pair g s"
  shows "aw.settles w Pair (\<lambda>s. andthen (f s) g) s"
  unfolding andthen_def
  by (rule aw.settles_bind [OF assms(1)]) (simp add: aw.settles_if aw.settles_const assms(2))

lemma aio_client_loop_settles:
  assumes "keeps_taking w" "\<forall>fd. ae_cancel le fd"
  shows "aw.settles w alone (aio_client_loop env le rset wset i) s"
proof (induction i arbitrary: s)
  case 0
  then show ?case by (rule aw.settles_return [where x = "()" and s' = s]) (simp add: alone_def)
next
  case (Suc i)
  have "aw.settles w Pair (\<lambda>s. aio_body env le rset wset i s) s" unfolding aio_body_def
    by (intro andthen_settles probe_phase_settles aio_phase_settles read_phase_settles write_phase_settles
        sendfile_phase_settles assms)
  then have "aw.settles w alone (\<lambda>s. cbind (aio_body env le rset wset i s)
      (\<lambda>(_, s'). aio_client_loop env le rset wset i s')) s"
    by (rule aw.settles_bind) (simp add: Suc.IH)
  then show ?case by (rule aw.settles_cong) simp
qed

lemma aio_accept_loop_put: "aio_accept_loop conns (s\<lparr>awrs := ws\<rparr>) = (aio_accept_loop conns s)\<lparr>awrs := ws\<rparr>"
proof (induction conns arbitrary: s)
  case (Cons conn conns)
  have "aio_add_client conn (s\<lparr>awrs := ws\<rparr>) = (aio_add_client conn s)\<lparr>awrs := ws\<rparr>"
    by (cases s) (simp add: aio_add_client_def split: prod.split)
  with Cons show ?case by simp
qed simp

lemma aio_selected_settles:
  assumes "keeps_taking w" "\<forall>fd. ae_cancel le fd"
  shows "aw.settles w Pair (\<lambda>s. case ae_select le of
      Inl e \<Rightarrow> Inr (e = EINTR, s)
    | Inr (rds, wds) \<Rightarrow>
        let rset = rds \<inter> insert listen_fd (sock ` set (alive s));
            wset = wds \<inter> sock ` {c \<in> set (alive s). state c = STATE_WRITING \<or> state c = STATE_SENDFILE};
            s1 = (if listen_fd \<in> rset then aio_accept_loop (ae_accept le) s else s)
        in cbind (aio_client_loop env le rset wset (anum s1) s1) (\<lambda>s2. Inr (True, s2))) s"
proof (cases "ae_select le")
  case (Inl e)
  then show ?thesis by (simp add: aw.settles_const)
next
  case (Inr x)
  define rset where "rset = fst x \<inter> insert listen_fd (sock ` set (alive s))"
  define wset where "wset = snd x \<inter> sock ` {c \<in> set (alive s). state c = STATE_WRITING \<or> state c = STATE_SENDFILE}"
  define s1 where "s1 = (if listen_fd \<in> rset then aio_accept_loop (ae_accept le) s else s)"
  have live: "alive (s\<lparr>awrs := ws\<rparr>) = alive s" for ws by (simp add: alive_def)
  have "aw.settles w Pair (\<lambda>s. cbind (aio_client_loop env le rset wset (anum s1) s) (\<lambda>s2. Inr (True, s2))) s1"
    by (rule aw.settles_bind [OF aio_client_loop_settles [OF assms]]) (simp add: alone_def aw.settles_const)
  then show ?thesis
    by (rule aw.settles_cong)
      (simp add: Inr case_prod_unfold Let_def live rset_def wset_def s1_def aio_accept_loop_put)
qed

lemma aio_turn_settles:
  assumes "keeps_taking w" "\<forall>fd. ae_cancel le fd"
  shows "aw.settles w Pair (aio_turn env le listen_fd) s"
proof -
  have "aw.settles w alone (\<lambda>s0. if a_clear s0
      then cbind (aio_cache_clear (acache s0) (aheap s0)) (\<lambda>(c, h).
             Inr (s0\<lparr>a_clear := False, acache := c, aheap := h\<rparr>))
      else Inr s0) s"
  proof (cases "a_clear s")
    case False
    then show ?thesis by (intro aw.settles_return [where x = "()" and s' = s]) (simp add: alone_def)
  next
    case True
    have "aw.settles w alone (\<lambda>s. Inr (s\<lparr>a_clear := False, acache := c, aheap := h\<rparr>)) s" for c h
      by (rule aw.settles_return [where x = "()" and s' = "s\<lparr>a_clear := False, acache := c, aheap := h\<rparr>"])
        (cases s, simp add: alone_def)
    then show ?thesis
      by - (rule aw.settles_pure [of _ _ "aio_cache_clear (acache s) (aheap s)"
          "\<lambda>x s. Inr (s\<lparr>a_clear := False, acache := fst x, aheap := snd x\<rparr>)"],
        simp_all add: True case_prod_unfold)
  qed
  then have "aw.settles w Pair (\<lambda>s. aio_turn env le listen_fd s) s" unfolding aio_turn_def
    by (rule aw.settles_bind) (simp only: alone_def aio_selected_settles [OF assms])
  then show ?thesis .
qed

end
