(* ===== verification/AioSpec.thy ===== *)
theory AioSpec
  imports AioRuns AioReturns FileServerSpec
begin

section \<open>What the asynchronous server guarantees\<close>

text \<open>
  The properties of \<^verbatim>\<open>aio-file-server.c\<close>, from \<^verbatim>\<open>main\<close> on: the two worlds of files for which the interface of
  the invariant is implemented, what a client sees in each of them, that nothing is leaked, and what a
  turn of the loop may run into.
\<close>

subsection \<open>Arbitrary files\<close>

definition is_frame :: "bytes \<Rightarrow> bool" where
  "is_frame bs \<longleftrightarrow> (\<exists>r. NL \<notin> set r \<and> bs = err_reply r) \<or> (\<exists>d. bs = ok_frame d)"

lemma is_frame_err: "NL \<notin> set r \<Longrightarrow> is_frame (err_reply r)"
  by (auto simp: is_frame_def)

lemma is_frame_ok: "is_frame (ok_frame d)"
  by (auto simp: is_frame_def)

lemma blit_within:
  assumes "off \<le> length d" "e = take (length d - off) bs"
  shows "length (blit d off e) = length d \<and> take (off + length e) (blit d off e) = take off d @ e"
  using assms length_blit [of off e d] take_blit [of off e d] by simp

text \<open>The files may change at any moment and a read may be short; still every reply is whole.\<close>

interpretation anyfiles: reply_world clean root "\<lambda>f. is_frame" "\<lambda>p d. True" aview_ok "\<lambda>le. True"
  for clean root
proof unfold_locales
  show "\<exists>d::bytes. True \<and> int (length d) = st_size st" if "aview_ok v" "v_stat v p = Some st" for v p st
  proof -
    have "0 \<le> st_size st" using that unfolding aview_ok_def by blast
    then show ?thesis by (intro exI [of _ "replicate (nat (st_size st)) NUL"]) simp
  qed
  show "\<exists>d'. True \<and> length d' = length d \<and>
      take (off + length (take (length d - off) bs)) d' = take off d @ take (length d - off) bs"
    if "off \<le> length d" for d :: bytes and off bs using blit_within [OF that refl] by blast
qed (auto simp: is_frame_err is_frame_ok)

subsection \<open>A file system at rest\<close>

text \<open>
  Path resolution \<open>rp\<close> and files \<open>fs\<close> as in the specification of \<^verbatim>\<open>file-server.c\<close>: a completed read has put the
  whole file into the buffer, and \<^verbatim>\<open>sendfile\<close> sends the bytes behind its offset.
\<close>

definition aview_shows :: "(string \<Rightarrow> string option) \<Rightarrow> (string \<Rightarrow> node) \<Rightarrow> areqview \<Rightarrow> bool" where
  "aview_shows rp fs v \<longleftrightarrow> aview_ok v \<and> shows_fs rp fs (reqview.truncate v)"

definition kernel_shows :: "(string \<Rightarrow> node) \<Rightarrow> aloop_env \<Rightarrow> bool" where
  "kernel_shows fs le \<longleftrightarrow>
     (\<forall>x p d. ae_aio le x p = AioRead d \<longrightarrow> fs p = File d) \<and>
     (\<forall>x p off bs d. ae_sendfile le x p off = R bs \<longrightarrow> fs p = File d \<longrightarrow> (\<exists>k. bs = take k (drop off d)))"

text \<open>
  A request gets the answer \<^verbatim>\<open>file-server.c\<close> would give. Two refusals are possible instead. If \<open>short\<close>, that is,
  if the kernel may run out of descriptors, memory or room for asynchronous reads, or fail such a read, the
  request for a file that can be read may be refused for that reason. And for a file that is gone,
  \<^verbatim>\<open>stat\<close> leaves \<^verbatim>\<open>st\<close> uninitialised and the reason depends on what \<^verbatim>\<open>st_mode\<close> happens to hold: it may be given as
  \<^verbatim>\<open>not a regular file\<close>. Any other request has only the one answer.
\<close>

definition shortages :: "string set" where
  "shortages = {''open failed'', ''out of memory'', ''aio_read failed'', ''read error''}"

definition excuses ::
  "bool \<Rightarrow> (string \<Rightarrow> string option) \<Rightarrow> (string \<Rightarrow> node) \<Rightarrow> string \<Rightarrow> string \<Rightarrow> string set" where
  "excuses short rp fs root f = {r. f \<noteq> [] \<and> hd f \<noteq> CHR ''/'' \<and> (\<exists>p. rp (candidate root f) = Some p \<and> beneath root p \<and>
     (short \<and> (\<exists>d. fs p = File d) \<and> r \<in> shortages \<or> fs p = Gone \<and> r = ''not a regular file''))}"

definition aio_answers ::
  "bool \<Rightarrow> (string \<Rightarrow> string option) \<Rightarrow> (string \<Rightarrow> node) \<Rightarrow> string \<Rightarrow> string \<Rightarrow> bytes set" where
  "aio_answers short rp fs root f = insert (answer rp fs root f) (err_reply ` excuses short rp fs root f)"

text \<open>A kernel that has what a request needs, and reads that do not fail.\<close>

definition ample :: "areqview \<Rightarrow> bool" where
  "ample v \<longleftrightarrow> gives_fd v \<and> gives_memory (v_malloc v) \<and> v_aio v"

definition reads_succeed :: "aloop_env \<Rightarrow> bool" where
  "reads_succeed le \<longleftrightarrow> (\<forall>x p. ae_aio le x p \<noteq> AioFailed)"

lemma aview_node:
  assumes "aview_shows rp fs v"
  shows "v_realpath v = rp" "v_stat v p = None \<Longrightarrow> fs p = Gone"
    "v_stat v p = Some st \<Longrightarrow> \<not> st_reg st \<Longrightarrow> fs p = NotRegular"
    "v_stat v p = Some st \<Longrightarrow> st_reg st \<Longrightarrow> v_open v p \<Longrightarrow> \<exists>d. fs p = File d \<and> int (length d) = st_size st"
    "v_stat v p = Some st \<Longrightarrow> st_reg st \<Longrightarrow> \<not> v_open v p \<Longrightarrow> fs p = Unreadable"
proof -
  have sh: "shows_fs rp fs (reqview.truncate v)" using assms by (simp add: aview_shows_def)
  then show "v_realpath v = rp" by (simp add: shows_fs_def reqview.defs)
  from sh have n: "case fs p of
        File d \<Rightarrow> v_stat v p = Some \<lparr>st_reg = True, st_size = int (length d)\<rparr> \<and> v_open v p
      | NotRegular \<Rightarrow> (\<exists>st. v_stat v p = Some st \<and> \<not> st_reg st)
      | Unreadable \<Rightarrow> (\<exists>st. v_stat v p = Some st \<and> st_reg st) \<and> \<not> v_open v p
      | Gone \<Rightarrow> v_stat v p = None"
    unfolding shows_fs_def by (auto simp: reqview.defs split: node.splits)
  show "v_stat v p = None \<Longrightarrow> fs p = Gone" using n by (auto split: node.splits)
  show "v_stat v p = Some st \<Longrightarrow> \<not> st_reg st \<Longrightarrow> fs p = NotRegular" using n by (auto split: node.splits)
  show "v_stat v p = Some st \<Longrightarrow> st_reg st \<Longrightarrow> v_open v p \<Longrightarrow> \<exists>d. fs p = File d \<and> int (length d) = st_size st"
    using n by (auto split: node.splits)
  show "v_stat v p = Some st \<Longrightarrow> st_reg st \<Longrightarrow> \<not> v_open v p \<Longrightarrow> fs p = Unreadable" using n by (auto split: node.splits)
qed

interpretation atrest: reply_world clean root "\<lambda>f r. r \<in> aio_answers short rp fs root f" "\<lambda>p d. fs p = File d"
  "\<lambda>v. aview_shows rp fs v \<and> (short \<or> ample v)" "\<lambda>le. kernel_shows fs le \<and> (short \<or> reads_succeed le)"
  for clean root short rp fs
proof unfold_locales
  fix v f p d r j st le x bs junk off
  note def = aio_answers_def answer_def excuses_def inside_def beneath_iff
  show "aview_shows rp fs v \<and> (short \<or> ample v) \<Longrightarrow> aview_ok v" by (simp add: aview_shows_def)
  show "err_reply ''empty filename'' \<in> aio_answers short rp fs root []" by (simp add: def)
  show "f \<noteq> [] \<Longrightarrow> hd f = CHR ''/'' \<Longrightarrow> err_reply ''absolute paths not allowed'' \<in> aio_answers short rp fs root f"
    by (simp add: def)
  {
    assume v: "aview_shows rp fs v \<and> (short \<or> ample v)"
    then have amp: "short \<or> ample v" by blast
    note node = aview_node [OF conjunct1 [OF v]]
    show "f \<noteq> [] \<Longrightarrow> hd f \<noteq> CHR ''/'' \<Longrightarrow> v_realpath v (candidate root f) = None \<Longrightarrow>
        err_reply ''not found'' \<in> aio_answers short rp fs root f" by (simp add: def node(1))
    show "f \<noteq> [] \<Longrightarrow> hd f \<noteq> CHR ''/'' \<Longrightarrow> v_realpath v (candidate root f) = Some p \<Longrightarrow> \<not> in_docroot root p \<Longrightarrow>
        err_reply ''access denied'' \<in> aio_answers short rp fs root f" by (simp add: def node(1))
    show "inside root v f p \<Longrightarrow> v_stat v p = None \<Longrightarrow>
        err_reply (if j then ''stat failed'' else ''not a regular file'') \<in> aio_answers short rp fs root f"
      using node(2) [of p] by (auto simp: def node(1))
    show "inside root v f p \<Longrightarrow> v_stat v p = Some st \<Longrightarrow> \<not> st_reg st \<Longrightarrow>
        err_reply ''not a regular file'' \<in> aio_answers short rp fs root f"
      using node(3) [of p st] by (auto simp: def node(1))
    show "inside root v f p \<Longrightarrow> v_stat v p = Some st \<Longrightarrow> st_reg st \<Longrightarrow> (v_open v p \<Longrightarrow> \<not> gives_fd v) \<Longrightarrow>
        err_reply ''open failed'' \<in> aio_answers short rp fs root f"
      using node(4,5) [of p st] amp by (cases "v_open v p") (auto simp: def node(1) ample_def shortages_def)
    show "inside root v f p \<Longrightarrow> fs p = File d \<Longrightarrow> \<not> gives_memory (v_malloc v) \<Longrightarrow>
        err_reply ''out of memory'' \<in> aio_answers short rp fs root f"
      using amp by (auto simp: def node(1) ample_def shortages_def)
    show "inside root v f p \<Longrightarrow> fs p = File d \<Longrightarrow> \<not> v_aio v \<Longrightarrow> err_reply ''aio_read failed'' \<in> aio_answers short rp fs root f"
      using amp by (auto simp: def node(1) ample_def shortages_def)
    show "inside root v f p \<Longrightarrow> fs p = File d \<Longrightarrow> kernel_shows fs le \<and> (short \<or> reads_succeed le) \<Longrightarrow>
        ae_aio le x p = AioFailed \<Longrightarrow> err_reply ''read error'' \<in> aio_answers short rp fs root f"
      by (auto simp: def node(1) reads_succeed_def shortages_def)
    show "inside root v f p \<Longrightarrow> fs p = File d \<Longrightarrow> ok_frame d \<in> aio_answers short rp fs root f"
      by (auto simp: def node(1))
    show "v_stat v p = Some st \<Longrightarrow> st_reg st \<Longrightarrow> v_open v p \<Longrightarrow> \<exists>d. fs p = File d \<and> int (length d) = st_size st"
      by (rule node(4))
  }
  show "kernel_shows fs le \<and> (short \<or> reads_succeed le) \<Longrightarrow> ae_aio le x p = AioRead bs \<Longrightarrow> fs p = File d \<Longrightarrow> length junk = length d \<Longrightarrow>
      fs p = File (blit junk 0 (take (length d) bs))"
    by (auto simp: kernel_shows_def blit_def)
  show "\<exists>d'. fs p = File d' \<and> length d' = length d \<and>
      take (off + length (take (length d - off) bs)) d' = take off d @ take (length d - off) bs"
    if k: "kernel_shows fs le \<and> (short \<or> reads_succeed le)" "ae_sendfile le x p off = R bs" and p: "fs p = File d" and off: "off \<le> length d"
  proof -
    obtain k where "bs = take k (drop off d)" using k p unfolding kernel_shows_def by blast
    moreover from this have "length bs \<le> length d - off" by simp
    then have "take (length d - off) bs = bs" by (rule take_all)
    ultimately show ?thesis using p by (intro exI [of _ d]) (simp add: take_add)
  qed
qed

subsection \<open>Executions from main\<close>

interpretation aiom: invariant_system "aio_run aview_ok (\<lambda>_ _. True) listen_fd" "(True, aio_init root)"
  "\<lambda>x. anyfiles.ainv False root (snd x)" for listen_fd root
  by unfold_locales (auto intro: anyfiles.ainv_init anyfiles.aio_run_inv)

interpretation aios: invariant_system "aio_run aview_ok (\<lambda>ws _. no_error ws) listen_fd" "(True, aio_init root)"
  "\<lambda>x. anyfiles.ainv True root (snd x)" for listen_fd root
  by unfold_locales (auto intro: anyfiles.ainv_init anyfiles.aio_run_inv)

definition aio_quiet_run ::
  "bool \<Rightarrow> (string \<Rightarrow> string option) \<Rightarrow> (string \<Rightarrow> node) \<Rightarrow> int \<Rightarrow> bool \<times> aserver \<Rightarrow> bool \<times> aserver \<Rightarrow> bool" where
  "aio_quiet_run short rp fs = aio_run (\<lambda>v. aview_shows rp fs v \<and> (short \<or> ample v))
     (\<lambda>ws le. no_error ws \<and> kernel_shows fs le \<and> (short \<or> reads_succeed le))"

interpretation aioq: invariant_system "aio_quiet_run short rp fs listen_fd" "(True, aio_init root)"
  "\<lambda>x. atrest.ainv True root short rp fs (snd x)" for short rp fs listen_fd root
  unfolding aio_quiet_run_def by unfold_locales (auto intro: atrest.ainv_init atrest.aio_run_inv)

text \<open>A start that succeeds enters the loop in the initial state.\<close>

lemma aio_main_Started:
  assumes "aio_main e sig sfd realpath argv = Inr (Started (listen_fd, s0))"
  obtains root where "s0 = aio_init root"
proof (cases "realpath (if 3 \<le> length argv then argv ! 2 else ''./docroot'')")
  case (Some root)
  with assms obtain p where
    "(case create_listen_socket e p of Exit n \<Rightarrow> Exit n | Started l \<Rightarrow> Started (l, aio_init root)) = Started (listen_fd, s0)"
    unfolding aio_main_def cbind_Inr_conv by (fastforce split: if_splits)
  then have "s0 = aio_init root" by (cases "create_listen_socket e p") simp_all
  then show ?thesis by (rule that)
qed (use assms in \<open>auto simp: aio_main_def cbind_Inr_conv\<close>)

lemma aio_main_inv:
  assumes "aio_main e sig sfd realpath argv = Inr (Started (listen_fd, s0))"
    and "reachable (aio_run aview_ok (\<lambda>_ _. True) listen_fd) (True, s0) (b, s)"
  shows "anyfiles.ainv False (a_docroot s0) s"
proof -
  obtain root where s0: "s0 = aio_init root" by (rule aio_main_Started [OF assms(1)])
  have "anyfiles.ainv False root s" using aiom.reachable_inv assms(2) unfolding s0 by fastforce
  then show ?thesis by (simp add: s0 aio_init_def)
qed

subsection \<open>Blocks, descriptors and sockets\<close>

text \<open>C10: From the start of \<^verbatim>\<open>main\<close> on, in every reachable state of \<^verbatim>\<open>aio-file-server.c\<close>, nothing is leaked and
  nothing is held twice: the live blocks are those of the cache and one for every client that reads
  or writes a response, no two of these clients hold the same block, and none of them holds a block of
  the cache, whose entries hold different blocks too; the open files are those of the clients that
  read or send one, each of one client only; and the open sockets are those of the connected clients,
  all different. The shutdown closes every socket once, the listening socket and the descriptor of the
  signal, and frees the whole cache; what is left is the blocks of the replies under way.\<close>

theorem aio_no_leak:
  assumes "aio_main e sig sfd realpath argv = Inr (Started (listen_fd, s0))"
    and "reachable (aio_run aview_ok (\<lambda>_ _. True) listen_fd) (True, s0) (b, s)"
  shows "dom (aheap s) = cache_owned (acache s) \<union> a_resp ` set (holders s) \<and>
    distinct (map a_resp (holders s)) \<and> cache_owned (acache s) \<inter> a_resp ` set (holders s) = {} \<and>
    distinct (map resp (live (acache s))) \<and>
    afiles s = set (open_files (alive s)) \<and> distinct (open_files (alive s)) \<and>
    asocks s = sock ` set (alive s) \<and> distinct (map sock (alive s)) \<and> anum s \<le> MAX_CLIENTS \<and>
    (\<exists>s'. aio_finish listen_fd sfd s = Inr (map sock (alive s) @ [listen_fd, sfd], s') \<and> asocks s' = {} \<and>
       dom (aheap s') = dom (aheap s) - cache_owned (acache s))"
proof -
  obtain A where g: "anyfiles.good False (a_docroot s0) A (mset (alive s)) s" and n: "anum s \<le> MAX_CLIENTS"
    using aio_main_inv [OF assms] by (auto simp: anyfiles.ainv_def anyfiles.table_ok_def)
  have "distinct (map resp (live (acache s)))" using anyfiles.good_cache(1) [OF g] by (simp add: cache_inv_def)
  then show ?thesis by (intro conjI anyfiles.good_dom [OF g] anyfiles.aio_exit [OF g] n)
qed

lemma demo_aio_start:
  "aio_main (demo_listen 8084) True 4 (\<lambda>p. if p = ''./docroot'' then Some ''/srv'' else None) [''aio-file-server''] =
     Inr (Started (3, aio_init ''/srv''))"
  by (simp add: aio_main_def create_listen_socket_def demo_listen_def)

text \<open>A short run: a connection on descriptor 7, then an empty line on it.\<close>

definition demo_aview :: areqview where
  "demo_aview = \<lparr>v_realpath = \<lambda>_. None, v_stat = \<lambda>_. None, v_open = \<lambda>_. False, v_malloc = \<lambda>_. None, v_pread = \<lambda>_. None,
     v_chunks = \<lambda>_. [], v_fd = \<lambda>_. 5, v_hit = \<lambda>_. None, v_aio = True, v_junk = True\<rparr>"

definition demo_le :: "int \<Rightarrow> aloop_env" where
  "demo_le x = \<lparr>ae_select = Inr ({x}, {}), ae_accept = (if x = 3 then [(7, [], 0)] else []), ae_peek = \<lambda>_. RErr EAGAIN,
     ae_read = \<lambda>_. R [NL], ae_aio = \<lambda>_ _. AioBusy, ae_malloc = \<lambda>_ _. None, ae_cancel = \<lambda>_. True,
     ae_write = \<lambda>_. WErr EAGAIN, ae_sendfile = \<lambda>_ _ _. RErr EAGAIN\<rparr>"

lemma demo_shows: "aview_ok demo_aview"
  by (simp add: aview_ok_def demo_aview_def)

theorem aio_no_leak_witness:
  "\<exists>s. reachable (aio_run aview_ok (\<lambda>_ _. True) 3) (True, aio_init ''/srv'') (True, s) \<and> map sock (alive s) = [7, 8] \<and>
     dom (aheap s) = {1} \<and> map a_resp (holders s) = [1] \<and> afiles s = {5} \<and> asocks s = {7, 8} \<and>
     (\<exists>s'. aio_finish 3 4 s = Inr ([7, 8, 3, 4], s') \<and> asocks s' = {} \<and> dom (aheap s') = {1})"
proof -
  have r: "reachable (aio_run aview_ok (\<lambda>_ _. True) 3) (True, aio_init ''/srv'') (True, started)"
    by (rule runs) (simp_all add: one_view_ok)
  have c: "open_files [idle 7, waiting] = [5]" "a_resp waiting = 1" "sock waiting = 8" "state waiting = STATE_AIO"
      "state (idle 7) = STATE_READING" by (simp_all add: waiting_def aclient0_def open_files_def)
  have "acache started = cache_init" by (simp add: started_def pair_def aio_init_def)
  then have "cache_owned (acache started) = {}" using cache_init_inv(3) by simp
  with aio_no_leak [OF demo_aio_start r] show ?thesis
    by (intro exI [of _ started]) (auto simp: r c [simplified] runs_alive(1))
qed

definition demo_conn :: aserver where
  "demo_conn = aio_add_client (7, [], 0) (aio_init ''/srv'')"

lemma demo_conn_simps:
  "anum demo_conn = 1" "aclients demo_conn ! 0 = aclient0\<lparr>sock := 7\<rparr>" "a_clear demo_conn = False"
  "a_running demo_conn" "asocks demo_conn = {7}" "alive demo_conn = [aclient0\<lparr>sock := 7\<rparr>]" "peer demo_conn 7 = []"
  "aclock demo_conn = 0" "length (aclients demo_conn) = MAX_CLIENTS" "awrs demo_conn = []" "a_rcvd demo_conn 7 = []"
  by (simp_all add: demo_conn_def aio_add_client_def aio_init_def alive_def aclient0_def MAX_CLIENTS_def take_Suc_conv_app_nth)

lemma demo_le_simps:
  "ae_select (demo_le x) = Inr ({x}, {})" "ae_accept (demo_le 3) = [(7, [], 0)]" "ae_accept (demo_le 7) = []"
  "ae_read (demo_le x) k = R [NL]"
  by (simp_all add: demo_le_def)

lemma demo_turn1: "aio_turn (\<lambda>_. demo_aview) (demo_le 3) 3 (aio_init ''/srv''\<lparr>awrs := []\<rparr>) = Inr (True, demo_conn)"
proof -
  have i: "aio_init ''/srv''\<lparr>awrs := []\<rparr> = aio_init ''/srv''" by (simp add: aio_init_def)
  have sel: "a_clear (aio_init ''/srv'') = False" "alive (aio_init ''/srv'') = []" "anum (aio_init ''/srv'') = 0"
    by (simp_all add: aio_init_def alive_def)
  have acc: "aio_accept_loop [(7, [], 0)] (aio_init ''/srv'') = demo_conn"
    by (simp add: demo_conn_def sel MAX_CLIENTS_def)
  have body: "aio_body env le {3} w 0 demo_conn = Inr (True, demo_conn)" for env le w
    by (simp add: aio_body_def andthen_def probe_phase_def aio_phase_def read_phase_def write_phase_def
        sendfile_phase_def demo_conn_simps aclient0_def)
  have "aio_client_loop env le {3} {} 1 demo_conn = Inr demo_conn" for env le
    by (simp add: body)
  then show ?thesis unfolding i aio_turn_def
    by (simp add: sel demo_le_simps acc demo_conn_simps Let_def del: aio_accept_loop.simps)
qed

text \<open>The second turn, with what \<^verbatim>\<open>write\<close> answers.\<close>

definition demo_heard :: "wres list \<Rightarrow> aserver" where
  "demo_heard ws = demo_conn\<lparr>awrs := ws, a_rcvd := (a_rcvd demo_conn)(7 := [NL]), aclock := 1\<rparr>"

lemma demo_requests:
  "\<exists>c. sock c = 7 \<and> state c = STATE_READING \<and> req_len c = 0 \<and>
     aio_requests env 0 ((aclients demo_conn ! 0)\<lparr>req_buf := blit (req_buf (aclients demo_conn ! 0)) 0 [NL], req_len := 1\<rparr>) t =
       cbind (sock_send 7 (err_reply ''empty filename'') (t\<lparr>aclock := aclock t + 1\<rparr>)) (\<lambda>t'. Inr (c, t'))"
proof -
  let ?k = "aclients demo_conn ! 0"
  define b where "b = NL # replicate (REQ_BUF_SIZE - 1) NUL"
  define b2 where "b2 = NUL # replicate (REQ_BUF_SIZE - 1) NUL"
  have m: "memchr b NL (Suc 0) = Some 0" "terminate_line b 0 = b2" "cstr b2 = []" "memmove0 b2 (Suc 0) 0 = b2"
    "memchr b2 NL 0 = None"
    by (simp_all add: memchr_def terminate_line_def cstr_def memmove0_def b_def b2_def)
  have k: "blit (req_buf ?k) 0 [NL] = b" "state ?k = STATE_READING" "sock ?k = 7"
    by (simp_all add: demo_conn_simps aclient0_def blit_def b_def REQ_BUF_SIZE_def)
  have "aio_requests env i c u = Inr (c, u)" if "req_buf c = b2" "req_len c = 0" for env i c u
    by (subst aio_requests.simps) (simp add: m that)
  then have "aio_requests env 0 (?k\<lparr>req_buf := b, req_len := 1\<rparr>) t =
      cbind (sock_send 7 (err_reply ''empty filename'') (t\<lparr>aclock := aclock t + 1\<rparr>))
        (\<lambda>t'. Inr (?k\<lparr>req_buf := b2, req_len := 0\<rparr>, t'))"
    by (subst aio_requests.simps)
      (simp add: m begin_file_serve_def aio_refuse_def k cbind_def split: sum.split)
  then show ?thesis using k by (intro exI [of _ "?k\<lparr>req_buf := b2, req_len := 0\<rparr>"]) simp
qed

lemma demo_turn2:
  "\<exists>c. sock c = 7 \<and> state c = STATE_READING \<and> req_len c = 0 \<and>
     aio_turn (\<lambda>_. demo_aview) (demo_le 7) 3 (demo_conn\<lparr>awrs := ws\<rparr>) =
       cbind (write_loop ws (err_reply ''empty filename'')) (\<lambda>(_, out, ws').
         Inr (True, put_client 0 c (demo_heard ws\<lparr>awrs := ws', peer := (peer demo_conn)(7 := out)\<rparr>)))"
proof -
  let ?s = "demo_conn\<lparr>awrs := ws\<rparr>" and ?k = "aclients demo_conn ! 0" and ?m = "err_reply ''empty filename''"
  let ?t = "demo_conn\<lparr>awrs := ws, a_rcvd := (a_rcvd demo_conn)(7 := [NL])\<rparr>" and ?env = "\<lambda>_::nat. demo_aview"
  have k: "req_len ?k = 0" "state ?k = STATE_READING" "sock ?k = 7" by (simp_all add: demo_conn_simps aclient0_def)
  obtain c where c: "sock c = 7" "state c = STATE_READING" "req_len c = 0"
    and "aio_requests ?env 0 (?k\<lparr>req_buf := blit (req_buf ?k) 0 [NL], req_len := 1\<rparr>) ?t =
      cbind (sock_send 7 ?m (?t\<lparr>aclock := aclock ?t + 1\<rparr>)) (\<lambda>t'. Inr (c, t'))" using demo_requests by blast
  then have rq: "aio_requests ?env 0 (?k\<lparr>req_buf := blit (req_buf ?k) 0 [NL], req_len := Suc 0\<rparr>) ?t =
      cbind (sock_send 7 ?m (demo_heard ws)) (\<lambda>t'. Inr (c, t'))" by (simp add: demo_heard_def demo_conn_simps(8))
  have "read_phase ?env (demo_le 7) {7} 0 ?s =
      cbind (sock_send 7 ?m (demo_heard ws)) (\<lambda>t. Inr (True, put_client 0 c t))"
    by (simp add: read_phase_def k demo_le_simps(4) REQ_BUF_SIZE_def demo_conn_simps(11) rq c Let_def)
      (simp add: cbind_def c split: sum.split)
  moreover have "andthen (probe_phase (demo_le 7) {7} 0 ?s) (aio_phase (demo_le 7) 0) = Inr (True, ?s)"
    by (simp add: andthen_def probe_phase_def aio_phase_def k)
  ultimately have body: "aio_body ?env (demo_le 7) {7} {} 0 ?s =
      cbind (sock_send 7 ?m (demo_heard ws)) (\<lambda>t. Inr (True, put_client 0 c t))"
    by (simp add: aio_body_def andthen_def write_phase_def sendfile_phase_def cbind_def split: sum.split)
  have al: "alive ?s = [aclient0\<lparr>sock := 7\<rparr>]" using demo_conn_simps(6) by (simp add: alive_def)
  have sel: "awrs (demo_heard ws) = ws" "peer (demo_heard ws) = peer demo_conn" by (simp_all add: demo_heard_def)
  have "aio_turn ?env (demo_le 7) 3 ?s = cbind (aio_client_loop ?env (demo_le 7) {7} {} 1 ?s) (\<lambda>s2. Inr (True, s2))"
    by (simp add: aio_turn_def demo_conn_simps demo_le_simps al Let_def del: aio_client_loop.simps)
  also have "\<dots> = cbind (write_loop ws ?m) (\<lambda>(_, out, ws').
         Inr (True, put_client 0 c (demo_heard ws\<lparr>awrs := ws', peer := (peer demo_conn)(7 := out)\<rparr>)))"
    by (simp add: body sock_send_def sel demo_conn_simps cbind_def split: sum.split)
  finally show ?thesis using c by blast
qed

lemma demo_accept_ok: "aio_accept_ok 3 (demo_le 3) (aio_init ''/srv'')" "aio_accept_ok 3 (demo_le 7) demo_conn"
  by (simp_all add: aio_accept_ok_def demo_le_simps aio_init_def)

lemma demo_run1:
  assumes "wok [] (demo_le 3)" "vok demo_aview"
  shows "reachable (aio_run vok wok 3) (True, aio_init ''/srv'') (True, demo_conn)"
proof -
  have "aio_step wok (\<lambda>_. demo_aview) 3 (True, aio_init ''/srv'') (True, demo_conn)"
    by (rule aio_step.turn [where wok = wok and ws = "[]" and le = "demo_le 3", OF _ demo_accept_ok(1) assms(1) demo_turn1])
      (simp add: aio_init_def)
  then have "aio_run vok wok 3 (True, aio_init ''/srv'') (True, demo_conn)"
    using assms(2) unfolding aio_run_def by (intro exI [of _ "\<lambda>_. demo_aview"]) simp
  then show ?thesis by (meson reachable.intros)
qed

lemma demo_run2:
  assumes "wok [] (demo_le 3)" "wok [W 100] (demo_le 7)" "vok demo_aview"
  shows "\<exists>s c. reachable (aio_run vok wok 3) (True, aio_init ''/srv'') (True, s) \<and> c \<in> set (alive s) \<and> sock c = 7 \<and>
    state c = STATE_READING \<and> req_len c = 0 \<and> a_rcvd s 7 = [NL] \<and> peer s 7 = err_reply ''empty filename''"
proof -
  let ?m = "err_reply ''empty filename''"
  obtain c where c: "sock c = 7" "state c = STATE_READING" "req_len c = 0"
    and turn: "aio_turn (\<lambda>_. demo_aview) (demo_le 7) 3 (demo_conn\<lparr>awrs := [W 100]\<rparr>) =
      cbind (write_loop [W 100] ?m) (\<lambda>(_, out, ws').
        Inr (True, put_client 0 c (demo_heard [W 100]\<lparr>awrs := ws', peer := (peer demo_conn)(7 := out)\<rparr>)))"
    using demo_turn2 [of "[W 100]"] by blast
  define s where "s = put_client 0 c (demo_heard [W 100]\<lparr>awrs := [], peer := (peer demo_conn)(7 := ?m)\<rparr>)"
  have "write_loop [W 100] ?m = Inr (0, ?m, [])" by (simp add: err_reply_def)
  then have "aio_turn (\<lambda>_. demo_aview) (demo_le 7) 3 (demo_conn\<lparr>awrs := [W 100]\<rparr>) = Inr (True, s)"
    using turn by (simp add: s_def)
  then have "aio_step wok (\<lambda>_. demo_aview) 3 (True, demo_conn) (True, s)"
    by (rule aio_step.turn [where wok = wok and ws = "[W 100]", OF demo_conn_simps(4) demo_accept_ok(2) assms(2)])
  then have "aio_run vok wok 3 (True, demo_conn) (True, s)"
    using assms(3) unfolding aio_run_def by (intro exI [of _ "\<lambda>_. demo_aview"]) simp
  then have "reachable (aio_run vok wok 3) (True, aio_init ''/srv'') (True, s)"
    using demo_run1 [of wok vok, OF assms(1,3)] by (meson reachable.intros)
  moreover have "c \<in> set (alive s)"
    using demo_conn_simps(1,9)
    by (auto simp: s_def alive_def put_client_def demo_heard_def take_Suc_conv_app_nth MAX_CLIENTS_def)
  ultimately show ?thesis using c by (intro exI [of _ s] exI [of _ c]) (simp add: s_def put_client_def demo_heard_def)
qed

text \<open>C13: A turn of the loop from a reachable state does nothing undefined, whatever the kernel answers,
  except that it may ask for the state of an asynchronous read whose control block has been moved. It
  returns, unless that happens, as long as the kernel takes a byte of the blocking writes again and
  again and a cancelled read comes to an end.\<close>

theorem aio_turn_safe:
  assumes "aio_main e' sig sfd realpath argv = Inr (Started (listen_fd, s0))"
    and "reachable (aio_run aview_ok (\<lambda>_ _. True) listen_fd) (True, s0) (b, s)"
    and "\<forall>t. aview_ok (env t)" "aio_accept_ok listen_fd le s"
  shows "(\<forall>e. aio_turn env le listen_fd (s\<lparr>awrs := ws\<rparr>) = Inl e \<longrightarrow> e = Pending \<or> e = MovedBlock) \<and>
    (keeps_taking w \<and> (\<forall>fd. ae_cancel le fd) \<longrightarrow> (\<exists>n. \<forall>m\<ge>n.
       (\<exists>go s'. aio_turn env le listen_fd (s\<lparr>awrs := answers w 0 m\<rparr>) = Inr (go, s')) \<or>
       aio_turn env le listen_fd (s\<lparr>awrs := answers w 0 m\<rparr>) = Inl MovedBlock))"
proof -
  have inv: "anyfiles.ainv False (a_docroot s0) s" by (rule aio_main_inv [OF assms(1,2)])
  have "aok (\<lambda>(go, s'). anyfiles.ainv False (a_docroot s0) s') (aio_turn env le listen_fd (s\<lparr>awrs := ws\<rparr>))" for ws
    by (intro anyfiles.aio_turn_ok anyfiles.ainv_frame inv assms) (use assms(4) in \<open>auto simp: aio_accept_ok_def\<close>)
  then have safe: "okin {Pending, MovedBlock} (\<lambda>_. True) (aio_turn env le listen_fd (s\<lparr>awrs := ws\<rparr>))" for ws
    by (auto intro: okin_mono)
  have returns: "(\<exists>go s'. r = Inr (go, s')) \<or> r = Inl MovedBlock"
    if "okin ({Pending, MovedBlock} - {Pending}) (\<lambda>_. True) r" for r :: "(bool \<times> aserver) cres"
    using that by (cases r) auto
  have "\<exists>n. \<forall>m\<ge>n. (\<exists>go s'. aio_turn env le listen_fd (s\<lparr>awrs := answers w 0 m\<rparr>) = Inr (go, s')) \<or>
       aio_turn env le listen_fd (s\<lparr>awrs := answers w 0 m\<rparr>) = Inl MovedBlock"
    if "keeps_taking w" "\<forall>fd. ae_cancel le fd"
    using aw.settles_okin [OF aio_turn_settles [OF that] safe] returns by meson
  with safe [of ws] show ?thesis by auto
qed

theorem aio_turn_safe_witness:
  "\<exists>s. reachable (aio_run aview_ok (\<lambda>_ _. True) 3) (True, aio_init ''/srv'') (True, s) \<and>
     aio_turn (\<lambda>_. demo_aview) (demo_le 7) 3 (s\<lparr>awrs := []\<rparr>) = Inl Pending \<and>
     (\<exists>n. \<forall>m\<ge>n. (\<exists>go s'. aio_turn (\<lambda>_. demo_aview) (demo_le 7) 3 (s\<lparr>awrs := answers (\<lambda>_. W 1) 0 m\<rparr>) = Inr (go, s')) \<or>
        aio_turn (\<lambda>_. demo_aview) (demo_le 7) 3 (s\<lparr>awrs := answers (\<lambda>_. W 1) 0 m\<rparr>) = Inl MovedBlock)"
proof -
  have r: "reachable (aio_run aview_ok (\<lambda>_ _. True) 3) (True, aio_init ''/srv'') (True, demo_conn)"
    by (rule demo_run1) (simp_all add: demo_shows)
  have t: "aio_turn (\<lambda>_. demo_aview) (demo_le 7) 3 (demo_conn\<lparr>awrs := []\<rparr>) = Inl Pending"
    using demo_turn2 [of "[]"] by (auto simp: err_reply_def)
  have w: "keeps_taking (\<lambda>_. W 1)" by (auto simp: keeps_taking_def)
  have c: "\<forall>fd. ae_cancel (demo_le 7) fd" by (simp add: demo_le_def)
  have v: "\<forall>t::nat. aview_ok ((\<lambda>_. demo_aview) t)" using demo_shows by simp
  show ?thesis
    using aio_turn_safe [OF demo_aio_start r v demo_accept_ok(2), of "[]" "\<lambda>_. W 1"] r t w c by blast
qed

subsection \<open>What a client sees\<close>

text \<open>C12: As long as \<^verbatim>\<open>write\<close> does not fail inside \<^verbatim>\<open>sock_send\<close>, every line taken from a connection gets exactly one
  whole reply, in order, the last of them possibly unfinished: an error line, or a header that
  announces a length and exactly that many bytes, whatever happens to the files meanwhile. A client
  that is read from has no unfinished reply.\<close>

theorem aio_streams:
  assumes "aio_main e sig sfd realpath argv = Inr (Started (listen_fd, s0))"
    and "reachable (aio_run aview_ok (\<lambda>ws _. no_error ws) listen_fd) (True, s0) (b, s)" "c \<in> set (alive s)"
  shows "\<exists>rest. conversation (\<lambda>l. is_frame) (a_rcvd s (sock c)) (take (req_len c) (req_buf c)) (peer s (sock c)) rest \<and>
    (state c = STATE_READING \<longrightarrow> rest = [])"
proof -
  obtain root where s0: "s0 = aio_init root" by (rule aio_main_Started [OF assms(1)])
  have "anyfiles.ainv True root s" using aios.reachable_inv assms(2) unfolding s0 by fastforce
  then show ?thesis by (rule anyfiles.ainv_conversation) (use assms(3) in simp_all)
qed

theorem aio_streams_witness:
  "\<exists>s c. reachable (aio_run aview_ok (\<lambda>ws _. no_error ws) 3) (True, aio_init ''/srv'') (True, s) \<and> c \<in> set (alive s) \<and>
     peer s (sock c) = ''-ERR empty filename'' @ [NL] \<and> conversation (\<lambda>l. is_frame) [NL] [] (peer s (sock c)) []"
proof -
  have ne: "no_error []" "no_error [W 100]" by (simp_all add: no_error_def)
  obtain s c where s: "reachable (aio_run aview_ok (\<lambda>ws _. no_error ws) 3) (True, aio_init ''/srv'') (True, s)"
    "c \<in> set (alive s)" "sock c = 7" "state c = STATE_READING" "req_len c = 0" "a_rcvd s 7 = [NL]"
    "peer s 7 = err_reply ''empty filename''"
    using demo_run2 [of "\<lambda>ws _. no_error ws" aview_ok] ne demo_shows by blast
  with aio_streams [OF demo_aio_start s(1,2)] show ?thesis by (intro exI [of _ s] exI [of _ c]) (simp add: err_reply_def)
qed

text \<open>C11: On a file system at rest, as long as \<^verbatim>\<open>write\<close> does not fail inside \<^verbatim>\<open>sock_send\<close>, the bytes on every open
  connection of \<^verbatim>\<open>aio-file-server.c\<close> are, in order and each exactly once, the replies to the lines taken
  from it, and each reply is the very answer \<^verbatim>\<open>file-server.c\<close> gives, whether it came from the cache, an
  asynchronous read or \<^verbatim>\<open>sendfile\<close>. There are two exceptions. If the kernel may run out of memory, descriptors or
  asynchronous reads, or fail one (\<open>short\<close>), the request for a readable file in the document root may be
  refused for that reason; if it never does (\<open>short\<close> false), such a refusal does not occur. And a file in the
  document root that has disappeared may be refused as \<^verbatim>\<open>not a regular file\<close> instead of \<^verbatim>\<open>stat failed\<close>. The lines
  not yet taken are in the buffer, and a client that is read from has all its replies.\<close>

theorem aio_conversations:
  assumes "aio_main e sig sfd realpath argv = Inr (Started (listen_fd, s0))"
    and "reachable (aio_quiet_run short rp fs listen_fd) (True, s0) (b, s)" "c \<in> set (alive s)"
  shows "\<exists>rest. conversation (\<lambda>l r. r \<in> aio_answers short rp fs (a_docroot s0) (request_of l))
      (a_rcvd s (sock c)) (take (req_len c) (req_buf c)) (peer s (sock c)) rest \<and>
    (state c = STATE_READING \<longrightarrow> rest = [])"
proof -
  obtain root where s0: "s0 = aio_init root" by (rule aio_main_Started [OF assms(1)])
  have inv: "atrest.ainv True root short rp fs s" using aioq.reachable_inv assms(2) unfolding s0 by fastforce
  have root: "a_docroot s0 = root" by (simp add: s0 aio_init_def)
  show ?thesis unfolding root by (rule atrest.ainv_conversation [OF inv]) (use assms(3) in simp_all)
qed

definition one_fs :: "string \<Rightarrow> node" where
  "one_fs p = (if p = ''/srv/a'' then File ''x'' else Gone)"

lemma one_shows:
  "aview_shows one_path one_fs one_view" "ample one_view"
  "ans \<in> {AioBusy, AioRead ''x''} \<Longrightarrow> kernel_shows one_fs (calls rds wds conns bs ans) \<and> reads_succeed (calls rds wds conns bs ans)"
  using one_view_ok
  by (auto simp: aview_shows_def ample_def one_view_def shows_fs_def one_fs_def reqview.defs streamed_def FILE_BUF_SIZE_def
      kernel_shows_def reads_succeed_def)

theorem aio_conversations_witness:
  "\<exists>s c. reachable (aio_quiet_run False one_path one_fs 3) (True, aio_init ''/srv'') (True, s) \<and> c \<in> set (alive s) \<and>
     a_rcvd s (sock c) = ''a'' @ [NL] \<and> peer s (sock c) = ''+OK 1'' @ [NL] @ ''x'' \<and>
     conversation (\<lambda>l r. r \<in> aio_answers False one_path one_fs ''/srv'' (request_of l)) (''a'' @ [NL]) [] (peer s (sock c)) []"
proof -
  let ?c = "waiting\<lparr>file_fd := -1, a_resp := 0, a_sent := 7, state := STATE_READING\<rparr>"
  have r: "reachable (aio_quiet_run False one_path one_fs 3) (True, aio_init ''/srv'') (True, replied)"
    unfolding aio_quiet_run_def by (rule runs) (use one_shows in \<open>simp_all add: no_error_def\<close>)
  have c: "?c \<in> set (alive replied)" by (simp add: runs_alive)
  have f: "sock ?c = 8" "state ?c = STATE_READING" "req_len ?c = 0" "a_rcvd replied 8 = ''a'' @ [NL]"
    "peer replied 8 = ''+OK 1'' @ [NL] @ ''x''" "a_docroot (aio_init ''/srv'') = ''/srv''"
    by (simp_all add: waiting_def aclient0_def replied_def started_def aio_init_def)
  from aio_conversations [OF demo_aio_start r c] show ?thesis using r c f by (intro exI [of _ replied] exI [of _ ?c]) auto
qed

subsection \<open>A moved control block\<close>



end
