(* ===== verification/TimeServer.thy ===== *)
theory TimeServer
  imports Syscalls CArgs
begin

section \<open>The sequential time server\<close>

text \<open>
  \<^verbatim>\<open>tcp-time-server.c\<close>: accept a connection, write the time to it, close it, and so on until
  \<^verbatim>\<open>SIGINT\<close>. The clock and the kernel are inputs: what \<^verbatim>\<open>localtime\<close> says when a connection is served,
  what \<^verbatim>\<open>accept\<close> and \<^verbatim>\<open>write\<close> return, and when the signal arrives. The formatting of the time is
  shared with \<^verbatim>\<open>select-server.c\<close>.
\<close>

subsection \<open>Formatting the time\<close>

record tm =
  tm_year :: int
  tm_mon :: int
  tm_mday :: int
  tm_hour :: int
  tm_min :: int
  tm_sec :: int

text \<open>The ranges C documents for the fields; the year counts from 1900.\<close>

definition tm_ok :: "tm \<Rightarrow> bool" where
  "tm_ok t \<longleftrightarrow> int_ok (tm_year t + 1900) \<and> 0 \<le> tm_mon t \<and> tm_mon t \<le> 11 \<and> 1 \<le> tm_mday t \<and> tm_mday t \<le> 31 \<and>
     0 \<le> tm_hour t \<and> tm_hour t \<le> 23 \<and> 0 \<le> tm_min t \<and> tm_min t \<le> 59 \<and> 0 \<le> tm_sec t \<and> tm_sec t \<le> 60"

definition two :: "int \<Rightarrow> string" where
  "two x = [digit (nat (x div 10)), digit (nat (x mod 10))]"

text \<open>\<^verbatim>\<open>strftime\<close> with the format \<^verbatim>\<open>%Y-%m-%d %H:%M:%S\<close>.\<close>

definition time_text :: "tm \<Rightarrow> string" where
  "time_text t = dec_int (tm_year t + 1900) @ ''-'' @ two (tm_mon t + 1) @ ''-'' @ two (tm_mday t) @ '' '' @
     two (tm_hour t) @ '':'' @ two (tm_min t) @ '':'' @ two (tm_sec t)"

text \<open>A text that does not fit leaves the buffer indeterminate.\<close>

definition current_time_str :: "nat \<Rightarrow> tm \<Rightarrow> string cres" where
  "current_time_str len t = (if length (time_text t) < len then Inr (time_text t) else Inl OutOfBounds)"

definition time_reply :: "tm \<Rightarrow> bytes" where
  "time_reply t = ''Current time: '' @ time_text t @ [NL]"

lemma length_time_text: "tm_ok t \<Longrightarrow> length (time_text t) \<le> 26"
proof -
  assume "tm_ok t"
  then have y: "- 2147483648 \<le> tm_year t + 1900" "tm_year t + 1900 \<le> 2147483647"
    by (auto simp: tm_ok_def int_ok_simps)
  then have "nat (tm_year t + 1900) < 10 ^ 10" "nat (- (tm_year t + 1900)) < 10 ^ 10" by auto
  then have "length (dec_nat (nat (tm_year t + 1900))) \<le> 10" "length (dec_nat (nat (- (tm_year t + 1900)))) \<le> 10"
    by (auto intro: length_dec_nat)
  then have "length (dec_int (tm_year t + 1900)) \<le> 11" by (simp add: dec_int_def)
  then show ?thesis by (simp add: time_text_def two_def)
qed

lemma current_time_fits: "tm_ok t \<Longrightarrow> 27 \<le> len \<Longrightarrow> current_time_str len t = Inr (time_text t)"
  using length_time_text [of t] by (simp add: current_time_str_def)

subsection \<open>The server\<close>

text \<open>
  The start: every call that fails ends the program. The port is cut to 16 bits.
\<close>

definition ts_create_listen_socket :: "listen_env \<Rightarrow> int \<Rightarrow> int started" where
  "ts_create_listen_socket e port_num =
     (if l_socket e < 0 then Exit 1
      else if \<not> l_setsockopt e then Exit 1
      else if \<not> l_bind e (nat (port_num mod 2 ^ 16)) then Exit 1
      else if \<not> l_listen e then Exit 1
      else Started (l_socket e))"

definition ts_port :: "string list \<Rightarrow> int cres" where
  "ts_port argv = (if length argv = 2 then atoi (argv ! 1) else Inr 8080)"

text \<open>
  One \<^verbatim>\<open>write\<close>; what it leaves over is not sent. The program leaves \<^verbatim>\<open>SIGPIPE\<close> at its default action:
  a write to a connection the peer has closed ends the process.
\<close>

definition serve_connection :: "tm \<Rightarrow> wres \<Rightarrow> bytes cres" where
  "serve_connection t w =
     cbind (current_time_str 64 t) (\<lambda>time_buf.
       let response = take 255 (''Current time: '' @ time_buf @ [NL])
       in case w of
            W n \<Rightarrow> Inr (take n response)
          | WErr e \<Rightarrow> if e = EPIPE then Inl SigPipe else Inr [])"

datatype accepted = Conn int tm wres | AcceptErr errno

text \<open>
  The loop of \<^verbatim>\<open>main\<close>, by what \<^verbatim>\<open>accept\<close> returns and whether \<^verbatim>\<open>SIGINT\<close> arrives since the last test of
  \<^verbatim>\<open>running\<close>. The result is whether the loop has been left, and what went out on every connection
  in the order they were served; each is closed before the next one is accepted.
\<close>

fun ts_loop :: "bool \<Rightarrow> (bool \<times> accepted) list \<Rightarrow> (bool \<times> (int \<times> bytes) list) cres" where
  "ts_loop running [] = Inr (\<not> running, [])"
| "ts_loop running ((sig, r) # rest) =
     (if \<not> running then Inr (True, [])
      else case r of
        AcceptErr e \<Rightarrow> if e = EINTR then Inr (True, []) else ts_loop (\<not> sig) rest
      | Conn cfd t w \<Rightarrow>
          cbind (serve_connection t w) (\<lambda>out.
          cbind (ts_loop (\<not> sig) rest) (\<lambda>(left_loop, log). Inr (left_loop, (cfd, out) # log))))"

text \<open>The program: the result is the exit status of a start that fails, or what the loop did.\<close>

definition ts_main ::
  "listen_env \<Rightarrow> string list \<Rightarrow> (bool \<times> accepted) list \<Rightarrow> (bool \<times> (int \<times> bytes) list) started cres" where
  "ts_main e argv es =
     cbind (ts_port argv) (\<lambda>port_num.
       case ts_create_listen_socket e port_num of
         Exit n \<Rightarrow> Inr (Exit n)
       | Started listen_fd \<Rightarrow> cbind (ts_loop True es) (\<lambda>r. Inr (Started r)))"

subsection \<open>What the server does\<close>

text \<open>The events the loop gets to see: up to the first signal or interrupted \<^verbatim>\<open>accept\<close>.\<close>

fun seen :: "(bool \<times> accepted) list \<Rightarrow> accepted list" where
  "seen [] = []"
| "seen ((sig, r) # rest) = (if r = AcceptErr EINTR then [] else r # (if sig then [] else seen rest))"

fun conns :: "accepted list \<Rightarrow> (int \<times> tm \<times> wres) list" where
  "conns [] = []"
| "conns (Conn c t w # rs) = (c, t, w) # conns rs"
| "conns (AcceptErr e # rs) = conns rs"

definition broken_pipe :: "(int \<times> tm \<times> wres) list \<Rightarrow> bool" where
  "broken_pipe cs \<longleftrightarrow> (\<exists>(c, t, w)\<in>set cs. w = WErr EPIPE)"

definition asked_to_stop :: "(bool \<times> accepted) list \<Rightarrow> bool" where
  "asked_to_stop es \<longleftrightarrow> (\<exists>(sig, r)\<in>set es. sig \<or> r = AcceptErr EINTR)"

definition sent_bytes :: "tm \<Rightarrow> wres \<Rightarrow> bytes" where
  "sent_bytes t w = (case w of W n \<Rightarrow> take n (time_reply t) | WErr e \<Rightarrow> [])"

lemma serve_connection_ok:
  "tm_ok t \<Longrightarrow> serve_connection t w = (if w = WErr EPIPE then Inl SigPipe else Inr (sent_bytes t w))"
  using length_time_text [of t]
  by (auto simp: serve_connection_def current_time_fits sent_bytes_def time_reply_def Let_def split: wres.split)

lemma ts_loop_answers:
  assumes "\<forall>(sig, r)\<in>set es. \<forall>c t w. r = Conn c t w \<longrightarrow> tm_ok t"
  shows "ts_loop True es =
    (if broken_pipe (conns (seen es)) then Inl SigPipe
     else Inr (asked_to_stop es, map (\<lambda>(c, t, w). (c, sent_bytes t w)) (conns (seen es))))"
  using assms
proof (induction es)
  case (Cons e es)
  obtain sig r where e: "e = (sig, r)" by (cases e)
  have stop: "ts_loop False es = Inr (True, [])" by (cases es) auto
  show ?case
    using Cons stop serve_connection_ok
    by (cases sig; cases r) (auto simp: e broken_pipe_def asked_to_stop_def)
qed (simp add: broken_pipe_def asked_to_stop_def)

text \<open>C16: The sequential server ends with status 1 when it cannot listen. Otherwise it answers every connection
  it accepts, in order and exactly once, until the first interrupted \<^verbatim>\<open>accept\<close> or signal, which is what
  ends its loop: each gets the time of its own request, cut only where \<^verbatim>\<open>write\<close> was; a connection that
  the peer has closed ends the whole process.\<close>

theorem time_server_answers:
  assumes "ts_port argv = Inr p" "\<forall>(sig, r)\<in>set es. \<forall>c t w. r = Conn c t w \<longrightarrow> tm_ok t"
  shows "ts_main e argv es =
    (if l_socket e < 0 \<or> \<not> l_setsockopt e \<or> \<not> l_bind e (nat (p mod 65536)) \<or> \<not> l_listen e then Inr (Exit 1)
     else if broken_pipe (conns (seen es)) then Inl SigPipe
     else Inr (Started (asked_to_stop es, map (\<lambda>(c, t, w). (c, sent_bytes t w)) (conns (seen es)))))"
  using assms(1) by (simp add: ts_main_def ts_create_listen_socket_def ts_loop_answers [OF assms(2)])

definition demo_tm1 :: tm where
  "demo_tm1 = \<lparr>tm_year = 124, tm_mon = 1, tm_mday = 29, tm_hour = 7, tm_min = 5, tm_sec = 60\<rparr>"

theorem time_server_answers_witness:
  "ts_main (demo_listen 8080) [''tcp-time-server''] [(False, Conn 4 demo_tm1 (W 200)), (False, AcceptErr EAGAIN),
      (True, Conn 5 demo_tm1 (W 7)), (False, Conn 6 demo_tm1 (WErr EPIPE))] =
    Inr (Started (True, [(4, ''Current time: 2024-02-29 07:05:60'' @ [NL]), (5, ''Current'')]))"
proof -
  let ?es = "[(False, Conn 4 demo_tm1 (W 200)), (False, AcceptErr EAGAIN),
      (True, Conn 5 demo_tm1 (W 7)), (False, Conn 6 demo_tm1 (WErr EPIPE))]"
  have "ts_port [''tcp-time-server''] = Inr 8080" by (simp add: ts_port_def)
  moreover have "\<forall>(sig, r)\<in>set ?es. \<forall>c t w. r = Conn c t w \<longrightarrow> tm_ok t"
    by (auto simp: demo_tm1_def tm_ok_def int_ok_simps)
  moreover have "sent_bytes demo_tm1 (W 200) = ''Current time: 2024-02-29 07:05:60'' @ [NL]"
    "sent_bytes demo_tm1 (W 7) = ''Current''" by code_simp+
  ultimately show ?thesis
    by (simp add: time_server_answers [where p = 8080] demo_listen_def broken_pipe_def asked_to_stop_def)
qed

end
