(* ===== verification/SelectServer.thy ===== *)
theory SelectServer
  imports FileLoop TimeServer
begin

section \<open>The select-based time server\<close>

text \<open>
  \<^verbatim>\<open>select-server.c\<close>: the connection table and the event loop the file server was built from, with a
  reply of one line for every line received. The slots have the fields of the file server's slots.
  What \<^verbatim>\<open>localtime\<close> says is a function of the number of replies made so far; a \<^verbatim>\<open>write\<close> that is not
  answered yet is \<open>Pending\<close>.
\<close>

subsection \<open>The program\<close>

record sserver =
  s_running :: bool
  s_clients :: "Client list"
  s_num :: nat
  s_wrs :: "wres list"
  s_sent :: "int \<Rightarrow> bytes"
  s_rcvd :: "int \<Rightarrow> bytes"
  s_socks :: "int set"
  s_clock :: nat

definition sel_remove_client :: "nat \<Rightarrow> sserver \<Rightarrow> sserver" where
  "sel_remove_client i s =
     s\<lparr>s_socks := s_socks s - {fd (s_clients s ! i)},
       s_clients := (s_clients s)[i := s_clients s ! (s_num s - 1)],
       s_num := s_num s - 1\<rparr>"

definition sel_add_client :: "int \<times> string \<times> nat \<Rightarrow> sserver \<Rightarrow> sserver" where
  "sel_add_client conn s =
     (case conn of (cfd, cip, cport) \<Rightarrow>
        if MAX_CLIENTS \<le> s_num s then s
        else s\<lparr>s_socks := insert cfd (s_socks s),
               s_sent := (s_sent s)(cfd := []), s_rcvd := (s_rcvd s)(cfd := []),
               s_clients := (s_clients s)[s_num s :=
                 (s_clients s ! s_num s)\<lparr>fd := cfd, buf_len := 0, port := cport, ip := cip\<rparr>],
               s_num := s_num s + 1\<rparr>)"

abbreviation sel_current_time_str :: "nat \<Rightarrow> tm \<Rightarrow> string cres" where
  "sel_current_time_str \<equiv> current_time_str"

text \<open>
  One reply: the line is terminated, the time formatted and written with a single \<^verbatim>\<open>write\<close>. The
  program does not ignore \<^verbatim>\<open>SIGPIPE\<close>: a write to a connection the peer has closed ends the process.
\<close>

definition reply_time :: "(nat \<Rightarrow> tm) \<Rightarrow> int \<Rightarrow> sserver \<Rightarrow> (bool \<times> sserver) cres" where
  "reply_time now cfd s =
     cbind (sel_current_time_str 64 (now (s_clock s))) (\<lambda>time_buf.
     cbind (snprintf_out 128 (''Current time: '' @ time_buf @ [NL])) (\<lambda>response.
       case s_wrs s of
         [] \<Rightarrow> Inl Pending
       | w # ws \<Rightarrow>
           let s1 = s\<lparr>s_clock := s_clock s + 1, s_wrs := ws\<rparr>
           in case w of
                WErr e \<Rightarrow> if e = EPIPE then Inl SigPipe else Inr (False, s1)
              | W k \<Rightarrow> Inr (True, s1\<lparr>s_sent := (s_sent s1)(cfd := s_sent s1 cfd @ take k response)\<rparr>)))"

function process_client_data ::
  "(nat \<Rightarrow> tm) \<Rightarrow> Client \<Rightarrow> sserver \<Rightarrow> (int \<times> Client \<times> sserver) cres" where
  "process_client_data now c s =
     (case memchr (buf c) NL (buf_len c) of
        None \<Rightarrow> Inr (if REQ_BUF_SIZE - 1 \<le> buf_len c then -1 else 0, c, s)
      | Some p \<Rightarrow>
          let b = (buf c)[p := NUL]
          in cbind (reply_time now (fd c) s) (\<lambda>(ok, s').
               if \<not> ok then Inr (-1, c\<lparr>buf := b\<rparr>, s')
               else let n = buf_len c - (p + 1)
                    in process_client_data now (c\<lparr>buf := memmove0 b (p + 1) n, buf_len := n\<rparr>) s'))"
  by pat_completeness auto
termination
  by (relation "measure (\<lambda>(now, c, s). buf_len c)") (auto dest: memchr_Some(1))

declare process_client_data.simps [simp del]

definition sel_body :: "(nat \<Rightarrow> tm) \<Rightarrow> (int \<Rightarrow> rres) \<Rightarrow> int set \<Rightarrow> nat \<Rightarrow> sserver \<Rightarrow> sserver cres" where
  "sel_body now rd ready i s =
     (let c = s_clients s ! i
      in if fd c \<notin> ready then Inr s
         else case rd (fd c) of
                RErr e \<Rightarrow> Inr (sel_remove_client i s)
              | R bs \<Rightarrow>
                  let d = take (REQ_BUF_SIZE - 1 - buf_len c) bs
                  in if d = [] then Inr (sel_remove_client i s)
                     else cbind (process_client_data now
                              (c\<lparr>buf := blit (buf c) (buf_len c) d,
                                 buf_len := buf_len c + length d\<rparr>)
                              (s\<lparr>s_rcvd := (s_rcvd s)(fd c := s_rcvd s (fd c) @ d)\<rparr>)) (\<lambda>(r, c', s').
                            let s2 = s'\<lparr>s_clients := (s_clients s')[i := c']\<rparr>
                            in Inr (if r < 0 then sel_remove_client i s2 else s2)))"

fun sel_client_loop :: "(nat \<Rightarrow> tm) \<Rightarrow> (int \<Rightarrow> rres) \<Rightarrow> int set \<Rightarrow> nat \<Rightarrow> sserver \<Rightarrow> sserver cres" where
  "sel_client_loop now rd ready 0 s = Inr s"
| "sel_client_loop now rd ready (Suc i) s =
     cbind (sel_body now rd ready i s) (sel_client_loop now rd ready i)"

definition sel_fds :: "sserver \<Rightarrow> int list" where
  "sel_fds s = map fd (take (s_num s) (s_clients s))"

text \<open>Any error of \<^verbatim>\<open>select\<close> leaves the loop, an interrupted call included.\<close>

definition sel_turn :: "(nat \<Rightarrow> tm) \<Rightarrow> loop_env \<Rightarrow> int \<Rightarrow> sserver \<Rightarrow> (bool \<times> sserver) cres" where
  "sel_turn now le listen_fd s =
     (case e_select le of
        Inl e \<Rightarrow> Inr (False, s)
      | Inr rdy \<Rightarrow>
          let ready = rdy \<inter> insert listen_fd (set (sel_fds s));
              s1 = (if listen_fd \<in> ready then fold sel_add_client (e_accept le) s else s)
          in cbind (sel_client_loop now (e_read le) ready (s_num s1) s1) (\<lambda>s2. Inr (True, s2)))"

definition sel_init :: sserver where
  "sel_init = \<lparr>s_running = True, s_clients = replicate MAX_CLIENTS client0, s_num = 0, s_wrs = [],
     s_sent = (\<lambda>_. []), s_rcvd = (\<lambda>_. []), s_socks = {}, s_clock = 0\<rparr>"

text \<open>
  On return \<^verbatim>\<open>main\<close> closes the connections that are left and then the listening socket; the descriptors
  are listed in the order of the calls.
\<close>

definition sel_finish :: "int \<Rightarrow> sserver \<Rightarrow> int list \<times> sserver" where
  "sel_finish listen_fd s = (sel_fds s @ [listen_fd], s\<lparr>s_socks := s_socks s - set (sel_fds s)\<rparr>)"

text \<open>
  The start of \<^verbatim>\<open>main\<close>. \<^verbatim>\<open>create_listen_socket\<close> is that of the file server, and more than one argument
  counts as none.
\<close>

abbreviation sel_create_listen_socket :: "listen_env \<Rightarrow> int \<Rightarrow> int started" where
  "sel_create_listen_socket \<equiv> create_listen_socket"

definition sel_main :: "listen_env \<Rightarrow> string list \<Rightarrow> (int \<times> sserver) started cres" where
  "sel_main e argv =
     cbind (if length argv = 2 then atoi (argv ! 1) else Inr 8081) (\<lambda>port_num.
       Inr (case sel_create_listen_socket e port_num of
              Exit n \<Rightarrow> Exit n
            | Started listen_fd \<Rightarrow> Started (listen_fd, sel_init)))"

text \<open>The steps of an execution; \<open>wok\<close> restricts the answers to \<^verbatim>\<open>write\<close> where a property needs it.\<close>

inductive sel_step :: "(wres list \<Rightarrow> bool) \<Rightarrow> (nat \<Rightarrow> tm) \<Rightarrow> int \<Rightarrow> bool \<times> sserver \<Rightarrow> bool \<times> sserver \<Rightarrow> bool"
  for wok now listen_fd where
  sigint: "sel_step wok now listen_fd (b, s) (b, s\<lparr>s_running := False\<rparr>)"
| turn: "s_running s \<Longrightarrow> distinct (map fst (e_accept le)) \<Longrightarrow>
    set (map fst (e_accept le)) \<inter> insert listen_fd (s_socks s) = {} \<Longrightarrow> wok ws \<Longrightarrow>
    sel_turn now le listen_fd (s\<lparr>s_wrs := ws\<rparr>) = Inr (go, s') \<Longrightarrow>
    sel_step wok now listen_fd (True, s) (go, s')"
| stop: "\<not> s_running s \<Longrightarrow> sel_step wok now listen_fd (True, s) (False, s)"

subsection \<open>Replies\<close>

lemma reply_time_cases:
  assumes "tm_ok (now (s_clock s))"
  shows "reply_time now cfd s = (case s_wrs s of [] \<Rightarrow> Inl Pending
    | WErr e # ws \<Rightarrow> if e = EPIPE then Inl SigPipe else Inr (False, s\<lparr>s_clock := s_clock s + 1, s_wrs := ws\<rparr>)
    | W k # ws \<Rightarrow> Inr (True, s\<lparr>s_clock := s_clock s + 1, s_wrs := ws,
        s_sent := (s_sent s)(cfd := s_sent s cfd @ take k (time_reply (now (s_clock s))))\<rparr>))"
  using length_time_text [OF assms] assms
  by (simp add: reply_time_def current_time_fits time_reply_def Let_def split: list.split wres.split)

text \<open>What one call of \<^verbatim>\<open>process_client_data\<close> keeps.\<close>

definition sel_kept :: "Client \<Rightarrow> sserver \<Rightarrow> int \<times> Client \<times> sserver \<Rightarrow> bool" where
  "sel_kept c s = (\<lambda>(r, c', s'). fd c' = fd c \<and> length (buf c') = length (buf c) \<and> buf_len c' \<le> buf_len c \<and>
     (0 \<le> r \<longrightarrow> buf_len c' < REQ_BUF_SIZE - 1) \<and> s_clients s' = s_clients s \<and> s_num s' = s_num s \<and>
     s_socks s' = s_socks s \<and> s_running s' = s_running s \<and> s_rcvd s' = s_rcvd s \<and>
     set (s_wrs s') \<subseteq> set (s_wrs s))"

text \<open>
  The reasons a call may have for not returning: a write that is not answered yet and, only where one
  is answered with \<^verbatim>\<open>EPIPE\<close>, the signal.
\<close>

definition sel_faults :: "fault set \<Rightarrow> sserver \<Rightarrow> bool" where
  "sel_faults F s \<longleftrightarrow> Pending \<in> F \<and> (WErr EPIPE \<in> set (s_wrs s) \<longrightarrow> SigPipe \<in> F)"

lemma sel_faults_mono: "sel_faults F s \<Longrightarrow> set (s_wrs s') \<subseteq> set (s_wrs s) \<Longrightarrow> sel_faults F s'"
  by (auto simp: sel_faults_def)

lemma process_client_data_Some:
  assumes "memchr (buf c) NL (buf_len c) = Some p" "n = buf_len c - (p + 1)" "b = (buf c)[p := NUL]"
  shows "process_client_data now c s = cbind (reply_time now (fd c) s) (\<lambda>(ok, s').
    if \<not> ok then Inr (-1, c\<lparr>buf := b\<rparr>, s')
    else process_client_data now (c\<lparr>buf := memmove0 b (p + 1) n, buf_len := n\<rparr>) s')"
  by (subst process_client_data.simps) (simp add: assms Let_def cong: if_cong)

lemma reply_time_kept:
  assumes "tm_ok (now (s_clock s))" "sel_faults F s"
  shows "okin F (\<lambda>(ok, s'). s_clients s' = s_clients s \<and> s_num s' = s_num s \<and> s_socks s' = s_socks s \<and>
    s_running s' = s_running s \<and> s_rcvd s' = s_rcvd s \<and> set (s_wrs s') \<subseteq> set (s_wrs s)) (reply_time now cfd s)"
  using assms(2)
  by (auto simp: reply_time_cases [of now, OF assms(1)] sel_faults_def split: list.split wres.split)

lemma process_client_data_ok:
  assumes "\<forall>t. tm_ok (now t)" "buf_len c \<le> length (buf c)" "sel_faults F s"
  shows "okin F (sel_kept c s) (process_client_data now c s)"
  using assms
proof (induction now c s rule: process_client_data.induct)
  case (1 now c s)
  show ?case
  proof (cases "memchr (buf c) NL (buf_len c)")
    case None
    then show ?thesis by (subst process_client_data.simps) (auto simp: sel_kept_def)
  next
    case (Some p)
    note m = memchr_Some [OF Some]
    define n where "n = buf_len c - (p + 1)"
    define b where "b = (buf c)[p := NUL]"
    let ?c = "c\<lparr>buf := memmove0 b (p + 1) n, buf_len := n\<rparr>"
    have len: "p + 1 + n \<le> length b" "length b = length (buf c)" using m "1.prems"(2) by (simp_all add: n_def b_def)
    have IH: "okin F (sel_kept ?c s') (process_client_data now ?c s')"
      if "reply_time now (fd c) s = Inr (True, s')" "sel_faults F s'" for s'
      by (rule "1.IH" [OF Some b_def that(1) refl _ n_def]) (use len "1.prems" that in simp_all)
    have "tm_ok (now (s_clock s))" using "1.prems" by blast
    note rt = reply_time_kept [of now s, OF this "1.prems"(3), of "fd c"]
    show ?thesis unfolding process_client_data_Some [OF Some n_def b_def, of now s]
    proof (rule okin_bind_eq [OF rt], clarify)
      fix ok s'
      assume r: "reply_time now (fd c) s = Inr (ok, s')" and k: "s_clients s' = s_clients s" "s_num s' = s_num s"
        "s_socks s' = s_socks s" "s_running s' = s_running s" "s_rcvd s' = s_rcvd s" "set (s_wrs s') \<subseteq> set (s_wrs s)"
      show "okin F (sel_kept c s) (if \<not> ok then Inr (-1, c\<lparr>buf := b\<rparr>, s') else process_client_data now ?c s')"
      proof (cases ok)
        case True
        with r have "okin F (sel_kept ?c s') (process_client_data now ?c s')"
          using IH sel_faults_mono [OF "1.prems"(3) k(6)] by simp
        then show ?thesis using True len m k by (auto elim!: okin_mono simp: sel_kept_def n_def)
      qed (use k in \<open>simp add: sel_kept_def b_def\<close>)
    qed
  qed
qed

text \<open>The effect of \<open>k\<close> replies that the kernel takes whole.\<close>

definition all_full :: "wres list \<Rightarrow> bool" where
  "all_full ws \<longleftrightarrow> (\<forall>w\<in>set ws. \<exists>n\<ge>64. w = W n)"

definition answered :: "(nat \<Rightarrow> tm) \<Rightarrow> int \<Rightarrow> nat \<Rightarrow> sserver \<Rightarrow> sserver" where
  "answered now cfd k s = s\<lparr>s_clock := s_clock s + k, s_wrs := drop k (s_wrs s),
     s_sent := (s_sent s)(cfd := s_sent s cfd @
       concat (map (\<lambda>i. time_reply (now i)) [s_clock s..<s_clock s + k]))\<rparr>"

lemma answered_0 [simp]: "answered now cfd 0 s = s"
  by (simp add: answered_def)

lemma answered_add: "answered now cfd k (answered now cfd j s) = answered now cfd (j + k) s"
proof -
  have "[s_clock s..<s_clock s + (j + k)] = [s_clock s..<s_clock s + j] @ [s_clock s + j..<s_clock s + j + k]"
    by (metis add.assoc le_add1 upt_add_eq_append)
  then show ?thesis by (simp add: answered_def add.assoc add.commute)
qed

lemma answered_full: "all_full (s_wrs s) \<Longrightarrow> all_full (s_wrs (answered now cfd k s))"
  by (auto simp: all_full_def answered_def dest: in_set_dropD)

lemma reply_time_full:
  assumes "\<forall>t. tm_ok (now t)" "all_full (s_wrs s)" "reply_time now cfd s = Inr (ok, s')"
  shows "ok \<and> s' = answered now cfd 1 s"
proof -
  have t: "tm_ok (now (s_clock s))" using assms(1) by blast
  obtain n ws where w: "s_wrs s = W n # ws" "64 \<le> n"
    using assms(2,3) reply_time_cases [of now s cfd, OF t] by (cases "s_wrs s") (auto simp: all_full_def)
  have "length (time_reply (now (s_clock s))) \<le> n"
    using length_time_text [OF t] w(2) by (simp add: time_reply_def)
  then show ?thesis using assms(3) by (simp add: reply_time_cases [of now, OF t] w answered_def)
qed

lemma process_client_data_answers:
  assumes "\<forall>t. tm_ok (now t)" "buf_len c \<le> length (buf c)" "all_full (s_wrs s)"
    and "process_client_data now c s = Inr (r, c', s')"
  shows "pending c' = unfinished (pending c) \<and> s' = answered now (fd c) (length (complete_lines (pending c))) s"
  using assms
proof (induction now c s rule: process_client_data.induct)
  case (1 now c s)
  show ?case
  proof (cases "memchr (buf c) NL (buf_len c)")
    case None
    then have "nl_split (pending c) = ([], pending c)" unfolding pending_def by (intro nl_split_none memchr_None)
    then show ?thesis using None "1.prems"(4) by (simp add: process_client_data.simps [of now c])
  next
    case (Some p)
    note m = memchr_Some [OF Some]
    define n where "n = buf_len c - (p + 1)"
    define b where "b = (buf c)[p := NUL]"
    define c1 where "c1 = c\<lparr>buf := memmove0 b (p + 1) n, buf_len := n\<rparr>"
    have len: "buf_len c1 \<le> length (buf c1)" using m "1.prems"(2) by (simp add: n_def b_def c1_def)
    have turn: "nl_split (pending c) = (take p (buf c) # complete_lines (pending c1), unfinished (pending c1))"
      using nl_split_turn(1) [OF Some "1.prems"(2) n_def, of b] by (simp add: pending_def c1_def b_def)
    obtain ok s1 where rt: "reply_time now (fd c) s = Inr (ok, s1)"
      and rest: "(if \<not> ok then Inr (-1, c\<lparr>buf := b\<rparr>, s1) else process_client_data now c1 s1) = Inr (r, c', s')"
      using "1.prems"(4) unfolding process_client_data_Some [OF Some n_def b_def] c1_def by (auto simp: cbind_Inr_conv)
    have s1: "ok" "s1 = answered now (fd c) 1 s" using reply_time_full [OF "1.prems"(1,3) rt] by simp_all
    then have "process_client_data now c1 s1 = Inr (r, c', s')" using rest by simp
    with "1.IH" [OF Some b_def rt refl _ n_def] s1 len "1.prems"(1) answered_full [OF "1.prems"(3), of now "fd c" 1]
    have "pending c' = unfinished (pending c1) \<and> s' = answered now (fd c1) (length (complete_lines (pending c1))) s1"
      by (simp add: c1_def)
    then show ?thesis using turn s1(2) by (simp add: answered_add c1_def)
  qed
qed

definition demo_tm :: "nat \<Rightarrow> tm" where
  "demo_tm t = \<lparr>tm_year = 124, tm_mon = 1, tm_mday = 29, tm_hour = 7, tm_min = 5, tm_sec = int (t mod 60)\<rparr>"

lemma demo_tm_ok: "tm_ok (demo_tm t)"
proof -
  have "t mod 60 < 60" by simp
  then show ?thesis by (simp add: demo_tm_def tm_ok_def int_ok_simps)
qed

subsection \<open>The table\<close>

text \<open>The table is that of the file server: the same slots, the same two operations.\<close>

definition as_table :: "sserver \<Rightarrow> fserver" where
  "as_table s = (server_init [])\<lparr>clients := s_clients s, num_clients := s_num s, socks := s_socks s, rcvd := s_rcvd s\<rparr>"

definition sel_inv :: "sserver \<Rightarrow> bool" where
  "sel_inv s \<longleftrightarrow> table_inv (as_table s)"

lemma as_table_simps [simp]:
  "clients (as_table s) = s_clients s" "num_clients (as_table s) = s_num s" "socks (as_table s) = s_socks s"
  "live_fds (as_table s) = sel_fds s" "rcvd (as_table s) = s_rcvd s"
  by (simp_all add: as_table_def live_fds_def sel_fds_def)

lemma as_table_same [simp]: "(as_table s)\<lparr>clients := s_clients s\<rparr> = as_table s"
  by (intro fserver.equality) simp_all

lemma as_table_remove: "as_table (sel_remove_client i s) = remove_client i (as_table s)"
  by (simp add: as_table_def sel_remove_client_def remove_client_def)

lemma as_table_add: "as_table (sel_add_client conn s) = add_client conn (as_table s)"
  by (simp add: as_table_def sel_add_client_def add_client_def server_init_def fun_upd_idem split: prod.split)

lemma as_table_update: "as_table (s\<lparr>s_clients := (s_clients s)[i := c]\<rparr>) =
    (as_table s)\<lparr>clients := (clients (as_table s))[i := c]\<rparr>"
  by (simp add: as_table_def)

lemma as_table_cong: "s_clients s' = s_clients s \<Longrightarrow> s_num s' = s_num s \<Longrightarrow> s_socks s' = s_socks s \<Longrightarrow>
    s_rcvd s' = s_rcvd s \<Longrightarrow> as_table s' = as_table s"
  by (simp add: as_table_def)

lemma sel_init_inv: "sel_inv sel_init"
proof -
  have "as_table sel_init = server_init []" by (simp add: as_table_def sel_init_def server_init_def)
  then show ?thesis using server_init_inv [of "[]"] by (simp add: sel_inv_def server_inv_def)
qed

lemma sel_remove_inv:
  assumes "sel_inv s" "i < s_num s"
  shows "sel_inv (sel_remove_client i s)"
proof -
  have "s_clients s ! i \<in> set (s_clients s)" using assms by (simp add: sel_inv_def table_inv_def)
  then have "length (buf (s_clients s ! i)) = REQ_BUF_SIZE" using assms by (simp add: sel_inv_def table_inv_def)
  then show ?thesis
    using remove_client_table [of "as_table s" i "s_clients s ! i"] assms
    by (simp add: sel_inv_def as_table_remove)
qed

text \<open>The three things that can happen to a slot, as in the file server.\<close>

definition sel_received :: "int \<Rightarrow> bytes \<Rightarrow> sserver \<Rightarrow> sserver" where
  "sel_received cfd d s = s\<lparr>s_rcvd := (s_rcvd s)(cfd := s_rcvd s cfd @ d)\<rparr>"

definition sel_stored :: "nat \<Rightarrow> int \<times> Client \<times> sserver \<Rightarrow> sserver" where
  "sel_stored i = (\<lambda>(r, c', s'). let s2 = s'\<lparr>s_clients := (s_clients s')[i := c']\<rparr> in if r < 0 then sel_remove_client i s2 else s2)"

lemma sel_received_frame [simp]:
  "s_clients (sel_received cfd d s) = s_clients s" "s_num (sel_received cfd d s) = s_num s"
  "s_socks (sel_received cfd d s) = s_socks s" "s_running (sel_received cfd d s) = s_running s"
  "s_wrs (sel_received cfd d s) = s_wrs s" "s_sent (sel_received cfd d s) = s_sent s" "s_clock (sel_received cfd d s) = s_clock s"
  "s_rcvd (sel_received cfd d s) = (s_rcvd s)(cfd := s_rcvd s cfd @ d)"
  by (simp_all add: sel_received_def)

lemma sel_body_cases:
  obtains (idle) "sel_body now rd ready i s = Inr s"
    | (gone) "sel_body now rd ready i s = Inr (sel_remove_client i s)"
    | (data) d where "d \<noteq> []" "length d \<le> REQ_BUF_SIZE - 1 - buf_len (s_clients s ! i)"
        "sel_body now rd ready i s = cbind (process_client_data now (fed (s_clients s ! i) d)
          (sel_received (fd (s_clients s ! i)) d s)) (\<lambda>x. Inr (sel_stored i x))"
proof (cases "fd (s_clients s ! i) \<in> ready")
  case True
  let ?c = "s_clients s ! i"
  show ?thesis
  proof (cases "rd (fd ?c)")
    case (R bs)
    let ?d = "take (REQ_BUF_SIZE - 1 - buf_len ?c) bs"
    have "sel_body now rd ready i s = (if ?d = [] then Inr (sel_remove_client i s)
        else cbind (process_client_data now (fed ?c ?d) (sel_received (fd ?c) ?d s)) (\<lambda>x. Inr (sel_stored i x)))"
      using True R by (simp add: sel_body_def Let_def fed_def sel_received_def sel_stored_def case_prod_unfold)
    then show ?thesis using that(2) that(3) [of ?d] by (cases "?d = []") simp_all
  qed (use True that(2) in \<open>simp add: sel_body_def Let_def\<close>)
qed (use that(1) in \<open>simp add: sel_body_def\<close>)

lemma sel_slot:
  assumes "sel_inv s" "i < s_num s" "length d \<le> REQ_BUF_SIZE - 1 - buf_len (s_clients s ! i)"
  shows "fd (fed (s_clients s ! i) d) = fd (s_clients s ! i)" "length (buf (fed (s_clients s ! i) d)) = REQ_BUF_SIZE"
    "buf_len (fed (s_clients s ! i) d) \<le> length (buf (fed (s_clients s ! i) d))"
    "pending (fed (s_clients s ! i) d) = pending (s_clients s ! i) @ d"
  using fed_ok [of "s_clients s ! i" d] live_slot(3,4) [of "as_table s" i] assms by (simp_all add: sel_inv_def)

lemma sel_body_ok:
  assumes inv: "sel_inv s" and ok: "\<forall>t. tm_ok (now t)" "sel_faults F s" and i: "i < s_num s"
  shows "okin F (\<lambda>s'. sel_inv s' \<and> i \<le> s_num s' \<and> s_running s' = s_running s \<and> sel_faults F s') (sel_body now rd ready i s)"
    (is "okin F ?P _")
proof (cases rule: sel_body_cases [of now rd ready i s])
  case idle
  then show ?thesis using inv i ok(2) by simp
next
  case gone
  then show ?thesis using sel_remove_inv [OF inv i] i ok(2) by (simp add: sel_remove_client_def sel_faults_def)
next
  case (data d)
  let ?c = "s_clients s ! i"
  note c1 = sel_slot [OF inv i data(2)]
  have f: "sel_faults F (sel_received (fd ?c) d s)" using ok(2) by (simp add: sel_faults_def)
  show ?thesis unfolding data(3)
  proof (rule okin_bind [OF process_client_data_ok [OF ok(1) c1(3) f]], clarify)
    fix r :: int and c' :: Client and s'
    assume kept: "sel_kept (fed ?c d) (sel_received (fd ?c) d s) (r, c', s')"
    then have k: "fd c' = fd ?c" "length (buf c') = REQ_BUF_SIZE" "0 \<le> r \<longrightarrow> buf_len c' < REQ_BUF_SIZE - 1"
      "s_num s' = s_num s" "s_running s' = s_running s" "set (s_wrs s') \<subseteq> set (s_wrs s)" "s_clients s' = s_clients s"
      using c1(1,2) by (auto simp: sel_kept_def)
    let ?s2 = "s'\<lparr>s_clients := (s_clients s')[i := c']\<rparr>"
    have "table_inv (as_table s')" using inv kept table_inv_cong [of "as_table s'" "as_table s"] by (simp add: sel_kept_def sel_inv_def)
    then have "sel_inv (sel_remove_client i ?s2)" "0 \<le> r \<longrightarrow> sel_inv ?s2"
      using remove_client_table [of "as_table s'" i c'] update_client_table [of "as_table s'" i c'] i k
      unfolding sel_inv_def as_table_remove as_table_update by simp_all
    moreover have "sel_faults F s'" using sel_faults_mono [OF ok(2) k(6)] .
    ultimately show "okin F ?P (Inr (sel_stored i (r, c', s')))"
      using i k by (auto simp: sel_stored_def Let_def sel_remove_client_def sel_faults_def)
  qed
qed

lemma sel_client_loop_ok:
  assumes "sel_inv s" "\<forall>t. tm_ok (now t)" "sel_faults F s" "n \<le> s_num s"
  shows "okin F (\<lambda>s'. sel_inv s' \<and> s_running s' = s_running s) (sel_client_loop now rd ready n s)"
  using assms
proof (induction n arbitrary: s)
  case (Suc i)
  then have "okin F (\<lambda>s'. sel_inv s' \<and> i \<le> s_num s' \<and> s_running s' = s_running s \<and> sel_faults F s')
      (sel_body now rd ready i s)"
    by (intro sel_body_ok) auto
  then show ?case unfolding sel_client_loop.simps
  proof (rule okin_bind)
    fix s1 assume "sel_inv s1 \<and> i \<le> s_num s1 \<and> s_running s1 = s_running s \<and> sel_faults F s1"
    then show "okin F (\<lambda>s'. sel_inv s' \<and> s_running s' = s_running s) (sel_client_loop now rd ready i s1)"
      using Suc.IH [of s1] Suc.prems(2) by simp
  qed
qed simp

lemma fold_sel_add_client_inv:
  assumes "sel_inv s" "distinct (map fst cs)" "set (map fst cs) \<inter> s_socks s = {}"
  shows "sel_inv (fold sel_add_client cs s) \<and> s_running (fold sel_add_client cs s) = s_running s \<and>
    s_wrs (fold sel_add_client cs s) = s_wrs s"
  using assms
proof (induction cs arbitrary: s)
  case (Cons conn cs)
  have "fst conn \<notin> socks (as_table s)" using Cons.prems(3) by auto
  note add = add_client_table [OF Cons.prems(1) [unfolded sel_inv_def] this, folded as_table_add]
  have "sel_inv (sel_add_client conn s)" "s_socks (sel_add_client conn s) \<subseteq> insert (fst conn) (s_socks s)"
    using add by (simp_all add: sel_inv_def)
  moreover have "s_running (sel_add_client conn s) = s_running s" and wrs: "s_wrs (sel_add_client conn s) = s_wrs s"
    by (simp_all add: sel_add_client_def split: prod.split)
  moreover have "set (map fst cs) \<inter> insert (fst conn) (s_socks s) = {}" using Cons.prems(2,3) by auto
  ultimately have "sel_inv (sel_add_client conn s)" "set (map fst cs) \<inter> s_socks (sel_add_client conn s) = {}"
    "s_running (sel_add_client conn s) = s_running s" "distinct (map fst cs)"
    using Cons.prems(2) by (blast, blast, blast, simp)
  then show ?case using Cons.IH [of "sel_add_client conn s"] wrs by simp
qed simp

lemma sel_turn_ok:
  assumes inv: "sel_inv s" and ok: "\<forall>t. tm_ok (now t)" "sel_faults F s"
    and acc: "distinct (map fst (e_accept le))" "set (map fst (e_accept le)) \<inter> insert listen_fd (s_socks s) = {}"
  shows "okin F (\<lambda>(go, s'). sel_inv s' \<and> s_running s' = s_running s) (sel_turn now le listen_fd s)"
proof (cases "e_select le")
  case (Inr rdy)
  let ?ready = "rdy \<inter> insert listen_fd (set (sel_fds s))"
  define s2 where "s2 = (if listen_fd \<in> ?ready then fold sel_add_client (e_accept le) s else s)"
  have s2: "sel_inv s2" "s_running s2 = s_running s" "sel_faults F s2"
    using fold_sel_add_client_inv [of s "e_accept le"] inv acc ok(2) by (auto simp: s2_def sel_faults_def)
  have "okin F (\<lambda>s'. sel_inv s' \<and> s_running s' = s_running s) (sel_client_loop now (e_read le) ?ready (s_num s2) s2)"
    using sel_client_loop_ok [OF s2(1) ok(1) s2(3), of "s_num s2"] s2(2) by simp
  then show ?thesis unfolding sel_turn_def Inr sum.case Let_def s2_def [symmetric]
    by (rule okin_bind) simp
qed (use inv in \<open>simp add: sel_turn_def\<close>)

text \<open>Executions under every clock whose fields are in the ranges C documents.\<close>

definition sel_exec :: "int \<Rightarrow> bool \<times> sserver \<Rightarrow> bool \<times> sserver \<Rightarrow> bool" where
  "sel_exec listen_fd x y \<longleftrightarrow> (\<exists>now. (\<forall>t. tm_ok (now t)) \<and> sel_step (\<lambda>_. True) now listen_fd x y)"

lemma sel_inv_frame [simp]:
  "sel_inv (s\<lparr>s_running := r\<rparr>) = sel_inv s" "sel_inv (s\<lparr>s_wrs := ws\<rparr>) = sel_inv s"
  by (simp_all add: sel_inv_def as_table_def)

lemma sel_step_inv:
  assumes "sel_step wok now listen_fd x y" "\<forall>t. tm_ok (now t)" "sel_inv (snd x)"
  shows "sel_inv (snd y)"
  using assms(1)
proof (cases rule: sel_step.cases)
  case (turn s le ws go s')
  then show ?thesis
    using sel_turn_ok [of "s\<lparr>s_wrs := ws\<rparr>" now "{Pending, SigPipe}" le listen_fd] assms(2,3)
    by (simp add: sel_faults_def)
qed (use assms(3) in auto)

interpretation selm: invariant_system "sel_exec listen_fd" "(True, sel_init)" "\<lambda>x. sel_inv (snd x)"
  for listen_fd
  by unfold_locales (use sel_init_inv sel_step_inv in \<open>auto simp: sel_exec_def\<close>)

text \<open>C15: In every execution of the select server the table is well formed: at most 64 connections, their
  descriptors distinct and exactly the open sockets, every buffer with room for at least one more
  byte. No turn does anything undefined, whatever the kernel answers; the process dies in one only if
  a write is answered with \<^verbatim>\<open>EPIPE\<close>; and the shutdown closes every connection once and the listening
  socket last, which leaves no socket open.\<close>

theorem select_table_invariant:
  assumes "sel_main env argv = Inr (Started (listen_fd, s0))"
    and "reachable (sel_exec listen_fd) (True, s0) (go, s)"
  shows "s_num s \<le> 64 \<and> distinct (sel_fds s) \<and> s_socks s = set (sel_fds s) \<and>
    list_all (\<lambda>c. length (buf c) = 512 \<and> buf_len c < 511) (take (s_num s) (s_clients s)) \<and>
    (\<forall>now le ws e. (\<forall>t. tm_ok (now t)) \<longrightarrow> distinct (map fst (e_accept le)) \<longrightarrow>
      set (map fst (e_accept le)) \<inter> insert listen_fd (s_socks s) = {} \<longrightarrow>
      sel_turn now le listen_fd (s\<lparr>s_wrs := ws\<rparr>) = Inl e \<longrightarrow> e = Pending \<or> e = SigPipe \<and> WErr EPIPE \<in> set ws) \<and>
    fst (sel_finish listen_fd s) = sel_fds s @ [listen_fd] \<and> s_socks (snd (sel_finish listen_fd s)) = {}"
proof -
  have "s0 = sel_init" using assms(1) by (auto simp: sel_main_def split: started.splits)
  with assms(2) have inv: "sel_inv s" using selm.reachable_inv by fastforce
  then have "s_num s \<le> 64" "distinct (sel_fds s)" "s_socks s = set (sel_fds s)"
      "fst (sel_finish listen_fd s) = sel_fds s @ [listen_fd]" "s_socks (snd (sel_finish listen_fd s)) = {}"
    by (simp_all add: sel_inv_def table_inv_def MAX_CLIENTS_def sel_finish_def)
  moreover have "length (buf c) = 512 \<and> buf_len c < 511" if "c \<in> set (take (s_num s) (s_clients s))" for c
    using that inv in_set_takeD [OF that] by (auto simp: sel_inv_def table_inv_def REQ_BUF_SIZE_def)
  moreover have "e = Pending \<or> e = SigPipe \<and> WErr EPIPE \<in> set ws" if "\<forall>t. tm_ok (now t)" "distinct (map fst (e_accept le))"
    "set (map fst (e_accept le)) \<inter> insert listen_fd (s_socks s) = {}" "sel_turn now le listen_fd (s\<lparr>s_wrs := ws\<rparr>) = Inl e"
    for now le ws e
    using sel_turn_ok [of "s\<lparr>s_wrs := ws\<rparr>" now "{f. f = Pending \<or> f = SigPipe \<and> WErr EPIPE \<in> set ws}" le listen_fd]
      inv that by (simp add: sel_faults_def)
  ultimately show ?thesis by (simp add: list_all_iff)
qed

text \<open>An execution with one turn that accepts a connection.\<close>

definition demo_turn :: loop_env where
  "demo_turn = \<lparr>e_select = Inr {3}, e_accept = [(7, ''127.0.0.1'', 4000)], e_read = (\<lambda>_. RErr EAGAIN)\<rparr>"

subsection \<open>The conversations\<close>

text \<open>
  Every complete line received on a connection has one reply, and the replies are in the order of
  the clock. This holds as long as the kernel takes each reply whole.
\<close>

definition told :: "(nat \<Rightarrow> tm) \<Rightarrow> sserver \<Rightarrow> int \<Rightarrow> bool" where
  "told now s x \<longleftrightarrow> (\<exists>ts. length ts = length (complete_lines (s_rcvd s x)) \<and> sorted_wrt (<) ts \<and>
     (\<forall>t\<in>set ts. t < s_clock s) \<and> s_sent s x = concat (map (\<lambda>t. time_reply (now t)) ts))"

definition sel_talk :: "(nat \<Rightarrow> tm) \<Rightarrow> sserver \<Rightarrow> bool" where
  "sel_talk now s \<longleftrightarrow> all_full (s_wrs s) \<and> (\<forall>x. told now s x) \<and> pends (as_table s)"

lemma told_answered:
  assumes old: "told now s x" and n: "length (complete_lines (s_rcvd s' x)) = length (complete_lines (s_rcvd s x)) + (if x = cfd then k else 0)"
    and s': "s_clock s' = s_clock s + k" "s_sent s' = s_sent (answered now cfd k s)"
  shows "told now s' x"
proof -
  from old obtain ts where ts: "length ts = length (complete_lines (s_rcvd s x))" "sorted_wrt (<) ts" "\<forall>t\<in>set ts. t < s_clock s"
    "s_sent s x = concat (map (\<lambda>t. time_reply (now t)) ts)" by (auto simp: told_def)
  show ?thesis
  proof (cases "x = cfd")
    case True
    let ?ts = "ts @ [s_clock s..<s_clock s + k]"
    have "sorted_wrt (<) ?ts" using ts(2,3) by (auto simp: sorted_wrt_append strict_sorted_iff)
    then show ?thesis using ts n s' True unfolding told_def by (intro exI [of _ ?ts]) (auto simp: answered_def)
  qed (use ts n s' in \<open>auto simp: told_def answered_def intro!: exI [of _ ts]\<close>)
qed

lemma sel_talk_body:
  assumes inv: "sel_inv s" and tk: "sel_talk now s" and ok: "\<forall>t. tm_ok (now t)" and i: "i < s_num s"
    and run: "sel_body now rd ready i s = Inr s'"
  shows "sel_talk now s'"
proof (cases rule: sel_body_cases [of now rd ready i s])
  case idle
  then show ?thesis using run tk by simp
next
  case gone
  have "s_num s \<le> length (s_clients s)" using inv by (auto simp: sel_inv_def table_inv_def)
  then have "pends (as_table (sel_remove_client i s))"
    using tk i unfolding as_table_remove by (intro pends_remove) (auto simp: sel_talk_def pends_def)
  then show ?thesis using gone run tk by (auto simp: sel_talk_def told_def sel_remove_client_def)
next
  case (data d)
  let ?c = "s_clients s ! i" and ?r = "sel_received (fd (s_clients s ! i)) d s"
  note c1 = sel_slot [OF inv i data(2)]
  from run data(3) obtain r c' s1 where p: "process_client_data now (fed ?c d) ?r = Inr (r, c', s1)"
    and s': "s' = sel_stored i (r, c', s1)" by (auto simp: cbind_Inr_conv)
  have old: "all_full (s_wrs s)" "told now s x" "pends (as_table s)" for x using tk by (simp_all add: sel_talk_def)
  let ?k = "length (complete_lines (pending ?c @ d))"
  have a: "pending c' = unfinished (pending ?c @ d)" "s1 = answered now (fd ?c) ?k ?r"
    using process_client_data_answers [OF ok c1(3) _ p] old(1) c1(1,4) by simp_all
  have "fd c' = fd ?c"
    using process_client_data_ok [OF ok c1(3), of "{Pending, SigPipe}" ?r] p c1(1) by (simp add: sel_kept_def sel_faults_def)
  note srv = pends_served [of "as_table s" i ?c c' d "as_table s1"]
  have pend: "pends (as_table (s1\<lparr>s_clients := (s_clients s1)[i := c']\<rparr>))"
    "pends (as_table (sel_remove_client i (s1\<lparr>s_clients := (s_clients s1)[i := c']\<rparr>)))"
    unfolding as_table_remove as_table_update
    by (rule srv; use inv old(3) i a \<open>fd c' = fd ?c\<close> in \<open>simp add: sel_inv_def answered_def\<close>)+
  have "pending ?c = unfinished (s_rcvd s (fd ?c))" using old(3) i by (simp add: pends_def pend_ok_def)
  then have "told now s1 x" for x
    using nl_split_append [of "s_rcvd s (fd ?c)" d]
    by (intro told_answered [OF old(2), where cfd = "fd ?c" and k = ?k]) (simp_all add: a(2) answered_def)
  then have "told now s' x" for x by (simp add: s' sel_stored_def Let_def told_def sel_remove_client_def)
  moreover have "all_full (s_wrs s')"
    using answered_full [of ?r now "fd ?c" ?k] old(1) by (simp add: s' a(2) sel_stored_def Let_def sel_remove_client_def)
  ultimately show ?thesis using pend by (simp add: sel_talk_def s' sel_stored_def Let_def)
qed

lemma sel_talk_loop:
  assumes "sel_inv s" "sel_talk now s" "\<forall>t. tm_ok (now t)" "n \<le> s_num s" "sel_client_loop now rd ready n s = Inr s'"
  shows "sel_talk now s'"
  using assms
proof (induction n arbitrary: s)
  case (Suc i)
  then obtain s1 where one: "sel_body now rd ready i s = Inr s1" and rest: "sel_client_loop now rd ready i s1 = Inr s'"
    by (auto simp: cbind_Inr_conv)
  have "sel_inv s1 \<and> i \<le> s_num s1"
    using sel_body_ok [OF Suc.prems(1,3), of "{Pending, SigPipe}" i rd ready] one Suc.prems(4) by (simp add: sel_faults_def)
  moreover have "sel_talk now s1" by (rule sel_talk_body [OF Suc.prems(1-3) _ one]) (use Suc.prems(4) in simp)
  ultimately show ?case using Suc.IH Suc.prems(3) rest by blast
qed simp

lemma sel_talk_fold_add:
  assumes "sel_inv s" "sel_talk now s" "distinct (map fst cs)" "set (map fst cs) \<inter> s_socks s = {}"
  shows "sel_talk now (fold sel_add_client cs s)"
  using assms
proof (induction cs arbitrary: s)
  case (Cons conn cs)
  have new: "fst conn \<notin> socks (as_table s)" using Cons.prems(4) by auto
  have "pends (as_table (sel_add_client conn s))"
    using pends_add [OF _ _ new] Cons.prems(1,2) by (simp add: as_table_add sel_inv_def sel_talk_def)
  moreover have "told now (sel_add_client conn s) x" for x
    using Cons.prems(2) by (auto simp: sel_talk_def told_def sel_add_client_def nl_split_none split: prod.split)
  ultimately have "sel_talk now (sel_add_client conn s)"
    using Cons.prems(2) by (auto simp: sel_talk_def sel_add_client_def split: prod.split)
  moreover have "sel_inv (sel_add_client conn s)" using fold_sel_add_client_inv [of s "[conn]"] Cons.prems by simp
  moreover have "s_socks (sel_add_client conn s) \<subseteq> insert (fst conn) (s_socks s)"
    by (auto simp: sel_add_client_def split: prod.split)
  moreover have "set (map fst cs) \<inter> insert (fst conn) (s_socks s) = {}" using Cons.prems(3,4) by auto
  ultimately have "sel_talk now (sel_add_client conn s)" "sel_inv (sel_add_client conn s)"
    "set (map fst cs) \<inter> s_socks (sel_add_client conn s) = {}" by blast+
  then show ?case using Cons.IH [of "sel_add_client conn s"] Cons.prems(3) by simp
qed simp

lemma sel_talk_step:
  assumes "sel_step all_full now listen_fd x y" "\<forall>t. tm_ok (now t)" "sel_inv (snd x)" "sel_talk now (snd x)"
  shows "sel_talk now (snd y)"
  using assms(1)
proof (cases rule: sel_step.cases)
  case (turn s le ws go s')
  let ?s = "s\<lparr>s_wrs := ws\<rparr>"
  have s: "sel_inv ?s" "sel_talk now ?s" using assms(3,4) turn by (auto simp: sel_talk_def told_def as_table_def)
  show ?thesis
  proof (cases "e_select le")
    case (Inr rdy)
    let ?ready = "rdy \<inter> insert listen_fd (set (sel_fds ?s))"
    define s2 where "s2 = (if listen_fd \<in> ?ready then fold sel_add_client (e_accept le) ?s else ?s)"
    have "sel_inv s2" "sel_talk now s2"
      using fold_sel_add_client_inv [of ?s "e_accept le"] sel_talk_fold_add [of ?s now "e_accept le"] s turn(4,5)
      by (auto simp: s2_def)
    moreover have "sel_client_loop now (e_read le) ?ready (s_num s2) s2 = Inr s'"
      using turn(7) unfolding sel_turn_def Inr sum.case Let_def s2_def [symmetric] by (auto simp: cbind_Inr_conv)
    ultimately have "sel_talk now s'" using sel_talk_loop assms(2) by blast
    then show ?thesis using turn(2) by simp
  qed (use turn s in \<open>auto simp: sel_turn_def\<close>)
qed (use assms(4) in \<open>auto simp: sel_talk_def told_def as_table_def\<close>)

lemma sel_main_Started: "sel_main env argv = Inr (Started (listen_fd, s0)) \<Longrightarrow> s0 = sel_init"
  by (auto simp: sel_main_def split: started.splits)

lemma sel_talks:
  assumes "\<forall>t. tm_ok (now t)" "reachable (sel_step all_full now listen_fd) (True, sel_init) y"
  shows "sel_inv (snd y) \<and> sel_talk now (snd y)"
  using assms(2)
proof (induction rule: reachable.induct)
  case start
  have "sel_talk now sel_init"
    by (simp add: sel_talk_def told_def all_full_def sel_init_def pends_def as_table_def nl_split_none)
  then show ?case using sel_init_inv by simp
next
  case (step y z)
  then show ?case using sel_step_inv sel_talk_step assms(1) by blast
qed

text \<open>C14: From the start of \<^verbatim>\<open>main\<close> on, as long as the kernel takes each reply whole, every complete line
  received on a connection of the select server has been answered with exactly one reply: the
  replies are in the order of the lines, the clock is read anew for each, and nothing else is sent. The slot of an open connection holds its unfinished line. How the bytes were cut into
  segments and what the other connections do has no part in it.\<close>

theorem select_replies:
  assumes "sel_main env argv = Inr (Started (listen_fd, s0))" "\<forall>t. tm_ok (now t)"
    and "reachable (sel_step all_full now listen_fd) (True, s0) (go, s)"
  shows "(\<exists>ts. length ts = length (complete_lines (s_rcvd s x)) \<and> sorted_wrt (<) ts \<and>
      s_sent s x = concat (map (\<lambda>t. time_reply (now t)) ts)) \<and>
    (\<forall>c\<in>set (take (s_num s) (s_clients s)). pending c = unfinished (s_rcvd s (fd c)))"
proof -
  have tk: "sel_talk now s"
    using sel_talks [OF assms(2)] assms(3) unfolding sel_main_Started [OF assms(1)] by fastforce
  then have "\<forall>c\<in>set (take (s_num s) (s_clients s)). pending c = unfinished (s_rcvd s (fd c))"
    by (auto simp: sel_talk_def pends_def pend_ok_def in_set_conv_nth)
  moreover have "told now s x" using tk by (simp add: sel_talk_def)
  ultimately show ?thesis by (auto simp: told_def)
qed

definition demo_line :: bytes where
  "demo_line = ''time'' @ [NL] @ ''x''"

definition demo_time_slot :: Client where
  "demo_time_slot = client0\<lparr>fd := 7, port := 4000, ip := ''127.0.0.1''\<rparr>"

definition demo_time_open :: "Client list \<Rightarrow> sserver" where
  "demo_time_open T = sel_init\<lparr>s_clients := T, s_num := 1, s_socks := {7}, s_wrs := [W 100]\<rparr>"

definition demo_ask :: loop_env where
  "demo_ask = \<lparr>e_select = Inr {7}, e_accept = [], e_read = (\<lambda>_. R demo_line)\<rparr>"

lemma demo_time_serves:
  "case process_client_data demo_tm (fed demo_time_slot demo_line) (sel_received 7 demo_line (demo_time_open T)) of
     Inl _ \<Rightarrow> False | Inr (r, _, _) \<Rightarrow> r = 0"
  by code_simp

lemma demo_time_accepts:
  assumes "wok []" and s: "s = sel_add_client (7, ''127.0.0.1'', 4000) sel_init"
  shows "s_num s = 1" "s_clients s ! 0 = demo_time_slot" "sel_fds s = [7]" "s_running s" "s_socks s = {7}"
    "s\<lparr>s_wrs := [W 100]\<rparr> = demo_time_open (s_clients s)" "sel_step wok demo_tm 3 (True, sel_init) (True, s)"
proof -
  show f: "s_num s = 1" "s_clients s ! 0 = demo_time_slot" "sel_fds s = [7]" "s_running s" "s_socks s = {7}"
    "s\<lparr>s_wrs := [W 100]\<rparr> = demo_time_open (s_clients s)"
    by (simp_all add: s sel_add_client_def sel_init_def sel_fds_def MAX_CLIENTS_def take_Suc_conv_app_nth demo_time_slot_def
        client0_def demo_time_open_def fun_upd_idem)
  have "sel_turn demo_tm demo_turn 3 (sel_init\<lparr>s_wrs := []\<rparr>) =
      cbind (sel_client_loop demo_tm (e_read demo_turn) {3} (s_num s) s) (\<lambda>s2. Inr (True, s2))"
    by (simp add: sel_turn_def demo_turn_def s sel_init_def sel_fds_def Let_def)
  also have "\<dots> = Inr (True, s)" using f(1,2) by (simp add: sel_body_def demo_time_slot_def)
  finally show "sel_step wok demo_tm 3 (True, sel_init) (True, s)"
    by (intro sel_step.turn [where le = demo_turn]) (simp_all add: sel_init_def demo_turn_def assms(1))
qed

theorem select_table_invariant_witness:
  "\<exists>s. sel_main (demo_listen 8081) [''select-server''] = Inr (Started (3, sel_init)) \<and>
    reachable (sel_exec 3) (True, sel_init) (True, s) \<and> sel_fds s = [7] \<and>
    s_socks s = {7} \<and> fst (sel_finish 3 s) = [7, 3] \<and> s_socks (snd (sel_finish 3 s)) = {}"
proof -
  note s = demo_time_accepts [of "\<lambda>_. True", OF TrueI refl]
  have "reachable (sel_exec 3) (True, sel_init) (True, sel_add_client (7, ''127.0.0.1'', 4000) sel_init)"
    using demo_tm_ok s(7) by (blast intro: reachable.intros sel_exec_def [THEN iffD2])
  moreover have "sel_main (demo_listen 8081) [''select-server''] = Inr (Started (3, sel_init))"
    by (simp add: sel_main_def create_listen_socket_def demo_listen_def)
  ultimately show ?thesis using select_table_invariant s(3) by fastforce
qed

theorem select_replies_witness:
  "\<exists>s. reachable (sel_step all_full demo_tm 3) (True, sel_init) (True, s) \<and> s_rcvd s 7 = demo_line \<and>
     (\<exists>t. s_sent s 7 = time_reply (demo_tm t))"
proof -
  define s1 where "s1 = sel_add_client (7, ''127.0.0.1'', 4000) sel_init"
  have "all_full []" by (simp add: all_full_def)
  note s1 = demo_time_accepts [of all_full, OF this s1_def]
  let ?s = "s1\<lparr>s_wrs := [W 100]\<rparr>"
  obtain c' s' where p: "process_client_data demo_tm (fed demo_time_slot demo_line)
      (sel_received 7 demo_line (demo_time_open (s_clients s1))) = Inr (0, c', s')"
    using demo_time_serves [of "s_clients s1"] by (auto split: sum.splits prod.splits)
  have d: "take (REQ_BUF_SIZE - 1 - buf_len demo_time_slot) demo_line = demo_line" "demo_line \<noteq> []" "fd demo_time_slot = 7"
    by (simp_all add: demo_time_slot_def client0_def demo_line_def REQ_BUF_SIZE_def)
  have "sel_body demo_tm (\<lambda>_. R demo_line) {7} 0 ?s = Inr (sel_stored 0 (0, c', s'))"
    unfolding sel_body_def Let_def using s1(2,6) d p
    by (simp add: fed_def sel_received_def sel_stored_def Let_def demo_time_open_def)
  moreover have "sel_fds ?s = [7]" using s1(3) by (simp add: sel_fds_def)
  ultimately have "sel_turn demo_tm demo_ask 3 ?s = Inr (True, sel_stored 0 (0, c', s'))"
    using s1(1) by (simp add: sel_turn_def demo_ask_def Let_def)
  then have "sel_step all_full demo_tm 3 (True, s1) (True, sel_stored 0 (0, c', s'))"
    by (intro sel_step.turn [where le = demo_ask]) (use s1(4) in \<open>auto simp: all_full_def demo_ask_def\<close>)
  then have r: "reachable (sel_step all_full demo_tm 3) (True, sel_init) (True, sel_stored 0 (0, c', s'))"
    using s1(7) by (blast intro: reachable.intros)
  have "okin {Pending, SigPipe} (sel_kept (fed demo_time_slot demo_line) (sel_received 7 demo_line (demo_time_open (s_clients s1))))
      (process_client_data demo_tm (fed demo_time_slot demo_line) (sel_received 7 demo_line (demo_time_open (s_clients s1))))"
    by (rule process_client_data_ok)
      (simp_all add: demo_tm_ok sel_faults_def fed_def demo_time_slot_def client0_def demo_line_def REQ_BUF_SIZE_def)
  then have rcvd: "s_rcvd (sel_stored 0 (0, c', s')) 7 = demo_line"
    unfolding p by (simp add: sel_kept_def sel_stored_def demo_time_open_def sel_init_def)
  have m: "sel_main (demo_listen 8081) [''select-server''] = Inr (Started (3, sel_init))"
    by (simp add: sel_main_def create_listen_socket_def demo_listen_def)
  have "length (complete_lines demo_line) = 1" by code_simp
  with select_replies [OF m _ r, of 7] demo_tm_ok rcvd
  have "\<exists>t. s_sent (sel_stored 0 (0, c', s')) 7 = time_reply (demo_tm t)" by (auto simp: length_Suc_conv)
  with r rcvd show ?thesis by blast
qed

end
