(* ===== verification/Workers.thy ===== *)
theory Workers
  imports Transitions CArgs
begin

section \<open>Programs that start workers and join them\<close>

text \<open>
  The exercise programs have one shape of \<^verbatim>\<open>main\<close>: initialise the shared state, create the
  workers one after the other with \<^verbatim>\<open>Pthread_create\<close>, join them in the same order with
  \<^verbatim>\<open>Pthread_join\<close>, report, return. A worker moves only once it has been created. The
  components give the step function of the workers and when a worker has returned; this theory
  adds the main thread, as thread number \<open>n\<close>, and derives what the whole program does from what
  is shown of the workers alone.
\<close>

subsection \<open>The main thread\<close>

record 's pool =
  pool :: 's
  created :: nat
  joined :: nat
  ended :: bool

definition pool_init :: "'s \<Rightarrow> 's pool" where
  "pool_init s0 = \<lparr>pool = s0, created = 0, joined = 0, ended = False\<rparr>"

definition main_step :: "nat \<Rightarrow> (nat \<Rightarrow> 's \<Rightarrow> bool) \<Rightarrow> 's pool \<Rightarrow> 's pool option" where
  "main_step n wdone p =
     (if created p < n then Some (p\<lparr>created := created p + 1\<rparr>)
      else if joined p < n then
        (if wdone (joined p) (pool p) then Some (p\<lparr>joined := joined p + 1\<rparr>) else None)
      else if \<not> ended p then Some (p\<lparr>ended := True\<rparr>)
      else None)"

definition pool_step ::
  "nat \<Rightarrow> (nat \<Rightarrow> 's \<Rightarrow> 's option) \<Rightarrow> (nat \<Rightarrow> 's \<Rightarrow> bool) \<Rightarrow> nat \<Rightarrow> 's pool \<Rightarrow> 's pool option" where
  "pool_step n tstep wdone i p =
     (if i < n then
        (if i < created p then map_option (\<lambda>s. p\<lparr>pool := s\<rparr>) (tstep i (pool p)) else None)
      else main_step n wdone p)"

abbreviation program :: "nat \<Rightarrow> (nat \<Rightarrow> 's \<Rightarrow> 's option) \<Rightarrow> (nat \<Rightarrow> 's \<Rightarrow> bool) \<Rightarrow>
    's pool \<Rightarrow> 's pool \<Rightarrow> bool" where
  "program n tstep wdone \<equiv> par_step (Suc n) (pool_step n tstep wdone)"

lemma program_cases:
  assumes "program n tstep wdone p q"
  obtains (worker) i s where "i < n" "i < created p" "tstep i (pool p) = Some s" "q = p\<lparr>pool := s\<rparr>"
    | (main) "main_step n wdone p = Some q"
  using assms by (auto simp: par_step_def pool_step_def less_Suc_eq split: if_splits)

lemma program_worker:
  "i < n \<Longrightarrow> i < created p \<Longrightarrow> tstep i (pool p) = Some s \<Longrightarrow> program n tstep wdone p (p\<lparr>pool := s\<rparr>)"
  by (auto simp: par_step_def pool_step_def intro!: exI [of _ i])

lemma all_created: "k \<le> n \<Longrightarrow> reachable (program n tstep wdone) (pool_init s0) ((pool_init s0)\<lparr>created := k\<rparr>)"
proof (induction k)
  case 0
  have "(pool_init s0)\<lparr>created := 0\<rparr> = pool_init s0" by (simp add: pool_init_def)
  then show ?case by (simp add: reachable.start)
next
  case (Suc k)
  then have "program n tstep wdone ((pool_init s0)\<lparr>created := k\<rparr>) ((pool_init s0)\<lparr>created := Suc k\<rparr>)"
    by (auto simp: par_step_def pool_step_def main_step_def intro!: exI [of _ n])
  then show ?case using Suc by (auto intro: reachable.step)
qed

lemma run_sched_pool:
  "\<forall>i\<in>set sch. i < n \<Longrightarrow> created p = n \<Longrightarrow> run_sched tstep sch (pool p) = Some s \<Longrightarrow>
     run_sched (pool_step n tstep wdone) sch p = Some (p\<lparr>pool := s\<rparr>)"
  by (induction sch arbitrary: p) (auto simp: pool_step_def split: option.splits)

text \<open>
  After the join \<^verbatim>\<open>main\<close> alone uses the mutexes, which are 1 when free. To destroy one that is held
  is undefined; a destroyed one is -1.
\<close>

definition mutex_destroy :: "int \<Rightarrow> int cres" where
  "mutex_destroy m = (if m = 1 then Inr (- 1) else Inl BusyMutex)"

definition with_mutex :: "int \<Rightarrow> 'a cres \<Rightarrow> 'a cres" where
  "with_mutex m body = (if m = 1 then body else Inl Pending)"

lemma free_mutex [simp]: "mutex_destroy 1 = Inr (- 1)" "with_mutex 1 body = body"
  by (simp_all add: mutex_destroy_def with_mutex_def)

subsection \<open>Workers under an invariant\<close>

text \<open>
  What a component shows of its workers: an invariant, and that a worker that has returned stays
  returned.
\<close>

locale safe_workers =
  fixes n :: nat and tstep :: "nat \<Rightarrow> 's \<Rightarrow> 's option" and s0 :: 's
    and inv :: "'s \<Rightarrow> bool" and wdone :: "nat \<Rightarrow> 's \<Rightarrow> bool"
  assumes start: "inv s0"
    and keeps: "inv s \<Longrightarrow> i < n \<Longrightarrow> tstep i s = Some t \<Longrightarrow> inv t"
    and stays: "inv s \<Longrightarrow> i < n \<Longrightarrow> tstep i s = Some t \<Longrightarrow> wdone j s \<Longrightarrow> wdone j t"
begin

definition pool_inv :: "'s pool \<Rightarrow> bool" where
  "pool_inv p \<longleftrightarrow> inv (pool p) \<and> created p \<le> n \<and> joined p \<le> n \<and>
     (0 < joined p \<longrightarrow> created p = n) \<and> (\<forall>i<joined p. wdone i (pool p)) \<and>
     (ended p \<longrightarrow> joined p = n)"

lemma pool_inv_step:
  assumes "pool_inv p" "program n tstep wdone p q"
  shows "pool_inv q"
  using assms(2)
proof (cases rule: program_cases)
  case (worker i s)
  have "inv (pool p)" using assms(1) by (simp add: pool_inv_def)
  note this worker(1,3)
  note keeps [OF this] stays [OF this]
  with assms(1) worker(4) show ?thesis by (auto simp: pool_inv_def)
next
  case main
  with assms(1) show ?thesis by (auto simp: pool_inv_def main_step_def less_Suc_eq split: if_splits)
qed

lemma pool_inv_init: "pool_inv (pool_init s0)"
  by (simp add: pool_inv_def pool_init_def start)

end

sublocale safe_workers \<subseteq> prog: invariant_system "program n tstep wdone" "pool_init s0" pool_inv
  by unfold_locales (auto intro: pool_inv_init pool_inv_step)

context safe_workers
begin

lemma reachable_workers: "reachable (program n tstep wdone) (pool_init s0) p \<Longrightarrow> inv (pool p)"
  using prog.reachable_inv by (simp add: pool_inv_def)

lemma ended_workers:
  "reachable (program n tstep wdone) (pool_init s0) p \<Longrightarrow> ended p \<Longrightarrow>
     inv (pool p) \<and> (\<forall>i<n. wdone i (pool p))"
  using prog.reachable_inv by (simp add: pool_inv_def)

end

subsection \<open>Workers that are never all stuck\<close>

text \<open>Some worker can move as long as one has not returned: then the program has no deadlock.\<close>

locale moving_workers = safe_workers +
  assumes moves: "inv s \<Longrightarrow> i < n \<Longrightarrow> \<not> wdone i s \<Longrightarrow> \<exists>j<n. \<exists>t. tstep j s = Some t"
begin

lemma pool_progress:
  assumes "pool_inv p" "\<not> ended p"
  shows "\<exists>q. program n tstep wdone p q"
proof (cases "created p < n \<or> joined p = n \<or> wdone (joined p) (pool p)")
  case True
  then have "main_step n wdone p \<noteq> None"
    using assms by (auto simp: main_step_def pool_inv_def)
  then obtain q where "main_step n wdone p = Some q" by blast
  then have "pool_step n tstep wdone n p = Some q" by (simp add: pool_step_def)
  then show ?thesis by (auto simp: par_step_def)
next
  case False
  with assms have *: "created p = n" "joined p < n" "\<not> wdone (joined p) (pool p)" "inv (pool p)"
    by (auto simp: pool_inv_def)
  from moves [OF *(4,2,3)] obtain j t where "j < n" "tstep j (pool p) = Some t" by blast
  then have "pool_step n tstep wdone j p = Some (p\<lparr>pool := t\<rparr>)" using * by (simp add: pool_step_def)
  with \<open>j < n\<close> show ?thesis unfolding par_step_def by (metis less_SucI)
qed

end

sublocale moving_workers \<subseteq>
  live: deadlock_free_system "program n tstep wdone" "pool_init s0" pool_inv ended
  by unfold_locales (auto intro: pool_progress)

context moving_workers
begin

lemma never_stuck:
  assumes "reachable (program n tstep wdone) (pool_init s0) p" "\<not> ended p"
  shows "\<exists>q. program n tstep wdone p q"
  using live.no_deadlock assms by blast

end

subsection \<open>Workers that return\<close>

text \<open>A bound decreases with every step as well: then \<^verbatim>\<open>main\<close> returns under every scheduling.\<close>

locale returning_workers = moving_workers +
  fixes bound :: "'a \<Rightarrow> nat"
  assumes decreases: "inv s \<Longrightarrow> i < n \<Longrightarrow> tstep i s = Some t \<Longrightarrow> bound t < bound s"
begin

definition pool_bound :: "'a pool \<Rightarrow> nat" where
  "pool_bound p = bound (pool p) + (n - created p) + (n - joined p) + (if ended p then 0 else 1)"

lemma pool_bound_step:
  assumes "pool_inv p" "program n tstep wdone p q"
  shows "pool_bound q < pool_bound p"
  using assms(2)
proof (cases rule: program_cases)
  case (worker i s)
  with assms(1) have "bound s < bound (pool p)" by (intro decreases) (auto simp: pool_inv_def)
  with worker(4) show ?thesis by (simp add: pool_bound_def)
next
  case main
  with assms(1) show ?thesis
    by (auto simp: pool_inv_def pool_bound_def main_step_def split: if_splits)
qed

end

sublocale returning_workers \<subseteq>
  run: terminating_system "program n tstep wdone" "pool_init s0" pool_inv ended pool_bound
  by unfold_locales (auto intro: pool_bound_step)

context returning_workers
begin

lemma main_returns:
  assumes "reachable (program n tstep wdone) (pool_init s0) p"
  shows "(\<exists>q. reachable (program n tstep wdone) p q \<and> ended q) \<and>
    (\<not> ended p \<longrightarrow> (\<exists>q. program n tstep wdone p q)) \<and>
    \<not> (\<exists>f. f 0 = pool_init s0 \<and> (\<forall>k. program n tstep wdone (f k) (f (Suc k))))"
  using run.always_can_finish [OF assms] live.no_deadlock [OF assms] run.no_endless_run by blast

end

end
