(* ===== verification/Semaphore.thy ===== *)
theory Semaphore
  imports Workers
begin

section \<open>Semaphores as the exercise programs use them\<close>

text \<open>
  \<^verbatim>\<open>Sem_wait\<close> and \<^verbatim>\<open>Sem_post\<close> of \<^verbatim>\<open>common_threads.h\<close> on a value: a wait on a value that
  is not positive blocks its thread (\<open>None\<close>), a post never blocks. \<^verbatim>\<open>Zemaphore\<close> shows that
  the repository's own implementation refines these two steps. The lines the two-phase exercises
  print are the events below.
\<close>

definition Sem_wait :: "int \<Rightarrow> int option" where
  "Sem_wait v = (if 0 < v then Some (v - 1) else None)"

definition Sem_post :: "int \<Rightarrow> int" where
  "Sem_post v = v + 1"

lemma Sem_wait_Some [simp]: "Sem_wait v = Some v' \<longleftrightarrow> 0 < v \<and> v' = v - 1"
  by (auto simp: Sem_wait_def)

lemma Sem_wait_None [simp]: "Sem_wait v = None \<longleftrightarrow> v \<le> 0"
  by (auto simp: Sem_wait_def)

lemma Sem_wait_pos: "0 < v \<Longrightarrow> Sem_wait v = Some (v - 1)"
  by simp

subsection \<open>Two-phase output\<close>

text \<open>The lines of \<^verbatim>\<open>rendezvous.c\<close> and \<^verbatim>\<open>barrier.c\<close>, by the number of the child.\<close>

datatype line = BeforeL nat | AfterL nat

text \<open>Every child has printed its first line before any child prints its second one.\<close>

definition phase_order :: "nat \<Rightarrow> line list \<Rightarrow> bool" where
  "phase_order n out \<longleftrightarrow>
     (\<forall>xs i ys. out = xs @ AfterL i # ys \<longrightarrow> (\<forall>j<n. BeforeL j \<in> set xs))"

lemma phase_order_Nil [simp]: "phase_order n []"
  by (simp add: phase_order_def)

lemma phase_order_before [simp]: "phase_order n (out @ [BeforeL i]) \<longleftrightarrow> phase_order n out"
proof
  show "phase_order n (out @ [BeforeL i])" if "phase_order n out"
    unfolding phase_order_def
  proof (intro allI impI)
    fix xs k ys j
    assume *: "out @ [BeforeL i] = xs @ AfterL k # ys" "j < n"
    then obtain zs where "ys = zs @ [BeforeL i]" by (cases ys rule: rev_cases) auto
    with * that show "BeforeL j \<in> set xs" by (auto simp: phase_order_def)
  qed
  show "phase_order n out" if "phase_order n (out @ [BeforeL i])"
    using that unfolding phase_order_def by (metis append.assoc append_Cons)
qed

lemma phase_order_after [simp]:
  "phase_order n (out @ [AfterL i]) \<longleftrightarrow> phase_order n out \<and> (\<forall>j<n. BeforeL j \<in> set out)"
proof
  show "phase_order n (out @ [AfterL i])" if "phase_order n out \<and> (\<forall>j<n. BeforeL j \<in> set out)"
    unfolding phase_order_def
  proof (intro allI impI)
    fix xs k ys j
    assume *: "out @ [AfterL i] = xs @ AfterL k # ys" "j < n"
    show "BeforeL j \<in> set xs"
    proof (cases ys rule: rev_cases)
      case Nil
      with * that show ?thesis by auto
    next
      case (snoc zs z)
      with * that show ?thesis by (auto simp: phase_order_def)
    qed
  qed
  show "phase_order n out \<and> (\<forall>j<n. BeforeL j \<in> set out)" if "phase_order n (out @ [AfterL i])"
    using that unfolding phase_order_def by (metis append.assoc append_Cons)
qed

end
