(* ===== verification/ForkJoin.thy ===== *)
theory ForkJoin
  imports Semaphore
begin

section \<open>Fork/join and rendezvous\<close>

text \<open>
  \<^verbatim>\<open>fork-join.c\<close> and \<^verbatim>\<open>rendezvous.c\<close>: each thread is a program counter, each statement with an
  effect a step. \<^verbatim>\<open>sleep\<close> changes nothing. The output is the list of lines printed so far.
\<close>

subsection \<open>Fork and join with one semaphore\<close>

datatype fj_line = ParentBegin | ChildLine | ParentEnd

datatype fj_parent = P_begin | P_init | P_create | P_wait | P_end | P_ret
datatype fj_child = C_off | C_print | C_post | C_ret

record forkjoin =
  fj_s :: int
  fj_p :: fj_parent
  fj_c :: fj_child
  fj_out :: "fj_line list"

definition fj_init :: forkjoin where
  "fj_init = \<lparr>fj_s = 0, fj_p = P_begin, fj_c = C_off, fj_out = []\<rparr>"

definition fj_parent_step :: "forkjoin \<Rightarrow> forkjoin option" where
  "fj_parent_step s = (case fj_p s of
     P_begin \<Rightarrow> Some (s\<lparr>fj_p := P_init, fj_out := fj_out s @ [ParentBegin]\<rparr>)
   | P_init \<Rightarrow> Some (s\<lparr>fj_p := P_create, fj_s := 0\<rparr>)
   | P_create \<Rightarrow> Some (s\<lparr>fj_p := P_wait, fj_c := C_print\<rparr>)
   | P_wait \<Rightarrow> map_option (\<lambda>v. s\<lparr>fj_p := P_end, fj_s := v\<rparr>) (Sem_wait (fj_s s))
   | P_end \<Rightarrow> Some (s\<lparr>fj_p := P_ret, fj_out := fj_out s @ [ParentEnd]\<rparr>)
   | P_ret \<Rightarrow> None)"

text \<open>The child dies with the process when the parent returns from \<^verbatim>\<open>main\<close>.\<close>

definition fj_child_step :: "forkjoin \<Rightarrow> forkjoin option" where
  "fj_child_step s = (if fj_p s = P_ret then None else case fj_c s of
     C_off \<Rightarrow> None
   | C_print \<Rightarrow> Some (s\<lparr>fj_c := C_post, fj_out := fj_out s @ [ChildLine]\<rparr>)
   | C_post \<Rightarrow> Some (s\<lparr>fj_c := C_ret, fj_s := Sem_post (fj_s s)\<rparr>)
   | C_ret \<Rightarrow> None)"

definition fj_step :: "nat \<Rightarrow> forkjoin \<Rightarrow> forkjoin option" where
  "fj_step i s = (if i = 0 then fj_parent_step s else fj_child_step s)"

text \<open>The states by program points: the output and the semaphore are determined by them.\<close>

definition fj_inv :: "forkjoin \<Rightarrow> bool" where
  "fj_inv s \<longleftrightarrow>
     (fj_c s = C_off \<longleftrightarrow> fj_p s \<in> {P_begin, P_init, P_create}) \<and>
     (fj_p s \<in> {P_end, P_ret} \<longrightarrow> fj_c s = C_ret) \<and>
     fj_s s = (if fj_c s = C_ret \<and> fj_p s = P_wait then 1 else 0) \<and>
     fj_out s = (if fj_p s = P_begin then [] else [ParentBegin]) @
       (if fj_c s \<in> {C_post, C_ret} then [ChildLine] else []) @
       (if fj_p s = P_ret then [ParentEnd] else [])"

definition fj_rank :: "forkjoin \<Rightarrow> nat" where
  "fj_rank s =
     (case fj_p s of P_begin \<Rightarrow> 5 | P_init \<Rightarrow> 4 | P_create \<Rightarrow> 3 | P_wait \<Rightarrow> 2 | P_end \<Rightarrow> 1 | P_ret \<Rightarrow> 0) +
     (case fj_c s of C_off \<Rightarrow> 2 | C_print \<Rightarrow> 2 | C_post \<Rightarrow> 1 | C_ret \<Rightarrow> 0)"

lemma fj_step_ok:
  assumes "fj_inv s" "fj_step i s = Some t"
  shows "fj_inv t \<and> fj_rank t < fj_rank s"
  using assms
  by (auto simp: fj_step_def fj_parent_step_def fj_child_step_def fj_rank_def fj_inv_def Sem_post_def split: if_splits fj_parent.splits fj_child.splits)

lemma fj_progress:
  assumes "fj_inv s" "fj_p s \<noteq> P_ret"
  shows "\<exists>t. par_step 2 fj_step s t"
proof -
  have "fj_step 0 s \<noteq> None \<or> fj_step 1 s \<noteq> None"
    using assms by (cases "fj_p s"; cases "fj_c s") (auto simp: fj_step_def fj_parent_step_def fj_child_step_def fj_rank_def fj_inv_def)
  moreover have "0 < (2::nat)" "1 < (2::nat)" by simp_all
  ultimately show ?thesis unfolding par_step_def by blast
qed

interpretation fj: terminating_system "par_step 2 fj_step" fj_init fj_inv "\<lambda>s. fj_p s = P_ret" fj_rank
proof unfold_locales
  show "fj_inv fj_init" by (simp add: fj_init_def fj_inv_def)
qed (auto simp: par_step_def dest: fj_step_ok fj_progress [unfolded par_step_def])

subsection \<open>Rendezvous of two children\<close>

datatype rv_pc = R_before | R_post | R_wait | R_after | R_done

record rendezvous =
  rv_s1 :: int
  rv_s2 :: int
  rv_pc :: "nat \<Rightarrow> rv_pc"
  rv_out :: "line list"

definition rv_init :: rendezvous where
  "rv_init = \<lparr>rv_s1 = 0, rv_s2 = 0, rv_pc = (\<lambda>_. R_before), rv_out = []\<rparr>"

definition child_1 :: "rendezvous \<Rightarrow> rendezvous option" where
  "child_1 s = (case rv_pc s 0 of
     R_before \<Rightarrow> Some (s\<lparr>rv_pc := (rv_pc s)(0 := R_post), rv_out := rv_out s @ [BeforeL 0]\<rparr>)
   | R_post \<Rightarrow> Some (s\<lparr>rv_pc := (rv_pc s)(0 := R_wait), rv_s1 := Sem_post (rv_s1 s)\<rparr>)
   | R_wait \<Rightarrow> map_option (\<lambda>v. s\<lparr>rv_pc := (rv_pc s)(0 := R_after), rv_s2 := v\<rparr>) (Sem_wait (rv_s2 s))
   | R_after \<Rightarrow> Some (s\<lparr>rv_pc := (rv_pc s)(0 := R_done), rv_out := rv_out s @ [AfterL 0]\<rparr>)
   | R_done \<Rightarrow> None)"

definition child_2 :: "rendezvous \<Rightarrow> rendezvous option" where
  "child_2 s = (case rv_pc s 1 of
     R_before \<Rightarrow> Some (s\<lparr>rv_pc := (rv_pc s)(1 := R_post), rv_out := rv_out s @ [BeforeL 1]\<rparr>)
   | R_post \<Rightarrow> Some (s\<lparr>rv_pc := (rv_pc s)(1 := R_wait), rv_s2 := Sem_post (rv_s2 s)\<rparr>)
   | R_wait \<Rightarrow> map_option (\<lambda>v. s\<lparr>rv_pc := (rv_pc s)(1 := R_after), rv_s1 := v\<rparr>) (Sem_wait (rv_s1 s))
   | R_after \<Rightarrow> Some (s\<lparr>rv_pc := (rv_pc s)(1 := R_done), rv_out := rv_out s @ [AfterL 1]\<rparr>)
   | R_done \<Rightarrow> None)"

definition rv_step :: "nat \<Rightarrow> rendezvous \<Rightarrow> rendezvous option" where
  "rv_step i s = (if i = 0 then child_1 s else child_2 s)"

definition rv_done :: "nat \<Rightarrow> rendezvous \<Rightarrow> bool" where
  "rv_done i s \<longleftrightarrow> rv_pc s i = R_done"

fun posted :: "rv_pc \<Rightarrow> int" where
  "posted R_before = 0" | "posted R_post = 0" | "posted _ = 1"

fun waited :: "rv_pc \<Rightarrow> int" where
  "waited R_after = 1" | "waited R_done = 1" | "waited _ = 0"

definition rv_inv :: "rendezvous \<Rightarrow> bool" where
  "rv_inv s \<longleftrightarrow>
     rv_s1 s = posted (rv_pc s 0) - waited (rv_pc s 1) \<and> 0 \<le> rv_s1 s \<and>
     rv_s2 s = posted (rv_pc s 1) - waited (rv_pc s 0) \<and> 0 \<le> rv_s2 s \<and>
     (\<forall>i<2. BeforeL i \<in> set (rv_out s) \<longleftrightarrow> rv_pc s i \<noteq> R_before) \<and> phase_order 2 (rv_out s)"

fun rv_rank :: "rv_pc \<Rightarrow> nat" where
  "rv_rank R_before = 4" | "rv_rank R_post = 3" | "rv_rank R_wait = 2" | "rv_rank R_after = 1"
| "rv_rank R_done = 0"

lemma less_2: "i < 2 \<longleftrightarrow> i = 0 \<or> i = (1::nat)" by auto

lemma all_less_2: "(\<forall>i<2. P i) \<longleftrightarrow> P 0 \<and> P (1::nat)" by (auto simp: less_2)

lemma waited_le: "waited p \<le> posted p" by (cases p) auto

lemma child_1_inv: "rv_inv s \<Longrightarrow> child_1 s = Some t \<Longrightarrow> rv_inv t"
  using waited_le [of "rv_pc s 1"]
  by (cases "rv_pc s 0"; cases "rv_pc s 1") (auto simp: child_1_def rv_inv_def all_less_2 Sem_post_def)

lemma child_2_inv: "rv_inv s \<Longrightarrow> child_2 s = Some t \<Longrightarrow> rv_inv t"
  using waited_le [of "rv_pc s 0"]
  by (cases "rv_pc s 1"; cases "rv_pc s 0") (auto simp: child_2_def rv_inv_def all_less_2 Sem_post_def)

lemma rv_step_done:
  assumes "rv_step i s = Some t"
  shows "rv_done j s \<Longrightarrow> rv_done j t"
    and "rv_rank (rv_pc t 0) + rv_rank (rv_pc t 1) < rv_rank (rv_pc s 0) + rv_rank (rv_pc s 1)"
  using assms by (cases "j = 0"; auto simp: rv_step_def child_1_def child_2_def rv_done_def split: if_splits rv_pc.splits)+

lemma rv_progress:
  assumes "rv_inv s" "i < 2" "\<not> rv_done i s"
  shows "\<exists>j<2. \<exists>t. rv_step j s = Some t"
proof -
  have "rv_step 0 s \<noteq> None \<or> rv_step 1 s \<noteq> None"
    using assms
    by (cases "rv_pc s 0"; cases "rv_pc s 1") (auto simp: rv_step_def child_1_def child_2_def rv_inv_def rv_done_def less_2)
  then show ?thesis unfolding less_2 by (metis not_None_eq)
qed

interpretation rv: returning_workers 2 rv_step rv_init rv_inv rv_done
  "\<lambda>s. rv_rank (rv_pc s 0) + rv_rank (rv_pc s 1)"
proof unfold_locales
  show "rv_inv rv_init" by (simp add: rv_init_def rv_inv_def)
  show "rv_inv t" if "rv_inv s" "rv_step i s = Some t" for s t i
    using that child_1_inv [of s t] child_2_inv [of s t] by (simp add: rv_step_def split: if_splits)
qed (blast intro: rv_progress rv_step_done)+

subsection \<open>Properties\<close>

text \<open>C25: The parent of \<^verbatim>\<open>fork-join.c\<close> returns only after the child has printed, with exactly
  the three lines in order, and from every state an execution can reach it can still get there.\<close>

theorem fork_join_output:
  assumes "reachable (par_step 2 fj_step) fj_init s"
  shows "(fj_p s = P_ret \<longrightarrow> fj_out s = [ParentBegin, ChildLine, ParentEnd]) \<and>
    (\<exists>t. reachable (par_step 2 fj_step) s t \<and> fj_p t = P_ret)"
  using fj.reachable_inv [OF assms] fj.always_can_finish [OF assms] by (simp add: fj_inv_def)

theorem fork_join_output_witness:
  "\<exists>t. reachable (par_step 2 fj_step) fj_init t \<and> fj_p t = P_ret \<and>
     fj_out t = [ParentBegin, ChildLine, ParentEnd]"
proof -
  from fork_join_output [OF reachable.start] obtain t where
    t: "reachable (par_step 2 fj_step) fj_init t" "fj_p t = P_ret" by blast
  with fork_join_output [OF t(1)] show ?thesis by blast
qed

text \<open>C26: In \<^verbatim>\<open>rendezvous.c\<close> no child prints its second line before both have printed their first
  one, and no scheduling keeps the program from returning: there is no endless execution, and no
  state without a step before \<^verbatim>\<open>main\<close> has joined both children.\<close>

theorem rendezvous_correct:
  assumes "reachable (program 2 rv_step rv_done) (pool_init rv_init) p"
  shows "phase_order 2 (rv_out (pool p)) \<and>
    (\<not> ended p \<longrightarrow> (\<exists>q. program 2 rv_step rv_done p q)) \<and>
    \<not> (\<exists>f. f 0 = pool_init rv_init \<and> (\<forall>k. program 2 rv_step rv_done (f k) (f (Suc k))))"
  using rv.reachable_workers [OF assms] rv.live.no_deadlock [OF assms] rv.run.no_endless_run
  by (auto simp: rv_inv_def)

theorem rendezvous_correct_witness:
  "\<exists>q. program 2 rv_step rv_done (pool_init rv_init) q"
  using rendezvous_correct [OF reachable.start] by (simp add: pool_init_def)

end
