(* ===== verification/Barrier.thy ===== *)
theory Barrier
  imports Semaphore
begin

section \<open>The barrier\<close>

text \<open>
  \<^verbatim>\<open>barrier.c\<close>: \<open>n\<close> children, each printing a line, passing \<^verbatim>\<open>barrier\<close>, printing another. The
  increment of \<^verbatim>\<open>arrived\<close> is a load and a store, so that the mutex around it has something to
  protect. \<^verbatim>\<open>usleep\<close> changes nothing.
\<close>

subsection \<open>The program\<close>

datatype bpc = B_before | B_mutex | B_load | B_store int | B_test | B_unlock bool | B_post int
  | B_wait | B_after | B_done

record barrier_t =
  total :: int
  arrived :: int
  mutex :: int
  barrier :: int
  b_pc :: "nat \<Rightarrow> bpc"
  b_out :: "line list"

definition barrier_init :: "nat \<Rightarrow> barrier_t" where
  "barrier_init n = \<lparr>total = int n, arrived = 0, mutex = 1, barrier = 0, b_pc = (\<lambda>_. B_before), b_out = []\<rparr>"

definition goto :: "nat \<Rightarrow> bpc \<Rightarrow> barrier_t \<Rightarrow> barrier_t" where
  "goto i p b = b\<lparr>b_pc := (b_pc b)(i := p)\<rparr>"

text \<open>One statement of \<^verbatim>\<open>barrier\<close>; \<open>B_post k\<close> is the head of the loop with \<open>i = k\<close>.\<close>

definition barrier_step :: "nat \<Rightarrow> barrier_t \<Rightarrow> barrier_t option" where
  "barrier_step i b = (case b_pc b i of
     B_mutex \<Rightarrow> map_option (\<lambda>v. goto i B_load (b\<lparr>mutex := v\<rparr>)) (Sem_wait (mutex b))
   | B_load \<Rightarrow> Some (goto i (B_store (arrived b)) b)
   | B_store r \<Rightarrow> Some (goto i B_test (b\<lparr>arrived := r + 1\<rparr>))
   | B_test \<Rightarrow> Some (goto i (B_unlock (arrived b = total b)) b)
   | B_unlock is_last \<Rightarrow> Some (goto i (if is_last then B_post 0 else B_wait) (b\<lparr>mutex := Sem_post (mutex b)\<rparr>))
   | B_post k \<Rightarrow>
       if k < total b then Some (goto i (B_post (k + 1)) (b\<lparr>barrier := Sem_post (barrier b)\<rparr>))
       else Some (goto i B_wait b)
   | B_wait \<Rightarrow> map_option (\<lambda>v. goto i B_after (b\<lparr>barrier := v\<rparr>)) (Sem_wait (barrier b))
   | _ \<Rightarrow> None)"

text \<open>The thread function \<^verbatim>\<open>child\<close>.\<close>

definition barrier_child :: "nat \<Rightarrow> barrier_t \<Rightarrow> barrier_t option" where
  "barrier_child i b = (case b_pc b i of
     B_before \<Rightarrow> Some (goto i B_mutex (b\<lparr>b_out := b_out b @ [BeforeL i]\<rparr>))
   | B_after \<Rightarrow> Some (goto i B_done (b\<lparr>b_out := b_out b @ [AfterL i]\<rparr>))
   | B_done \<Rightarrow> None
   | _ \<Rightarrow> barrier_step i b)"

definition child_done :: "nat \<Rightarrow> barrier_t \<Rightarrow> bool" where
  "child_done i b \<longleftrightarrow> b_pc b i = B_done"

text \<open>\<^verbatim>\<open>main\<close>: its argument is asserted to be positive, then the children are created and joined.\<close>

definition barrier_main :: "string list \<Rightarrow> (nat \<times> barrier_t pool) cres" where
  "barrier_main argv =
     (case argv of
        [prog, a1] \<Rightarrow>
          cbind (atoi a1) (\<lambda>num_threads.
            if 0 < num_threads
            then Inr (nat num_threads, pool_init (barrier_init (nat num_threads)))
            else Inl AssertFailed)
      | _ \<Rightarrow> Inl AssertFailed)"

abbreviation barrier_program :: "nat \<Rightarrow> barrier_t pool \<Rightarrow> barrier_t pool \<Rightarrow> bool" where
  "barrier_program n \<equiv> program n barrier_child child_done"

lemma barrier_main_start: "barrier_main argv = Inr (n, p0) \<Longrightarrow> p0 = pool_init (barrier_init n)"
  by (auto simp: barrier_main_def cbind_Inr_conv split: list.splits if_splits)

subsection \<open>Counting\<close>

fun holds_mutex :: "bpc \<Rightarrow> int" where
  "holds_mutex B_load = 1" | "holds_mutex (B_store _) = 1" | "holds_mutex B_test = 1"
| "holds_mutex (B_unlock _) = 1" | "holds_mutex _ = 0"

fun counted :: "bpc \<Rightarrow> int" where
  "counted B_before = 0" | "counted B_mutex = 0" | "counted B_load = 0" | "counted (B_store _) = 0"
| "counted _ = 1"

fun testing :: "bpc \<Rightarrow> int" where
  "testing B_test = 1" | "testing _ = 0"

fun passed :: "bpc \<Rightarrow> int" where
  "passed B_after = 1" | "passed B_done = 1" | "passed _ = 0"

text \<open>The posts a thread still owes the others.\<close>

fun debt :: "int \<Rightarrow> bpc \<Rightarrow> int" where
  "debt m (B_unlock is_last) = (if is_last then m else 0)"
| "debt m (B_post k) = m - k"
| "debt m _ = 0"

lemma weights_nonneg: "0 \<le> holds_mutex p" "0 \<le> counted p" "0 \<le> testing p" "0 \<le> passed p"
    "counted p \<le> 1" "passed p \<le> 1" "testing p \<le> holds_mutex p" "passed p \<le> counted p"
  by (cases p; simp)+

text \<open>
  The invariant: one thread at a time is inside the mutex, \<^verbatim>\<open>arrived\<close> counts the threads behind
  the increment, and once all have arrived the posts made or still owed are \<open>n\<close> in all.
\<close>

definition barrier_counts :: "nat \<Rightarrow> barrier_t \<Rightarrow> bool" where
  "barrier_counts n b \<longleftrightarrow>
     total b = int n \<and> 0 \<le> mutex b \<and> 0 \<le> barrier b \<and>
     mutex b + tsum n holds_mutex (b_pc b) = 1 \<and>
     arrived b = tsum n counted (b_pc b) \<and>
     (arrived b = int n \<longrightarrow> barrier b + tsum n passed (b_pc b) + tsum n (debt (int n)) (b_pc b) +
        int n * tsum n testing (b_pc b) = int n) \<and>
     (arrived b \<noteq> int n \<longrightarrow> barrier b + tsum n passed (b_pc b) + tsum n (debt (int n)) (b_pc b) = 0)"

definition barrier_local :: "nat \<Rightarrow> barrier_t \<Rightarrow> bool" where
  "barrier_local n b \<longleftrightarrow>
     (\<forall>i<n. \<forall>r. b_pc b i = B_store r \<longrightarrow> r = arrived b) \<and>
     (\<forall>i<n. \<forall>k. b_pc b i = B_post k \<longrightarrow> 0 \<le> k \<and> k \<le> int n)"

definition barrier_lines :: "nat \<Rightarrow> barrier_t \<Rightarrow> bool" where
  "barrier_lines n b \<longleftrightarrow>
     (\<forall>i<n. BeforeL i \<in> set (b_out b) \<longleftrightarrow> b_pc b i \<noteq> B_before) \<and> phase_order n (b_out b)"

definition barrier_inv :: "nat \<Rightarrow> barrier_t \<Rightarrow> bool" where
  "barrier_inv n b \<longleftrightarrow> barrier_counts n b \<and> barrier_local n b \<and> barrier_lines n b"

lemma one_inside:
  assumes "barrier_inv n b" "i < n" "j < n" "holds_mutex (b_pc b i) = 1" "i \<noteq> j"
  shows "holds_mutex (b_pc b j) = 0" "testing (b_pc b j) = 0"
proof -
  have "tsum n holds_mutex (b_pc b) \<le> 1" using assms(1) by (simp add: barrier_inv_def barrier_counts_def)
  then have "\<not> 0 < holds_mutex (b_pc b j)"
    using tsum_unique [of n holds_mutex "b_pc b" i j] assms weights_nonneg(1) by auto
  then show "holds_mutex (b_pc b j) = 0" using weights_nonneg(1) [of "b_pc b j"] by simp
  then show "testing (b_pc b j) = 0" using weights_nonneg(3,7) [of "b_pc b j"] by simp
qed


lemma testing_sum:
  assumes "barrier_inv n b" "i < n" "holds_mutex (b_pc b i) = 1"
  shows "tsum n testing (b_pc b) = testing (b_pc b i)"
proof -
  have "tsum n testing ((b_pc b)(i := B_wait)) = 0"
    by (rule tsum_zero) (use one_inside(2) [OF assms(1,2) _ assms(3)] in auto)
  then show ?thesis by (simp add: tsum_upd [OF assms(2)])
qed

lemma arrived_le:
  assumes "barrier_inv n b" "i < n" "counted (b_pc b i) = 0"
  shows "arrived b + 1 \<le> int n"
proof -
  have "tsum n counted ((b_pc b)(i := B_wait)) \<le> tsum n (\<lambda>_. 1) (b_pc b)"
    by (rule tsum_mono) (use weights_nonneg(5) in auto)
  then show ?thesis using assms by (simp add: tsum_upd barrier_inv_def barrier_counts_def tsum_const)
qed

lemma debt_sum_nonneg: "barrier_inv n b \<Longrightarrow> 0 \<le> tsum n (debt (int n)) (b_pc b)"
proof (rule tsum_nonneg)
  show "0 \<le> debt (int n) (b_pc b i)" if "barrier_inv n b" "i < n" for i
    using that by (cases "b_pc b i") (auto simp: barrier_inv_def barrier_local_def)
qed

lemma passed_all:
  assumes "barrier_inv n b" "i < n" "passed (b_pc b i) = 1" "j < n"
  shows "b_pc b j \<noteq> B_before"
proof -
  have "1 \<le> tsum n passed (b_pc b)"
    using tsum_ge [of i n passed "b_pc b"] assms(2,3) weights_nonneg(4) by auto
  moreover have "0 \<le> int n * tsum n testing (b_pc b)"
    using tsum_nonneg [of n testing "b_pc b"] weights_nonneg(3) by auto
  ultimately have "arrived b = int n"
    using assms(1) debt_sum_nonneg [OF assms(1)] by (auto simp: barrier_inv_def barrier_counts_def split: if_splits)
  then have "counted (b_pc b j) = 1"
    using assms(1,4) weights_nonneg(5) by (intro tsum_full) (auto simp: barrier_inv_def barrier_counts_def)
  then show ?thesis by auto
qed

lemmas barrier_defs = barrier_child_def barrier_step_def goto_def Sem_post_def

lemma barrier_step_counts:
  assumes inv: "barrier_inv n b" and i: "i < n" and st: "barrier_child i b = Some b'"
  shows "barrier_counts n b'"
proof -
  have c: "barrier_counts n b" and l: "barrier_local n b" using inv by (simp_all add: barrier_inv_def)
  show ?thesis
  proof (cases "b_pc b i")
    case (B_store r)
    moreover have "tsum n testing (b_pc b) = 0 \<and> r = arrived b \<and> arrived b + 1 \<le> int n"
      using testing_sum [OF inv i] arrived_le [OF inv i] B_store l i by (simp add: barrier_local_def)
    ultimately show ?thesis using c i st unfolding barrier_counts_def
      by (clarsimp simp: barrier_defs tsum_simps)
  next
    case B_test
    moreover have "tsum n testing (b_pc b) = 1" using testing_sum [OF inv i] B_test by simp
    ultimately show ?thesis using c i st unfolding barrier_counts_def
      by (clarsimp simp: barrier_defs tsum_simps)
  next
    case (B_unlock is_last)
    then show ?thesis using c i st unfolding barrier_counts_def
      by (cases is_last; clarsimp simp: barrier_defs tsum_simps)
  next
    case (B_post k)
    moreover have "k \<le> int n" using B_post l i by (simp add: barrier_local_def)
    ultimately show ?thesis using c i st unfolding barrier_counts_def
      by (cases "k < int n"; clarsimp simp: barrier_defs tsum_simps add.assoc)
  qed (use c i st in \<open>clarsimp simp: barrier_counts_def barrier_defs tsum_simps\<close>)+
qed

lemma barrier_step_inv:
  assumes inv: "barrier_inv n b" and i: "i < n" and st: "barrier_child i b = Some b'"
  shows "barrier_inv n b'"
proof -
  have other: "b_pc b j \<noteq> B_store r'" if "b_pc b i = B_store r" "j < n" "j \<noteq> i" for j r r'
    using one_inside(1) [OF inv i that(2)] that by force
  have l: "barrier_local n b" and o: "barrier_lines n b" and t: "total b = int n"
    using inv by (simp_all add: barrier_inv_def barrier_counts_def)
  have "barrier_local n b'"
    using l i st t unfolding barrier_local_def
    by (cases "b_pc b i") (auto simp: barrier_defs dest: other split: if_splits)
  moreover have "barrier_lines n b'"
    using o i st passed_all [OF inv i] unfolding barrier_lines_def
    by (cases "b_pc b i") (auto simp: barrier_defs split: if_splits)
  ultimately show ?thesis using barrier_step_counts [OF assms] by (simp add: barrier_inv_def)
qed

subsection \<open>Progress\<close>

fun barrier_rank :: "nat \<Rightarrow> bpc \<Rightarrow> nat" where
  "barrier_rank n B_before = n + 9" | "barrier_rank n B_mutex = n + 8" | "barrier_rank n B_load = n + 7"
| "barrier_rank n (B_store r) = n + 6" | "barrier_rank n B_test = n + 5" | "barrier_rank n (B_unlock l) = n + 4"
| "barrier_rank n (B_post k) = nat (int n - k) + 3" | "barrier_rank n B_wait = 2" | "barrier_rank n B_after = 1"
| "barrier_rank n B_done = 0"

lemma barrier_step_rank:
  assumes "barrier_inv n b" "i < n" "barrier_child i b = Some b'"
  shows "tsum n (barrier_rank n) (b_pc b') < tsum n (barrier_rank n) (b_pc b)"
proof -
  have "total b = int n" using assms(1) by (simp add: barrier_inv_def barrier_counts_def)
  then have "\<exists>p. b_pc b' = (b_pc b)(i := p) \<and> barrier_rank n p < barrier_rank n (b_pc b i)"
    using assms(3) by (cases "b_pc b i") (auto simp: barrier_defs split: if_splits)
  then show ?thesis using tsum_decrease [OF assms(2)] by auto
qed

lemma barrier_progress:
  assumes inv: "barrier_inv n b" and i: "i < n" and nd: "\<not> child_done i b"
  shows "\<exists>j<n. \<exists>b'. barrier_child j b = Some b'"
proof (cases "\<exists>j<n. b_pc b j \<notin> {B_mutex, B_wait, B_done}")
  case True
  then obtain j where j: "j < n" "b_pc b j \<notin> {B_mutex, B_wait, B_done}" by blast
  then have "barrier_child j b \<noteq> None" by (cases "b_pc b j") (auto simp: barrier_defs)
  with j show ?thesis by blast
next
  case False
  note c = inv [unfolded barrier_inv_def barrier_counts_def]
  have "tsum n holds_mutex (b_pc b) = 0" by (rule tsum_zero) (use False in force)
  then have mutex: "mutex b = 1" using c by simp
  show ?thesis
  proof (cases "\<exists>j<n. b_pc b j = B_mutex")
    case True
    then obtain j where j: "j < n" "b_pc b j = B_mutex" by blast
    then have "barrier_child j b \<noteq> None" using mutex by (simp add: barrier_defs)
    with j show ?thesis by blast
  next
    case no: False
    have "tsum n counted (b_pc b) = int n * 1" by (rule tsum_const) (use False no in force)
    moreover have "tsum n testing (b_pc b) = 0" "tsum n (debt (int n)) (b_pc b) = 0"
      by (rule tsum_zero; use False in force)+
    ultimately have sum: "barrier b + tsum n passed (b_pc b) = int n" using c by simp
    have wait: "b_pc b i = B_wait" using False no nd i by (force simp: child_done_def)
    have "tsum n passed (b_pc b) < int n"
      using tsum_full [of n passed "b_pc b" i] weights_nonneg(6) i wait by force
    then have "barrier_child i b \<noteq> None" using wait sum by (simp add: barrier_defs)
    with i show ?thesis by blast
  qed
qed

interpretation bar: returning_workers n barrier_child "barrier_init n" "barrier_inv n" child_done
  "\<lambda>b. tsum n (barrier_rank n) (b_pc b)" for n
proof unfold_locales
  show "barrier_inv n (barrier_init n)"
    by (auto simp: barrier_inv_def barrier_counts_def barrier_local_def barrier_lines_def
        barrier_init_def tsum_def)
  show "child_done j t" if "barrier_child i s = Some t" "child_done j s" for s i t j
    using that by (cases "b_pc s i"; cases "i = j") (auto simp: barrier_defs child_done_def split: if_splits)
qed (blast intro: barrier_step_inv barrier_step_rank barrier_progress)+

subsection \<open>Properties\<close>

text \<open>C17: With any number of children and under every scheduling, no child of \<^verbatim>\<open>barrier.c\<close> prints
  its second line before every child has printed its first one.\<close>

theorem barrier_separates:
  assumes "reachable (program n barrier_child child_done) (pool_init (barrier_init n)) p"
  shows "phase_order n (b_out (pool p))"
  using bar.reachable_workers [OF assms] by (simp add: barrier_inv_def barrier_lines_def)

theorem barrier_separates_witness:
  "\<exists>p. reachable (program 2 barrier_child child_done) (pool_init (barrier_init 2)) p \<and>
     b_out (pool p) = [BeforeL 0, BeforeL 1, AfterL 0, AfterL 1] \<and> phase_order 2 (b_out (pool p))"
proof -
  let ?sched = "[2, 2] @ replicate 6 0 @ replicate 9 1 @ [0, 0, 1, 1]"
  have "map_option (\<lambda>p. b_out (pool p)) (run_sched (pool_step 2 barrier_child child_done) ?sched
      (pool_init (barrier_init 2))) = Some [BeforeL 0, BeforeL 1, AfterL 0, AfterL 1]"
    by code_simp
  then obtain p where p: "run_sched (pool_step 2 barrier_child child_done) ?sched
      (pool_init (barrier_init 2)) = Some p" "b_out (pool p) = [BeforeL 0, BeforeL 1, AfterL 0, AfterL 1]"
    by blast
  have "reachable (program 2 barrier_child child_done) (pool_init (barrier_init 2)) p"
    by (rule run_sched_reachable [OF p(1)]) auto
  with barrier_separates [OF this] p(2) show ?thesis by blast
qed

text \<open>C18: The barrier opens for every child: no execution is endless, and as long as \<^verbatim>\<open>main\<close> has not
  joined all the children some thread can move.\<close>

theorem barrier_opens:
  assumes "barrier_main argv = Inr (n, p0)" "reachable (barrier_program n) p0 p"
  shows "(\<exists>q. reachable (barrier_program n) p q \<and> ended q) \<and>
    (\<not> ended p \<longrightarrow> (\<exists>q. barrier_program n p q)) \<and>
    \<not> (\<exists>f. f 0 = p0 \<and> (\<forall>k. barrier_program n (f k) (f (Suc k))))"
proof -
  have p0: "p0 = pool_init (barrier_init n)" by (rule barrier_main_start [OF assms(1)])
  note r = assms(2) [unfolded p0]
  show ?thesis
    using bar.run.always_can_finish [OF r] bar.live.no_deadlock [OF r] bar.run.no_endless_run
    unfolding p0 by blast
qed

theorem barrier_opens_witness:
  "\<exists>p0 q. barrier_main [''barrier'', ''3''] = Inr (3, p0) \<and> reachable (barrier_program 3) p0 q \<and> ended q"
proof -
  have m: "barrier_main [''barrier'', ''3''] = Inr (3, pool_init (barrier_init 3))"
    by (simp add: barrier_main_def atoi_def isspace_def isdigit_def of_char_def chk_def int_ok_simps)
  from barrier_opens [OF m reachable.start] m show ?thesis by blast
qed

end
