(* ===== verification/RwLock.thy ===== *)
theory RwLock
  imports Semaphore
begin

section \<open>Readers and writers\<close>

text \<open>
  \<^verbatim>\<open>reader-writer.c\<close> and \<^verbatim>\<open>reader-writer-nostarve.c\<close>. The program points of both are one type:
  the second program has the points \<open>RB_...\<close> and \<open>WB_...\<close> for its extra semaphore
  \<^verbatim>\<open>blockNewReader\<close>, and its state extends the state of the first. Every point carries the loop
  counter of its thread; increments of shared integers are a load and a store. What the lock
  guarantees is derived from one invariant about the points the two programs share.
\<close>

subsection \<open>State\<close>

datatype rw_pc =
    RTop int | RB_wait int | RB_post int
  | RA_lock int | RA_load int | RA_store int int | RA_test int | RA_wlock int | RA_unlock int
  | RRead int
  | RR_lock int | RR_load int | RR_store int int | RR_test int | RR_wpost int | RR_unlock int
  | RDone
  | WTop int | WB_wait int | WA_lock int | W_load int | W_store int int | W_print int
  | WB_post int | WR_post int | WDone

record rwlock_t =
  writelock :: int
  readerLock :: int
  readers :: int
  rw_value :: int
  rw_pc :: "nat \<Rightarrow> rw_pc"

definition rw_goto :: "nat \<Rightarrow> rw_pc \<Rightarrow> 'a rwlock_t_scheme \<Rightarrow> 'a rwlock_t_scheme" where
  "rw_goto i p s = s\<lparr>rw_pc := (rw_pc s)(i := p)\<rparr>"

text \<open>Readers are the threads below \<open>nr\<close>, writers the others: the order \<^verbatim>\<open>main\<close> creates them in.\<close>

definition rwlock_init :: "nat \<Rightarrow> rwlock_t" where
  "rwlock_init nr = \<lparr>writelock = 1, readerLock = 1, readers = 0, rw_value = 0,
     rw_pc = (\<lambda>i. if i < nr then RTop 0 else WTop 0)\<rparr>"

subsection \<open>Operations of the lock\<close>

definition rwlock_acquire_readlock :: "nat \<Rightarrow> 'a rwlock_t_scheme \<Rightarrow> 'a rwlock_t_scheme option" where
  "rwlock_acquire_readlock i s = (case rw_pc s i of
     RA_lock k \<Rightarrow> map_option (\<lambda>v. rw_goto i (RA_load k) (s\<lparr>readerLock := v\<rparr>)) (Sem_wait (readerLock s))
   | RA_load k \<Rightarrow> Some (rw_goto i (RA_store k (readers s)) s)
   | RA_store k r \<Rightarrow> Some (rw_goto i (RA_test k) (s\<lparr>readers := r + 1\<rparr>))
   | RA_test k \<Rightarrow> Some (rw_goto i (if readers s = 1 then RA_wlock k else RA_unlock k) s)
   | RA_wlock k \<Rightarrow> map_option (\<lambda>v. rw_goto i (RA_unlock k) (s\<lparr>writelock := v\<rparr>)) (Sem_wait (writelock s))
   | RA_unlock k \<Rightarrow> Some (rw_goto i (RRead k) (s\<lparr>readerLock := Sem_post (readerLock s)\<rparr>))
   | _ \<Rightarrow> None)"

definition rwlock_release_readlock :: "nat \<Rightarrow> 'a rwlock_t_scheme \<Rightarrow> 'a rwlock_t_scheme option" where
  "rwlock_release_readlock i s = (case rw_pc s i of
     RR_lock k \<Rightarrow> map_option (\<lambda>v. rw_goto i (RR_load k) (s\<lparr>readerLock := v\<rparr>)) (Sem_wait (readerLock s))
   | RR_load k \<Rightarrow> Some (rw_goto i (RR_store k (readers s)) s)
   | RR_store k r \<Rightarrow> Some (rw_goto i (RR_test k) (s\<lparr>readers := r - 1\<rparr>))
   | RR_test k \<Rightarrow> Some (rw_goto i (if readers s = 0 then RR_wpost k else RR_unlock k) s)
   | RR_wpost k \<Rightarrow> Some (rw_goto i (RR_unlock k) (s\<lparr>writelock := Sem_post (writelock s)\<rparr>))
   | RR_unlock k \<Rightarrow> Some (rw_goto i (RTop (k + 1)) (s\<lparr>readerLock := Sem_post (readerLock s)\<rparr>))
   | _ \<Rightarrow> None)"

definition rwlock_acquire_writelock :: "nat \<Rightarrow> 'a rwlock_t_scheme \<Rightarrow> 'a rwlock_t_scheme option" where
  "rwlock_acquire_writelock i s = (case rw_pc s i of
     WA_lock k \<Rightarrow> map_option (\<lambda>v. rw_goto i (W_load k) (s\<lparr>writelock := v\<rparr>)) (Sem_wait (writelock s))
   | _ \<Rightarrow> None)"

definition rwlock_release_writelock :: "nat \<Rightarrow> 'a rwlock_t_scheme \<Rightarrow> 'a rwlock_t_scheme option" where
  "rwlock_release_writelock i s = (case rw_pc s i of
     WR_post k \<Rightarrow> Some (rw_goto i (WTop (k + 1)) (s\<lparr>writelock := Sem_post (writelock s)\<rparr>))
   | _ \<Rightarrow> None)"

subsection \<open>The threads\<close>

definition rw_reader :: "int \<Rightarrow> nat \<Rightarrow> 'a rwlock_t_scheme \<Rightarrow> 'a rwlock_t_scheme option" where
  "rw_reader loops i s = (case rw_pc s i of
     RTop k \<Rightarrow> Some (rw_goto i (if k < loops then RA_lock k else RDone) s)
   | RRead k \<Rightarrow> Some (rw_goto i (RR_lock k) s)
   | RR_lock k \<Rightarrow> rwlock_release_readlock i s
   | RR_load k \<Rightarrow> rwlock_release_readlock i s
   | RR_store k r \<Rightarrow> rwlock_release_readlock i s
   | RR_test k \<Rightarrow> rwlock_release_readlock i s
   | RR_wpost k \<Rightarrow> rwlock_release_readlock i s
   | RR_unlock k \<Rightarrow> rwlock_release_readlock i s
   | _ \<Rightarrow> rwlock_acquire_readlock i s)"

definition rw_writer :: "int \<Rightarrow> nat \<Rightarrow> 'a rwlock_t_scheme \<Rightarrow> 'a rwlock_t_scheme option" where
  "rw_writer loops i s = (case rw_pc s i of
     WTop k \<Rightarrow> Some (rw_goto i (if k < loops then WA_lock k else WDone) s)
   | W_load k \<Rightarrow> Some (rw_goto i (W_store k (rw_value s)) s)
   | W_store k v \<Rightarrow> Some (rw_goto i (W_print k) (s\<lparr>rw_value := v + 1\<rparr>))
   | W_print k \<Rightarrow> Some (rw_goto i (WR_post k) s)
   | WR_post k \<Rightarrow> rwlock_release_writelock i s
   | _ \<Rightarrow> rwlock_acquire_writelock i s)"

definition rw_step :: "nat \<Rightarrow> int \<Rightarrow> nat \<Rightarrow> 'a rwlock_t_scheme \<Rightarrow> 'a rwlock_t_scheme option" where
  "rw_step nr loops i s = (if i < nr then rw_reader loops i s else rw_writer loops i s)"

definition rw_done :: "nat \<Rightarrow> 'a rwlock_t_scheme \<Rightarrow> bool" where
  "rw_done i s \<longleftrightarrow> rw_pc s i = RDone \<or> rw_pc s i = WDone"

definition rw_args :: "string list \<Rightarrow> (nat \<times> nat \<times> int) cres" where
  "rw_args argv =
     (case argv of
        [prog, a1, a2, a3] \<Rightarrow>
          cbind (atoi a1) (\<lambda>num_readers. cbind (atoi a2) (\<lambda>num_writers. cbind (atoi a3) (\<lambda>loops.
          cbind (vla num_readers) (\<lambda>nr. cbind (vla num_writers) (\<lambda>nw. Inr (nr, nw, loops))))))
      | _ \<Rightarrow> Inl AssertFailed)"

definition rw_main :: "string list \<Rightarrow> (nat \<times> nat \<times> int \<times> rwlock_t pool) cres" where
  "rw_main argv = cbind (rw_args argv) (\<lambda>(nr, nw, loops). Inr (nr, nw, loops, pool_init (rwlock_init nr)))"

abbreviation rw_program :: "nat \<Rightarrow> nat \<Rightarrow> int \<Rightarrow> rwlock_t pool \<Rightarrow> rwlock_t pool \<Rightarrow> bool" where
  "rw_program nr nw loops \<equiv> program (nr + nw) (rw_step nr loops) rw_done"

subsection \<open>The program without starvation of writers\<close>

record rwlock_ns = rwlock_t +
  blockNewReader :: int

definition rwlock_ns_init :: "nat \<Rightarrow> rwlock_ns" where
  "rwlock_ns_init nr = \<lparr>writelock = 1, readerLock = 1, readers = 0, rw_value = 0,
     rw_pc = (\<lambda>i. if i < nr then RTop 0 else WTop 0), blockNewReader = 1\<rparr>"

definition ns_acquire_readlock :: "nat \<Rightarrow> rwlock_ns \<Rightarrow> rwlock_ns option" where
  "ns_acquire_readlock i s = (case rw_pc s i of
     RB_wait k \<Rightarrow>
       map_option (\<lambda>v. rw_goto i (RB_post k) (s\<lparr>blockNewReader := v\<rparr>)) (Sem_wait (blockNewReader s))
   | RB_post k \<Rightarrow> Some (rw_goto i (RA_lock k) (s\<lparr>blockNewReader := Sem_post (blockNewReader s)\<rparr>))
   | _ \<Rightarrow> rwlock_acquire_readlock i s)"

text \<open>The text of \<^verbatim>\<open>rwlock_release_readlock\<close> is the same in both programs.\<close>

abbreviation ns_release_readlock :: "nat \<Rightarrow> rwlock_ns \<Rightarrow> rwlock_ns option" where
  "ns_release_readlock \<equiv> rwlock_release_readlock"

definition ns_acquire_writelock :: "nat \<Rightarrow> rwlock_ns \<Rightarrow> rwlock_ns option" where
  "ns_acquire_writelock i s = (case rw_pc s i of
     WB_wait k \<Rightarrow>
       map_option (\<lambda>v. rw_goto i (WA_lock k) (s\<lparr>blockNewReader := v\<rparr>)) (Sem_wait (blockNewReader s))
   | _ \<Rightarrow> rwlock_acquire_writelock i s)"

definition ns_release_writelock :: "nat \<Rightarrow> rwlock_ns \<Rightarrow> rwlock_ns option" where
  "ns_release_writelock i s = (case rw_pc s i of
     WB_post k \<Rightarrow> Some (rw_goto i (WR_post k) (s\<lparr>blockNewReader := Sem_post (blockNewReader s)\<rparr>))
   | _ \<Rightarrow> rwlock_release_writelock i s)"

definition ns_reader :: "int \<Rightarrow> nat \<Rightarrow> rwlock_ns \<Rightarrow> rwlock_ns option" where
  "ns_reader loops i s = (case rw_pc s i of
     RTop k \<Rightarrow> Some (rw_goto i (if k < loops then RB_wait k else RDone) s)
   | RB_wait k \<Rightarrow> ns_acquire_readlock i s
   | RB_post k \<Rightarrow> ns_acquire_readlock i s
   | RRead k \<Rightarrow> Some (rw_goto i (RR_lock k) s)
   | RR_lock k \<Rightarrow> ns_release_readlock i s
   | RR_load k \<Rightarrow> ns_release_readlock i s
   | RR_store k r \<Rightarrow> ns_release_readlock i s
   | RR_test k \<Rightarrow> ns_release_readlock i s
   | RR_wpost k \<Rightarrow> ns_release_readlock i s
   | RR_unlock k \<Rightarrow> ns_release_readlock i s
   | _ \<Rightarrow> ns_acquire_readlock i s)"

definition ns_writer :: "int \<Rightarrow> nat \<Rightarrow> rwlock_ns \<Rightarrow> rwlock_ns option" where
  "ns_writer loops i s = (case rw_pc s i of
     WTop k \<Rightarrow> Some (rw_goto i (if k < loops then WB_wait k else WDone) s)
   | WB_wait k \<Rightarrow> ns_acquire_writelock i s
   | W_print k \<Rightarrow> Some (rw_goto i (WB_post k) s)
   | WB_post k \<Rightarrow> ns_release_writelock i s
   | _ \<Rightarrow> rw_writer loops i s)"

definition ns_step :: "nat \<Rightarrow> int \<Rightarrow> nat \<Rightarrow> rwlock_ns \<Rightarrow> rwlock_ns option" where
  "ns_step nr loops i s = (if i < nr then ns_reader loops i s else ns_writer loops i s)"

definition ns_rw_main :: "string list \<Rightarrow> (nat \<times> nat \<times> int \<times> rwlock_ns pool) cres" where
  "ns_rw_main argv = cbind (rw_args argv) (\<lambda>(nr, nw, loops). Inr (nr, nw, loops, pool_init (rwlock_ns_init nr)))"

abbreviation ns_rw_program :: "nat \<Rightarrow> nat \<Rightarrow> int \<Rightarrow> rwlock_ns pool \<Rightarrow> rwlock_ns pool \<Rightarrow> bool" where
  "ns_rw_program nr nw loops \<equiv> program (nr + nw) (ns_step nr loops) rw_done"

lemma rw_main_start: "rw_main argv = Inr (nr, nw, loops, p0) \<Longrightarrow> p0 = pool_init (rwlock_init nr)"
  by (auto simp: rw_main_def cbind_Inr_conv)

lemma ns_rw_main_start: "ns_rw_main argv = Inr (nr, nw, loops, p0) \<Longrightarrow> p0 = pool_init (rwlock_ns_init nr)"
  by (auto simp: ns_rw_main_def cbind_Inr_conv)

lemmas rw_defs = rw_step_def rw_reader_def rw_writer_def rwlock_acquire_readlock_def
  rwlock_release_readlock_def rwlock_acquire_writelock_def rwlock_release_writelock_def
  rw_goto_def Sem_post_def

lemmas ns_defs = ns_step_def ns_reader_def ns_writer_def ns_acquire_readlock_def
  ns_acquire_writelock_def ns_release_writelock_def rw_defs

subsection \<open>Counting\<close>

text \<open>Threads that hold \<^verbatim>\<open>readerLock\<close>, readers that are counted, writers that hold \<^verbatim>\<open>writelock\<close>.\<close>

fun in_rl :: "rw_pc \<Rightarrow> int" where
  "in_rl (RA_load _) = 1" | "in_rl (RA_store _ _) = 1" | "in_rl (RA_test _) = 1" | "in_rl (RA_wlock _) = 1"
| "in_rl (RA_unlock _) = 1" | "in_rl (RR_load _) = 1" | "in_rl (RR_store _ _) = 1" | "in_rl (RR_test _) = 1"
| "in_rl (RR_wpost _) = 1" | "in_rl (RR_unlock _) = 1" | "in_rl _ = 0"

fun is_counted :: "rw_pc \<Rightarrow> int" where
  "is_counted (RA_test _) = 1" | "is_counted (RA_wlock _) = 1" | "is_counted (RA_unlock _) = 1"
| "is_counted (RRead _) = 1" | "is_counted (RR_lock _) = 1" | "is_counted (RR_load _) = 1"
| "is_counted (RR_store _ _) = 1" | "is_counted _ = 0"

fun writing :: "rw_pc \<Rightarrow> int" where
  "writing (W_load _) = 1" | "writing (W_store _ _) = 1" | "writing (W_print _) = 1"
| "writing (WB_post _) = 1" | "writing (WR_post _) = 1" | "writing _ = 0"

text \<open>
  The readers hold \<^verbatim>\<open>writelock\<close> together whenever one of them is counted, except that the first
  one has yet to take it and the last one has yet to give it back.
\<close>

fun handover :: "int \<Rightarrow> rw_pc \<Rightarrow> int" where
  "handover r (RA_test _) = (if r = 1 then -1 else 0)" | "handover r (RA_wlock _) = -1"
| "handover r (RR_test _) = (if r = 0 then 1 else 0)" | "handover r (RR_wpost _) = 1"
| "handover r _ = 0"

definition held :: "int \<Rightarrow> int" where
  "held r = (if 0 < r then 1 else 0)"

text \<open>The increments of \<^verbatim>\<open>value\<close> a thread has made, and the steps it has left.\<close>

fun increments :: "int \<Rightarrow> rw_pc \<Rightarrow> int" where
  "increments L (WTop k) = k" | "increments L (WB_wait k) = k" | "increments L (WA_lock k) = k"
| "increments L (W_load k) = k" | "increments L (W_store k v) = k" | "increments L (W_print k) = k + 1"
| "increments L (WB_post k) = k + 1" | "increments L (WR_post k) = k + 1" | "increments L WDone = L"
| "increments L _ = 0"

fun reader_pc :: "rw_pc \<Rightarrow> bool" where
  "reader_pc (WTop _) = False" | "reader_pc (WB_wait _) = False" | "reader_pc (WA_lock _) = False"
| "reader_pc (W_load _) = False" | "reader_pc (W_store _ _) = False" | "reader_pc (W_print _) = False"
| "reader_pc (WB_post _) = False" | "reader_pc (WR_post _) = False" | "reader_pc WDone = False"
| "reader_pc _ = True"

definition rw_counts :: "nat \<Rightarrow> int \<Rightarrow> 'a rwlock_t_scheme \<Rightarrow> bool" where
  "rw_counts n loops s \<longleftrightarrow>
     0 \<le> writelock s \<and> 0 \<le> readerLock s \<and>
     readerLock s + tsum n in_rl (rw_pc s) = 1 \<and>
     readers s = tsum n is_counted (rw_pc s) \<and>
     writelock s + tsum n writing (rw_pc s) + held (readers s) +
       tsum n (handover (readers s)) (rw_pc s) = 1 \<and>
     rw_value s = tsum n (increments (max 0 loops)) (rw_pc s)"

text \<open>What a thread knows at each point: its registers are current, its counter is in range.\<close>

fun pc_ok :: "int \<Rightarrow> int \<Rightarrow> int \<Rightarrow> rw_pc \<Rightarrow> bool" where
  "pc_ok L r v (RTop k) = True" | "pc_ok L r v RDone = True" | "pc_ok L r v WDone = True"
| "pc_ok L r v (RA_store k r') = (r' = r \<and> k < L)" | "pc_ok L r v (RR_store k r') = (r' = r \<and> k < L)"
| "pc_ok L r v (RA_wlock k) = (r = 1 \<and> k < L)" | "pc_ok L r v (RR_wpost k) = (r = 0 \<and> k < L)"
| "pc_ok L r v (W_store k v') = (v' = v \<and> 0 \<le> k \<and> k < L)" | "pc_ok L r v (WTop k) = (0 \<le> k \<and> k \<le> max 0 L)"
| "pc_ok L r v (WB_wait k) = (0 \<le> k \<and> k < L)" | "pc_ok L r v (WA_lock k) = (0 \<le> k \<and> k < L)"
| "pc_ok L r v (W_load k) = (0 \<le> k \<and> k < L)" | "pc_ok L r v (W_print k) = (0 \<le> k \<and> k < L)"
| "pc_ok L r v (WB_post k) = (0 \<le> k \<and> k < L)" | "pc_ok L r v (WR_post k) = (0 \<le> k \<and> k < L)"
| "pc_ok L r v (RB_wait k) = (k < L)" | "pc_ok L r v (RB_post k) = (k < L)" | "pc_ok L r v (RA_lock k) = (k < L)"
| "pc_ok L r v (RA_load k) = (k < L)" | "pc_ok L r v (RA_test k) = (k < L)" | "pc_ok L r v (RA_unlock k) = (k < L)"
| "pc_ok L r v (RRead k) = (k < L)" | "pc_ok L r v (RR_lock k) = (k < L)" | "pc_ok L r v (RR_load k) = (k < L)"
| "pc_ok L r v (RR_test k) = (k < L)" | "pc_ok L r v (RR_unlock k) = (k < L)"

definition rw_local :: "nat \<Rightarrow> nat \<Rightarrow> int \<Rightarrow> 'a rwlock_t_scheme \<Rightarrow> bool" where
  "rw_local n nr loops s \<longleftrightarrow>
     (\<forall>i<n. (reader_pc (rw_pc s i) \<longleftrightarrow> i < nr) \<and> pc_ok loops (readers s) (rw_value s) (rw_pc s i))"

definition rw_inv :: "nat \<Rightarrow> nat \<Rightarrow> int \<Rightarrow> 'a rwlock_t_scheme \<Rightarrow> bool" where
  "rw_inv n nr loops s \<longleftrightarrow> rw_counts n loops s \<and> rw_local n nr loops s"


lemma rw_weights: "0 \<le> in_rl p" "0 \<le> is_counted p" "0 \<le> writing p" "in_rl p \<le> 1" "writing p \<le> 1"
    "in_rl p = 0 \<Longrightarrow> handover r p = 0"
  by (cases p; simp)+

text \<open>One thread at a time is between the operations on \<^verbatim>\<open>readerLock\<close>, and nobody else hands over.\<close>

lemma rl_alone:
  assumes "rw_counts n loops s" "i < n" "j < n" "in_rl (rw_pc s i) = 1" "i \<noteq> j"
  shows "in_rl (rw_pc s j) = 0"
proof -
  have "tsum n in_rl (rw_pc s) \<le> 1" using assms(1) by (simp add: rw_counts_def)
  then have "\<not> 0 < in_rl (rw_pc s j)"
    using tsum_unique [of n in_rl "rw_pc s" i j] assms rw_weights(1) by auto
  then show ?thesis using rw_weights(1) [of "rw_pc s j"] by simp
qed

lemma handover_alone:
  assumes "rw_counts n loops s" "i < n" "in_rl (rw_pc s i) = 1"
  shows "tsum n (handover r) (rw_pc s) = handover r (rw_pc s i)"
proof -
  have "tsum n (handover r) ((rw_pc s)(i := RDone)) = 0"
    by (rule tsum_zero) (use rl_alone [OF assms(1,2) _ assms(3)] rw_weights(6) in auto)
  then show ?thesis by (simp add: tsum_upd [OF assms(2)])
qed

lemma rw_counts_step:
  assumes inv: "rw_inv n nr loops s" and i: "i < n" and st: "rw_step nr loops i s = Some t"
  shows "rw_counts n loops t"
proof -
  have c: "rw_counts n loops s" and l: "rw_local n nr loops s" using inv by (simp_all add: rw_inv_def)
  note li = l [unfolded rw_local_def, rule_format, OF i]
  show ?thesis
  proof (cases "rw_pc s i")
    case (RA_store k r)
    note h = handover_alone [OF c i, of "readers s"] handover_alone [OF c i, of "readers s + 1"]
    have "0 \<le> readers s" using c tsum_nonneg [of n is_counted "rw_pc s"] rw_weights(2) by (simp add: rw_counts_def)
    then show ?thesis using c i st RA_store h li unfolding rw_counts_def
      by (cases "readers s = 0") (clarsimp simp: rw_defs tsum_simps held_def)+
  next
    case (RR_store k r)
    note h = handover_alone [OF c i, of "readers s"] handover_alone [OF c i, of "readers s - 1"]
    have "1 \<le> readers s"
      using c RR_store tsum_ge [of i n is_counted "rw_pc s"] i rw_weights(2) by (simp add: rw_counts_def)
    then show ?thesis using c i st RR_store h li unfolding rw_counts_def
      by (cases "readers s = 1") (clarsimp simp: rw_defs tsum_simps held_def)+
  next
    case (WTop k)
    moreover have "\<not> k < loops \<Longrightarrow> max 0 loops = k" using li WTop by auto
    ultimately show ?thesis using c i st unfolding rw_counts_def
      by (cases "k < loops") (clarsimp simp: rw_defs tsum_simps split: if_splits)+
  qed (use c i st li in \<open>clarsimp simp: rw_counts_def rw_defs tsum_simps split: if_splits\<close>)+
qed


text \<open>The readers as a group hold \<^verbatim>\<open>writelock\<close> once or not at all.\<close>

lemma group_cases:
  assumes "rw_inv n nr loops s"
  shows "0 \<le> held (readers s) + tsum n (handover (readers s)) (rw_pc s)"
proof (cases "\<exists>i<n. in_rl (rw_pc s i) = 1")
  case True
  then obtain i where i: "i < n" "in_rl (rw_pc s i) = 1" by blast
  have c: "rw_counts n loops s" and l: "rw_local n nr loops s" using assms by (simp_all add: rw_inv_def)
  from handover_alone [OF c i, of "readers s"] l [unfolded rw_local_def, rule_format, OF i(1)]
  show ?thesis by (cases "rw_pc s i") (auto simp: held_def)
next
  case False
  have "tsum n (handover (readers s)) (rw_pc s) = 0"
    by (rule tsum_zero, rule rw_weights(6)) (use False rw_weights(1,4) in \<open>smt (verit)\<close>)
  then show ?thesis by (simp add: held_def)
qed

lemma writer_alone:
  assumes "rw_inv n nr loops s" "i < n" "j < n" "writing (rw_pc s i) = 1" "writing (rw_pc s j) = 1"
  shows "i = j"
proof (rule tsum_unique [of n writing "rw_pc s"])
  show "tsum n writing (rw_pc s) \<le> 1"
    using group_cases [OF assms(1)] assms(1) unfolding rw_inv_def rw_counts_def by linarith
qed (use assms rw_weights(3) in auto)

lemma rw_local_step:
  assumes inv: "rw_inv n nr loops s" and i: "i < n" and st: "rw_step nr loops i s = Some t"
  shows "rw_local n nr loops t"
proof -
  have c: "rw_counts n loops s" and l: "rw_local n nr loops s" using inv by (simp_all add: rw_inv_def)
  have w: "j = i" if "j < n" "writing (rw_pc s j) = 1" "writing (rw_pc s i) = 1" for j
    using writer_alone [OF inv that(1) i] that by simp
  have r: "in_rl (rw_pc s j) = 0" if "j < n" "j \<noteq> i" "in_rl (rw_pc s i) = 1" for j
    using rl_alone [OF c i that(1,3)] that(2) by simp
  show ?thesis unfolding rw_local_def
  proof (intro allI impI)
    fix j assume j: "j < n"
    note li = l [unfolded rw_local_def, rule_format, OF i] and lj = l [unfolded rw_local_def, rule_format, OF j]
    show "(reader_pc (rw_pc t j) \<longleftrightarrow> j < nr) \<and> pc_ok loops (readers t) (rw_value t) (rw_pc t j)"
    proof (cases "j = i")
      case True
      with li st show ?thesis
        by (cases "rw_pc s i") (auto simp: rw_defs split: if_splits)
    next
      case False
      then have "rw_pc t j = rw_pc s j" "readers t = readers s \<or> in_rl (rw_pc s i) = 1"
        "rw_value t = rw_value s \<or> writing (rw_pc s i) = 1"
        using st by (cases "rw_pc s i"; auto simp: rw_defs split: if_splits)+
      with lj r [OF j False] w [OF j] False show ?thesis
        by (cases "rw_pc s j") auto
    qed
  qed
qed


lemma rw_step_inv:
  "rw_inv n nr loops s \<Longrightarrow> i < n \<Longrightarrow> rw_step nr loops i s = Some t \<Longrightarrow> rw_inv n nr loops t"
  using rw_counts_step rw_local_step unfolding rw_inv_def by blast

subsection \<open>The first program\<close>

text \<open>The points of the second program are not reached, so a thread is stuck at a semaphore only.\<close>

fun extra_pc :: "rw_pc \<Rightarrow> bool" where
  "extra_pc (RB_wait _) = True" | "extra_pc (RB_post _) = True" | "extra_pc (WB_wait _) = True"
| "extra_pc (WB_post _) = True" | "extra_pc _ = False"

definition rw1_inv :: "nat \<Rightarrow> nat \<Rightarrow> int \<Rightarrow> rwlock_t \<Rightarrow> bool" where
  "rw1_inv n nr loops s \<longleftrightarrow> rw_inv n nr loops s \<and> (\<forall>i<n. \<not> extra_pc (rw_pc s i))"

fun rw_rank :: "int \<Rightarrow> rw_pc \<Rightarrow> nat" where
  "rw_rank L (RTop k) = 30 * nat (L - k) + 29" | "rw_rank L (RB_wait k) = 30 * nat (L - k) + 28"
| "rw_rank L (RB_post k) = 30 * nat (L - k) + 27" | "rw_rank L (RA_lock k) = 30 * nat (L - k) + 26"
| "rw_rank L (RA_load k) = 30 * nat (L - k) + 25" | "rw_rank L (RA_store k _) = 30 * nat (L - k) + 24"
| "rw_rank L (RA_test k) = 30 * nat (L - k) + 23" | "rw_rank L (RA_wlock k) = 30 * nat (L - k) + 22"
| "rw_rank L (RA_unlock k) = 30 * nat (L - k) + 21" | "rw_rank L (RRead k) = 30 * nat (L - k) + 20"
| "rw_rank L (RR_lock k) = 30 * nat (L - k) + 19" | "rw_rank L (RR_load k) = 30 * nat (L - k) + 18"
| "rw_rank L (RR_store k _) = 30 * nat (L - k) + 17" | "rw_rank L (RR_test k) = 30 * nat (L - k) + 16"
| "rw_rank L (RR_wpost k) = 30 * nat (L - k) + 15" | "rw_rank L (RR_unlock k) = 30 * nat (L - k) + 14"
| "rw_rank L RDone = 0"
| "rw_rank L (WTop k) = 30 * nat (L - k) + 29" | "rw_rank L (WB_wait k) = 30 * nat (L - k) + 28"
| "rw_rank L (WA_lock k) = 30 * nat (L - k) + 27" | "rw_rank L (W_load k) = 30 * nat (L - k) + 26"
| "rw_rank L (W_store k _) = 30 * nat (L - k) + 25" | "rw_rank L (W_print k) = 30 * nat (L - k) + 24"
| "rw_rank L (WB_post k) = 30 * nat (L - k) + 23" | "rw_rank L (WR_post k) = 30 * nat (L - k) + 22"
| "rw_rank L WDone = 0"

lemma rank_next: "k < L \<Longrightarrow> 30 * nat (L - (k + 1)) + 29 < 30 * nat (L - k)"
  by simp

lemma rw_step_pc:
  assumes "rw_step nr loops i s = Some t" "pc_ok loops (readers s) (rw_value s) (rw_pc s i)"
  shows "\<exists>p. rw_pc t = (rw_pc s)(i := p) \<and> rw_rank loops p < rw_rank loops (rw_pc s i) \<and>
    \<not> rw_done i s \<and> (\<not> extra_pc (rw_pc s i) \<longrightarrow> \<not> extra_pc p)"
  using assms rank_next
  by (cases "rw_pc s i") (auto simp: rw_defs rw_done_def split: if_splits)

lemma rw_local_pc: "rw_inv n nr loops s \<Longrightarrow> i < n \<Longrightarrow> pc_ok loops (readers s) (rw_value s) (rw_pc s i)"
    "rw_inv n nr loops s \<Longrightarrow> i < n \<Longrightarrow> reader_pc (rw_pc s i) \<longleftrightarrow> i < nr"
  by (simp_all add: rw_inv_def rw_local_def)

lemma rw_step_rank:
  assumes "rw_inv n nr loops s" "i < n" "rw_step nr loops i s = Some t"
  shows "tsum n (rw_rank loops) (rw_pc t) < tsum n (rw_rank loops) (rw_pc s)"
  using rw_step_pc [OF assms(3) rw_local_pc(1) [OF assms(1,2)]] 
    tsum_decrease [OF assms(2), of "rw_rank loops" _ "rw_pc s"] by auto

text \<open>
  Who can move when a thread has not returned: whoever is inside \<^verbatim>\<open>readerLock\<close>, unless it waits
  for a writer, and then that writer.
\<close>

lemma writer_moves:
  "writing (rw_pc s i) = 1 \<Longrightarrow> \<not> extra_pc (rw_pc s i) \<Longrightarrow> \<not> i < nr \<Longrightarrow> rw_step nr loops i s \<noteq> None"
  by (cases "rw_pc s i") (auto simp: rw_defs)

lemma inside_moves:
  "in_rl (rw_pc s i) = 1 \<Longrightarrow> i < nr \<Longrightarrow> (\<And>k. rw_pc s i = RA_wlock k \<Longrightarrow> 0 < writelock s) \<Longrightarrow>
     rw_step nr loops i s \<noteq> None"
  by (cases "rw_pc s i") (auto simp: rw_defs)

lemma writing_reader: "writing p = 1 \<Longrightarrow> \<not> reader_pc p" "in_rl p = 1 \<Longrightarrow> reader_pc p"
    "is_counted p = 1 \<Longrightarrow> reader_pc p"
  by (cases p; simp)+


lemma core_progress:
  assumes inv: "rw_inv n nr loops s" and i: "i < n" "\<not> rw_done i s" "\<not> extra_pc (rw_pc s i)"
  shows "\<exists>j<n. writing (rw_pc s j) = 1 \<or> rw_step nr loops j s \<noteq> None"
proof (cases "\<exists>j<n. writing (rw_pc s j) = 1")
  case False
  then have "tsum n writing (rw_pc s) = 0"
    using rw_weights(3,5) by (intro tsum_zero) (smt (verit))
  then have wl: "writelock s + held (readers s) + tsum n (handover (readers s)) (rw_pc s) = 1"
    using inv unfolding rw_inv_def rw_counts_def by linarith
  have c: "rw_counts n loops s" using inv by (simp add: rw_inv_def)
  note role = rw_local_pc(2) [OF inv]
  show ?thesis
  proof (cases "\<exists>j<n. in_rl (rw_pc s j) = 1")
    case True
    then obtain j where j: "j < n" "in_rl (rw_pc s j) = 1" by blast
    have "0 < writelock s" if "rw_pc s j = RA_wlock k" for k
      using handover_alone [OF c j] rw_local_pc(1) [OF inv j(1)] wl that by (simp add: held_def)
    then have "rw_step nr loops j s \<noteq> None"
      using inside_moves [OF j(2)] role [OF j(1)] writing_reader(2) [OF j(2)] by blast
    with j show ?thesis by blast
  next
    case outside: False
    have o: "in_rl (rw_pc s j) = 0" if "j < n" for j
      using outside that rw_weights(1,4) [of "rw_pc s j"] by (smt (verit))
    have rl: "readerLock s = 1" using c tsum_zero [of n in_rl "rw_pc s"] o by (simp add: rw_counts_def)
    have h: "tsum n (handover (readers s)) (rw_pc s) = 0"
      by (rule tsum_zero, rule rw_weights(6)) (rule o)
    have reads: "rw_step nr loops j s \<noteq> None" if "j < n" "is_counted (rw_pc s j) = 1" for j
      using that o [OF that(1)] role [OF that(1)] rl by (cases "rw_pc s j") (auto simp: rw_defs)
    show ?thesis
    proof (cases "\<exists>k. rw_pc s i = WA_lock k \<and> 0 < readers s")
      case True
      then have "0 < tsum n is_counted (rw_pc s)" using c by (simp add: rw_counts_def)
      then obtain j where "j < n" "0 < is_counted (rw_pc s j)" using tsum_pos by blast
      moreover from this have "is_counted (rw_pc s j) = 1" by (cases "rw_pc s j") auto
      ultimately show ?thesis using reads by blast
    next
      case no: False
      have "rw_step nr loops i s \<noteq> None"
        using no i o [OF i(1)] role [OF i(1)] rl wl h False
        by (cases "rw_pc s i") (auto simp: rw_defs rw_done_def held_def)
      with i show ?thesis by blast
    qed
  qed
qed blast

lemma start_weights:
  "w (RTop 0) = 0 \<Longrightarrow> w (WTop 0) = 0 \<Longrightarrow> tsum n w (\<lambda>i. if i < nr then RTop 0 else WTop 0) = (0::int)"
  by (rule tsum_zero) simp

lemma rw_init_counts: "rw_inv n nr loops (rwlock_init nr)"
  by (simp add: rw_inv_def rw_counts_def rw_local_def rwlock_init_def held_def start_weights)

lemma rw_step_done:
  assumes "rw_inv n nr loops s" "i < n" "rw_step nr loops i s = Some t" "rw_done j s"
  shows "rw_done j t"
  using rw_step_pc [OF assms(3) rw_local_pc(1) [OF assms(1,2)]] assms(4)
  by (cases "j = i") (auto simp: rw_done_def)

interpretation rw1: returning_workers n "rw_step nr loops" "rwlock_init nr" "rw1_inv n nr loops" rw_done
  "\<lambda>s. tsum n (rw_rank loops) (rw_pc s)" for n nr loops
proof unfold_locales
  show "rw1_inv n nr loops (rwlock_init nr)"
    by (simp add: rw1_inv_def rw_init_counts) (simp add: rwlock_init_def)
  show "rw1_inv n nr loops t" if "rw1_inv n nr loops s" "i < n" "rw_step nr loops i s = Some t" for s t i
  proof -
    have inv: "rw_inv n nr loops s" using that(1) by (simp add: rw1_inv_def)
    from rw_step_pc [OF that(3) rw_local_pc(1) [OF inv that(2)]] that(1,2)
    have "\<forall>j<n. \<not> extra_pc (rw_pc t j)" by (auto simp: rw1_inv_def split: if_splits)
    with rw_step_inv [OF inv that(2,3)] show ?thesis by (simp add: rw1_inv_def)
  qed
  show "rw_done j t" if "rw1_inv n nr loops s" "i < n" "rw_step nr loops i s = Some t" "rw_done j s" for s t i j
    using that rw_step_done unfolding rw1_inv_def by blast
  show "\<exists>j<n. \<exists>t. rw_step nr loops j s = Some t" if inv: "rw1_inv n nr loops s" and i: "i < n" "\<not> rw_done i s" for s i
  proof -
    have "\<exists>j<n. writing (rw_pc s j) = 1 \<or> rw_step nr loops j s \<noteq> None"
      by (rule core_progress) (use inv i in \<open>auto simp: rw1_inv_def\<close>)
    then show ?thesis
      using writer_moves writing_reader(1) rw_local_pc(2) inv unfolding rw1_inv_def by (metis not_None_eq)
  qed
  show "tsum n (rw_rank loops) (rw_pc t) < tsum n (rw_rank loops) (rw_pc s)"
    if "rw1_inv n nr loops s" "i < n" "rw_step nr loops i s = Some t" for s t i
    using that rw_step_rank by (auto simp: rw1_inv_def)
qed


subsection \<open>The second program\<close>

fun blocks :: "rw_pc \<Rightarrow> int" where
  "blocks (RB_post _) = 1" | "blocks (WA_lock _) = 1" | "blocks (W_load _) = 1" | "blocks (W_store _ _) = 1"
| "blocks (W_print _) = 1" | "blocks (WB_post _) = 1" | "blocks _ = 0"

definition ns_inv :: "nat \<Rightarrow> nat \<Rightarrow> int \<Rightarrow> rwlock_ns \<Rightarrow> bool" where
  "ns_inv n nr loops s \<longleftrightarrow> rw_inv n nr loops s \<and>
     0 \<le> blockNewReader s \<and> blockNewReader s + tsum n blocks (rw_pc s) = 1"

text \<open>The steps only this program has change nothing the shared invariant talks about.\<close>

definition neutral :: "rw_pc \<Rightarrow> rw_pc \<Rightarrow> bool" where
  "neutral p q \<longleftrightarrow> in_rl p = in_rl q \<and> is_counted p = is_counted q \<and> writing p = writing q \<and>
     (\<forall>r. handover r p = handover r q) \<and> (\<forall>l. increments l p = increments l q) \<and>
     (reader_pc p \<longleftrightarrow> reader_pc q)"

lemma ns_step_cases:
  assumes "ns_step nr loops i s = Some t" "reader_pc (rw_pc s i) \<longleftrightarrow> i < nr"
    "pc_ok loops (readers s) (rw_value s) (rw_pc s i)"
  shows "rw_step nr loops i s = Some t \<or>
    (t = s\<lparr>rw_pc := (rw_pc s)(i := rw_pc t i), blockNewReader := blockNewReader t\<rparr> \<and>
      neutral (rw_pc t i) (rw_pc s i) \<and> pc_ok loops (readers s) (rw_value s) (rw_pc t i) \<and>
      rw_rank loops (rw_pc t i) < rw_rank loops (rw_pc s i) \<and> \<not> rw_done i s)"
  using assms
  by (cases "rw_pc s i") (auto simp: ns_defs neutral_def rw_done_def split: if_splits)

lemma ns_blocks:
  assumes "ns_step nr loops i s = Some t" "0 \<le> blockNewReader s"
  shows "blockNewReader t + blocks (rw_pc t i) = blockNewReader s + blocks (rw_pc s i) \<and>
    0 \<le> blockNewReader t \<and> (\<exists>p. rw_pc t = (rw_pc s)(i := p))"
  using assms by (cases "rw_pc s i") (auto simp: ns_defs split: if_splits)

lemma neutral_inv:
  assumes "rw_inv n nr loops s" "i < n" "neutral p (rw_pc s i)" "pc_ok loops (readers s) (rw_value s) p"
  shows "rw_inv n nr loops (s\<lparr>rw_pc := (rw_pc s)(i := p), blockNewReader := v\<rparr>)"
  using assms by (auto simp: rw_inv_def rw_counts_def rw_local_def neutral_def tsum_simps)

lemma ns_step_ok:
  assumes inv: "ns_inv n nr loops s" and i: "i < n" and st: "ns_step nr loops i s = Some t"
  shows "ns_inv n nr loops t" "tsum n (rw_rank loops) (rw_pc t) < tsum n (rw_rank loops) (rw_pc s)"
    "rw_done j s \<Longrightarrow> rw_done j t"
proof -
  have rw: "rw_inv n nr loops s" using inv by (simp add: ns_inv_def)
  note cases = ns_step_cases [OF st rw_local_pc(2,1) [OF rw i]]
  have pc: "rw_pc t = (rw_pc s)(i := rw_pc t i)" using ns_blocks [OF st] inv by (auto simp: ns_inv_def)
  have "rw_inv n nr loops t" using cases rw_step_inv [OF rw i] neutral_inv [OF rw i] by metis
  moreover have "0 \<le> blockNewReader t \<and> blockNewReader t + tsum n blocks (rw_pc t) = 1"
    using ns_blocks [OF st] inv i by (auto simp: ns_inv_def tsum_simps)
  ultimately show "ns_inv n nr loops t" by (simp add: ns_inv_def)
  show "tsum n (rw_rank loops) (rw_pc t) < tsum n (rw_rank loops) (rw_pc s)"
    using cases rw_step_rank [OF rw i] tsum_decrease [OF i, of "rw_rank loops" "rw_pc t i" "rw_pc s"] pc
    by (metis (no_types))
  have "rw_done j s \<Longrightarrow> j \<noteq> i \<Longrightarrow> rw_done j t" unfolding rw_done_def by (subst (1 2) pc) simp
  then show "rw_done j s \<Longrightarrow> rw_done j t" using cases rw_step_done [OF rw i] by blast
qed

text \<open>Outside the turnstile every thread moves as in the first program.\<close>

lemma ns_moves:
  "rw_step nr loops i s \<noteq> None \<Longrightarrow> reader_pc (rw_pc s i) \<longleftrightarrow> i < nr \<Longrightarrow> ns_step nr loops i s \<noteq> None"
  "writing (rw_pc s i) = 1 \<Longrightarrow> \<not> i < nr \<Longrightarrow> ns_step nr loops i s \<noteq> None"
  by (cases "rw_pc s i"; auto simp: ns_defs split: if_splits)+

lemma ns_progress:
  assumes inv: "ns_inv n nr loops s" and i: "i < n" "\<not> rw_done i s"
  shows "\<exists>j<n. \<exists>t. ns_step nr loops j s = Some t"
proof -
  have rw: "rw_inv n nr loops s" using inv by (simp add: ns_inv_def)
  note role = rw_local_pc(2) [OF rw]
  have core: ?thesis if "j < n" "\<not> rw_done j s" "\<not> extra_pc (rw_pc s j)" for j
  proof -
    from core_progress [OF rw that] obtain m where m: "m < n"
      "writing (rw_pc s m) = 1 \<or> rw_step nr loops m s \<noteq> None" by blast
    then have "ns_step nr loops m s \<noteq> None" using ns_moves role [OF m(1)] writing_reader(1) by blast
    with m show ?thesis by blast
  qed
  show ?thesis
  proof (cases "blockNewReader s = 0")
    case True
    then have "0 < tsum n blocks (rw_pc s)" using inv by (simp add: ns_inv_def)
    then obtain j where j: "j < n" "0 < blocks (rw_pc s j)" using tsum_pos by blast
    show ?thesis
    proof (cases "extra_pc (rw_pc s j)")
      case True
      then have "ns_step nr loops j s \<noteq> None"
        using j role [OF j(1)] by (cases "rw_pc s j") (auto simp: ns_defs)
      with j show ?thesis by blast
    next
      case False
      have "\<not> rw_done j s" using j by (auto simp: rw_done_def)
      with False j core show ?thesis by blast
    qed
  next
    case False
    then have pos: "0 < blockNewReader s" using inv by (simp add: ns_inv_def)
    show ?thesis
    proof (cases "extra_pc (rw_pc s i)")
      case True
      then have "ns_step nr loops i s \<noteq> None"
        using pos role [OF i(1)] by (cases "rw_pc s i") (auto simp: ns_defs)
      with i show ?thesis by blast
    next
      case False
      with i core show ?thesis by blast
    qed
  qed
qed

interpretation rw2: returning_workers n "ns_step nr loops" "rwlock_ns_init nr" "ns_inv n nr loops" rw_done
  "\<lambda>s. tsum n (rw_rank loops) (rw_pc s)" for n nr loops
proof unfold_locales
  show "ns_inv n nr loops (rwlock_ns_init nr)"
    by (simp add: ns_inv_def rw_inv_def rw_counts_def rw_local_def rwlock_ns_init_def held_def start_weights)
qed (blast intro: ns_step_ok ns_progress)+


subsection \<open>What the lock guarantees\<close>

fun reading :: "rw_pc \<Rightarrow> bool" where
  "reading (RRead _) = True" | "reading _ = False"

lemma rw_exclusive:
  assumes inv: "rw_inv n nr loops s" and i: "i < n" "writing (rw_pc s i) = 1" and j: "j < n" "j \<noteq> i"
  shows "writing (rw_pc s j) = 0 \<and> \<not> reading (rw_pc s j)"
proof
  show "writing (rw_pc s j) = 0"
    using writer_alone [OF inv i(1) j(1) i(2)] j(2) rw_weights(3,5) [of "rw_pc s j"] by force
  show "\<not> reading (rw_pc s j)"
  proof
    assume "reading (rw_pc s j)"
    then have cj: "is_counted (rw_pc s j) = 1" "in_rl (rw_pc s j) = 0" by (cases "rw_pc s j"; simp)+
    have c: "rw_counts n loops s" using inv by (simp add: rw_inv_def)
    have r: "1 \<le> readers s"
      using c cj tsum_ge [of j n is_counted "rw_pc s"] j rw_weights(2) by (simp add: rw_counts_def)
    have "1 \<le> tsum n writing (rw_pc s)" using tsum_ge [of i n writing "rw_pc s"] i rw_weights(3) by simp
    then have neg: "tsum n (handover (readers s)) (rw_pc s) \<le> -1"
      using c r unfolding rw_counts_def held_def by auto
    have "\<exists>k<n. in_rl (rw_pc s k) = 1"
    proof (rule ccontr)
      assume "\<not> ?thesis"
      then have "tsum n (handover (readers s)) (rw_pc s) = 0"
        using rw_weights(1,4) by (intro tsum_zero rw_weights(6)) (smt (verit))
      with neg show False by simp
    qed
    then obtain k where k: "k < n" "in_rl (rw_pc s k) = 1" by blast
    then have "handover (readers s) (rw_pc s k) \<le> -1" using handover_alone [OF c k] neg by simp
    then have "is_counted (rw_pc s k) = 1 \<and> readers s = 1"
      using rw_local_pc(1) [OF inv k(1)] by (cases "rw_pc s k") (auto split: if_splits)
    moreover have "k \<noteq> j" using cj k by auto
    ultimately show False
      using tsum_unique [of n is_counted "rw_pc s" k j] c k j cj rw_weights(2) by (simp add: rw_counts_def)
  qed
qed

lemma rw_final_value:
  assumes inv: "rw_inv n nr loops s" and fin: "\<forall>i<n. rw_done i s" and nr: "nr \<le> n"
  shows "rw_value s = int (n - nr) * max 0 loops"
proof -
  have "increments (max 0 loops) (rw_pc s i) = (if i < nr then 0 else max 0 loops)" if "i < n" for i
    using fin that rw_local_pc(2) [OF inv that] by (auto simp: rw_done_def)
  then have "rw_value s = (\<Sum>i<n. if i < nr then 0 else max 0 loops)"
    using inv by (simp add: rw_inv_def rw_counts_def tsum_def)
  also have "\<dots> = (\<Sum>i\<in>{nr..<n}. max 0 loops)"
    by (rule sum.mono_neutral_cong_right) auto
  finally show ?thesis by simp
qed

text \<open>The shared integers stay between 0 and what the arguments of the program allow.\<close>

lemma rw_range:
  assumes inv: "rw_inv n nr loops s" and nr: "nr \<le> n"
  shows "0 \<le> rw_value s" "rw_value s \<le> int (n - nr) * max 0 loops" "0 \<le> readers s" "readers s \<le> int nr"
proof -
  have inc: "0 \<le> increments (max 0 loops) (rw_pc s i) \<and>
      increments (max 0 loops) (rw_pc s i) \<le> (if i < nr then 0 else max 0 loops)" if "i < n" for i
    using rw_local_pc [OF inv that] by (cases "rw_pc s i") auto
  have cnt: "0 \<le> is_counted (rw_pc s i) \<and> is_counted (rw_pc s i) \<le> (if i < nr then 1 else 0)" if "i < n" for i
    using rw_local_pc [OF inv that] by (cases "rw_pc s i") auto
  have eq: "rw_value s = (\<Sum>i<n. increments (max 0 loops) (rw_pc s i))" "readers s = (\<Sum>i<n. is_counted (rw_pc s i))"
    using inv by (simp_all add: rw_inv_def rw_counts_def tsum_def)
  show "0 \<le> rw_value s" "0 \<le> readers s" unfolding eq by (rule sum_nonneg; use inc cnt in auto)+
  have "rw_value s \<le> (\<Sum>i<n. if i < nr then 0 else max 0 loops)" unfolding eq by (rule sum_mono) (use inc in auto)
  also have "\<dots> = (\<Sum>i\<in>{nr..<n}. max 0 loops)" by (rule sum.mono_neutral_cong_right) auto
  finally show "rw_value s \<le> int (n - nr) * max 0 loops" by simp
  have "readers s \<le> (\<Sum>i<n. if i < nr then 1 else 0)" unfolding eq by (rule sum_mono) (use cnt in auto)
  also have "\<dots> = (\<Sum>i<nr. 1)" by (rule sum.mono_neutral_cong_right) (use nr in auto)
  finally show "readers s \<le> int nr" by simp
qed

lemma rw_args_range: "rw_args argv = Inr (nr, nw, loops) \<Longrightarrow> int nr \<le> INT_MAX"
  by (auto simp: rw_args_def cbind_Inr_conv int_ok_def split: list.splits dest!: atoi_ok)

lemma rw_in_int:
  assumes "rw_inv (nr + nw) nr loops s" "rw_args argv = Inr (nr, nw, loops)"
  shows "int_ok (readers s) \<and> (int nw * max 0 loops \<le> INT_MAX \<longrightarrow> int_ok (rw_value s))"
  using rw_range [OF assms(1)] rw_args_range [OF assms(2)] by (auto simp: int_ok_simps)

text \<open>
  How long a writer of the second program waits behind \<^verbatim>\<open>blockNewReader\<close>: \<open>left\<close> bounds the steps
  another thread can still make before it is stopped at the turnstile.
\<close>

fun left :: "rw_pc \<Rightarrow> nat" where
  "left (RA_lock _) = 14" | "left (RA_load _) = 13" | "left (RA_store _ _) = 12" | "left (RA_test _) = 11"
| "left (RA_wlock _) = 10" | "left (RA_unlock _) = 9" | "left (RRead _) = 8" | "left (RR_lock _) = 7"
| "left (RR_load _) = 6" | "left (RR_store _ _) = 5" | "left (RR_test _) = 4" | "left (RR_wpost _) = 3"
| "left (RR_unlock _) = 2" | "left (RTop _) = 1" | "left (WR_post _) = 2" | "left (WTop _) = 1" | "left _ = 0"

lemma waiting_step:
  assumes inv: "ns_inv n nr loops s" and w: "w < n" "rw_pc s w = WA_lock k" "rw_pc t w = WA_lock k"
    and i: "i < n" "ns_step nr loops i s = Some t"
  shows "tsum n left (rw_pc t) < tsum n left (rw_pc s)"
proof -
  have ne: "i \<noteq> w"
    using i(2) w(2,3) by (auto simp: ns_defs split: if_splits)
  have b: "blockNewReader s = 0 \<and> blocks (rw_pc s i) = 0"
  proof -
    have 1: "1 \<le> tsum n blocks (rw_pc s)" "\<And>p. 0 \<le> blocks p"
    proof -
      show nonneg: "\<And>p. 0 \<le> blocks p" by (case_tac p) auto
      show "1 \<le> tsum n blocks (rw_pc s)" using tsum_ge [OF w(1), of blocks "rw_pc s"] nonneg w(2) by simp
    qed
    moreover have "\<not> 0 < blocks (rw_pc s i)"
      using tsum_unique [of n blocks "rw_pc s" i w] 1 inv w i ne by (auto simp: ns_inv_def)
    ultimately show ?thesis using inv 1(2) [of "rw_pc s i"] by (auto simp: ns_inv_def)
  qed
  have "\<exists>p. rw_pc t = (rw_pc s)(i := p) \<and> left p < left (rw_pc s i)"
    using i(2) b by (cases "rw_pc s i") (auto simp: ns_defs split: if_splits)
  then show ?thesis using tsum_decrease [OF i(1), of left _ "rw_pc s"] by auto
qed

lemma waiting_path:
  assumes "\<And>i. i < m \<Longrightarrow> par_step n (ns_step nr loops) (f i) (f (Suc i))" "ns_inv n nr loops (f 0)"
    and "w < n" "\<And>i. i \<le> m \<Longrightarrow> rw_pc (f i) w = WA_lock k"
  shows "ns_inv n nr loops (f m) \<and> tsum n left (rw_pc (f m)) + m \<le> tsum n left (rw_pc (f 0))"
  using assms
proof (induction m)
  case (Suc m)
  then have IH: "ns_inv n nr loops (f m)" "tsum n left (rw_pc (f m)) + m \<le> tsum n left (rw_pc (f 0))" by simp_all
  from Suc.prems(1) [of m] obtain i where i: "i < n" "ns_step nr loops i (f m) = Some (f (Suc m))"
    by (auto simp: par_step_def)
  have "tsum n left (rw_pc (f (Suc m))) < tsum n left (rw_pc (f m))"
    by (rule waiting_step [OF IH(1) \<open>w < n\<close> _ _ i]) (simp_all add: Suc.prems(4))
  with IH ns_step_ok(1) [OF IH(1) i] show ?case by simp
qed simp

subsection \<open>Properties\<close>

text \<open>C19: In every reachable state of \<^verbatim>\<open>reader-writer.c\<close>, with any number of readers and writers, a
  thread that holds the write lock is alone: no other thread writes and no thread reads.\<close>

theorem rwlock_exclusion:
  assumes "reachable (program n (rw_step nr loops) rw_done) (pool_init (rwlock_init nr)) p"
    and "i < n" "writing (rw_pc (pool p) i) = 1" "j < n" "j \<noteq> i"
  shows "writing (rw_pc (pool p) j) = 0 \<and> \<not> reading (rw_pc (pool p) j)"
  using rw_exclusive [OF _ assms(2-5)] rw1.reachable_workers [OF assms(1)]
  unfolding rw1_inv_def by blast

theorem rwlock_exclusion_witness:
  "\<exists>p. reachable (program 2 (rw_step 1 1) rw_done) (pool_init (rwlock_init 1)) p \<and>
     writing (rw_pc (pool p) 1) = 1 \<and> \<not> reading (rw_pc (pool p) 0)"
proof -
  let ?sched = "[2, 2, 1, 1]"
  have "map_option (\<lambda>p. writing (rw_pc (pool p) 1)) (run_sched (pool_step 2 (rw_step 1 1) rw_done) ?sched
      (pool_init (rwlock_init 1))) = Some 1" by code_simp
  then obtain p where p: "run_sched (pool_step 2 (rw_step 1 1) rw_done) ?sched
      (pool_init (rwlock_init 1)) = Some p" "writing (rw_pc (pool p) 1) = 1" by blast
  have "reachable (program 2 (rw_step 1 1) rw_done) (pool_init (rwlock_init 1)) p"
    by (rule run_sched_reachable [OF p(1)]) auto
  with rwlock_exclusion [OF this _ p(2), of 0] p(2) show ?thesis by auto
qed

text \<open>C20: \<^verbatim>\<open>reader-writer.c\<close> returns under every scheduling: there is no endless execution, and no state without
  a step before \<^verbatim>\<open>main\<close> has returned. The value it reports is the number of writers times the number of loops: the
  lock loses no increment. The number of readers is always an \<^verbatim>\<open>int\<close>, and so is the value in every state if
  that product is one; beyond \<^verbatim>\<open>INT_MAX\<close>, where the addition of the source overflows, the statement is about the mathematical
  value.\<close>

theorem rwlock_value:
  assumes "rw_main argv = Inr (nr, nw, loops, p0)" "reachable (rw_program nr nw loops) p0 p"
  shows "\<not> (\<exists>f. f 0 = p0 \<and> (\<forall>k. rw_program nr nw loops (f k) (f (Suc k)))) \<and>
    (\<not> ended p \<longrightarrow> (\<exists>q. rw_program nr nw loops p q)) \<and>
    (\<exists>q. reachable (rw_program nr nw loops) p q \<and> ended q) \<and>
    (ended p \<longrightarrow> rw_value (pool p) = int nw * max 0 loops) \<and>
    int_ok (readers (pool p)) \<and> (int nw * max 0 loops \<le> INT_MAX \<longrightarrow> int_ok (rw_value (pool p)))"
proof -
  note p0 = rw_main_start [OF assms(1)]
  note r = assms(2) [unfolded p0]
  have inv: "rw_inv (nr + nw) nr loops (pool p)" using rw1.reachable_workers [OF r] by (simp add: rw1_inv_def)
  have "rw_value (pool p) = int nw * max 0 loops" if "ended p"
    using rw1.ended_workers [OF r that] rw_final_value [OF inv] by auto
  moreover have "rw_args argv = Inr (nr, nw, loops)" using assms(1) by (auto simp: rw_main_def)
  ultimately show ?thesis using rw1.main_returns [OF r] rw_in_int [OF inv] unfolding p0 by blast
qed

lemma rw_args_example: "rw_args [''rw'', ''2'', ''3'', ''10''] = Inr (2, 3, 10)"
  by code_simp

theorem rwlock_value_witness:
  "\<exists>p0 q. rw_main [''rw'', ''2'', ''3'', ''10''] = Inr (2, 3, 10, p0) \<and>
     reachable (rw_program 2 3 10) p0 q \<and> ended q \<and> rw_value (pool q) = 30"
proof -
  have m: "rw_main [''rw'', ''2'', ''3'', ''10''] = Inr (2, 3, 10, pool_init (rwlock_init 2))"
    by (simp add: rw_main_def rw_args_example)
  from rwlock_value [OF m reachable.start] obtain q where
    q: "reachable (rw_program 2 3 10) (pool_init (rwlock_init 2)) q" "ended q" by blast
  with rwlock_value [OF m q(1)] m show ?thesis by auto
qed

text \<open>C21: \<^verbatim>\<open>reader-writer-nostarve.c\<close> keeps exclusion. It returns under every scheduling, without an endless
  execution or a state in which nothing can move, and with every increment counted. The number of readers is
  always an \<^verbatim>\<open>int\<close>, and so is the value if the number of writers times that of loops is one; beyond
  \<^verbatim>\<open>INT_MAX\<close>, where the addition of the source overflows, the statement is about the mathematical value.\<close>

theorem rwlock_ns_correct:
  assumes "ns_rw_main argv = Inr (nr, nw, loops, p0)" "reachable (ns_rw_program nr nw loops) p0 p"
  shows "(\<forall>i<nr + nw. \<forall>j<nr + nw. j \<noteq> i \<longrightarrow> writing (rw_pc (pool p) i) = 1 \<longrightarrow>
      writing (rw_pc (pool p) j) = 0 \<and> \<not> reading (rw_pc (pool p) j)) \<and>
    \<not> (\<exists>f. f 0 = p0 \<and> (\<forall>k. ns_rw_program nr nw loops (f k) (f (Suc k)))) \<and>
    (\<not> ended p \<longrightarrow> (\<exists>q. ns_rw_program nr nw loops p q)) \<and>
    (\<exists>q. reachable (ns_rw_program nr nw loops) p q \<and> ended q) \<and>
    (ended p \<longrightarrow> rw_value (pool p) = int nw * max 0 loops) \<and>
    int_ok (readers (pool p)) \<and> (int nw * max 0 loops \<le> INT_MAX \<longrightarrow> int_ok (rw_value (pool p)))"
proof -
  note p0 = ns_rw_main_start [OF assms(1)]
  note r = assms(2) [unfolded p0]
  have inv: "rw_inv (nr + nw) nr loops (pool p)" using rw2.reachable_workers [OF r] by (simp add: ns_inv_def)
  have "rw_value (pool p) = int nw * max 0 loops" if "ended p"
    using rw2.ended_workers [OF r that] rw_final_value [OF inv] by auto
  moreover have "rw_args argv = Inr (nr, nw, loops)" using assms(1) by (auto simp: ns_rw_main_def)
  ultimately show ?thesis
    using rw_exclusive [OF inv] rw2.main_returns [OF r] rw_in_int [OF inv] unfolding p0 by blast
qed

theorem rwlock_ns_correct_witness:
  "\<exists>p0 q. ns_rw_main [''rw'', ''2'', ''3'', ''10''] = Inr (2, 3, 10, p0) \<and>
     reachable (ns_rw_program 2 3 10) p0 q \<and> ended q \<and> rw_value (pool q) = 30"
proof -
  have m: "ns_rw_main [''rw'', ''2'', ''3'', ''10''] = Inr (2, 3, 10, pool_init (rwlock_ns_init 2))"
    by (simp add: ns_rw_main_def rw_args_example)
  from rwlock_ns_correct [OF m reachable.start] obtain q where
    q: "reachable (ns_rw_program 2 3 10) (pool_init (rwlock_ns_init 2)) q" "ended q" by blast
  with rwlock_ns_correct [OF m q(1)] m show ?thesis by auto
qed

text \<open>C22: A writer of \<^verbatim>\<open>reader-writer-nostarve.c\<close> that has passed \<^verbatim>\<open>blockNewReader\<close> does not starve:
  while it waits for the readers inside, the \<open>n\<close> threads together make at most \<open>14 * n\<close> steps,
  whatever the number of loops, because no new reader gets in.\<close>

theorem writer_waits_bounded:
  assumes "reachable (par_step n (ns_step nr loops)) (rwlock_ns_init nr) (f 0)"
    and "\<forall>i<m. par_step n (ns_step nr loops) (f i) (f (Suc i))"
    and "w < n" "\<forall>i\<le>m. rw_pc (f i) w = WA_lock k"
  shows "m \<le> 14 * n"
proof -
  have "ns_inv n nr loops (f 0)"
    using assms(1) by (induction rule: reachable.induct) (auto simp: par_step_def intro: rw2.start rw2.keeps)
  moreover have "left x \<le> 14" for x by (cases x) auto
  ultimately show ?thesis
    using waiting_path [of m n nr loops f w k] assms tsum_bounded [of left 14 n "rw_pc (f 0)"] by auto
qed

theorem writer_waits_bounded_witness:
  "\<exists>f. par_step 2 (ns_step 1 1) (f 0) (f (Suc 0)) \<and> rw_pc (f 0) 1 = WA_lock 0 \<and>
     rw_pc (f (Suc 0)) 1 = WA_lock 0 \<and> Suc 0 \<le> 14 * 2"
proof -
  define res where "res = run_sched (ns_step 1 1) [1, 1] (rwlock_ns_init 1)"
  have "case res of None \<Rightarrow> False | Some s \<Rightarrow> rw_pc s 1 = WA_lock 0 \<and>
      (case ns_step 1 1 0 s of None \<Rightarrow> False | Some t \<Rightarrow> rw_pc t 1 = WA_lock 0)"
    unfolding res_def by code_simp
  then obtain s t where st: "run_sched (ns_step 1 1) [1, 1] (rwlock_ns_init 1) = Some s"
    "rw_pc s 1 = WA_lock 0" "ns_step 1 1 0 s = Some t" "rw_pc t 1 = WA_lock 0"
    unfolding res_def by (auto split: option.splits)
  define f where "f i = (if i = 0 then s else t)" for i :: nat
  have "reachable (par_step 2 (ns_step 1 1)) (rwlock_ns_init 1) (f 0)"
    unfolding f_def using run_sched_reachable [OF st(1), of 2] by auto
  moreover have step: "par_step 2 (ns_step 1 1) (f 0) (f (Suc 0))"
    using st(3) by (auto simp: f_def par_step_def intro: exI [of _ 0])
  ultimately have "Suc 0 \<le> 14 * 2"
    by (rule_tac writer_waits_bounded [of 2 1 1 f "Suc 0" 1 0]) (use st in \<open>auto simp: f_def\<close>)
  with step st show ?thesis by (intro exI [of _ f]) (simp add: f_def)
qed

end
