(* ===== verification/NsMutex.thy ===== *)
theory NsMutex
  imports Semaphore
begin

section \<open>The mutex with a queue of waiters\<close>

text \<open>
  \<^verbatim>\<open>mutex-nostarve.c\<close>: a mutex with an explicit queue of nodes, each with a semaphore of its own.
  The nodes live on a heap; \<^verbatim>\<open>malloc\<close> is a parameter \<open>al\<close> that picks an address, given the blocks in
  use, and may be another one in every step of an execution (\<open>ns_run\<close>); an access to a block that is not allocated ends the run (\<open>crashed\<close>), as C leaves it
  undefined. The lock does exclude, but \<^verbatim>\<open>ns_mutex_release\<close> never resets \<^verbatim>\<open>tail\<close>: once the queue
  has been emptied, later waiters are linked behind a node that is gone and are never woken.
\<close>

subsection \<open>The program\<close>

record node_t =
  nsem :: int
  nxt :: nat

datatype ns_pc =
    A_malloc | A_guard nat | A_test nat | A_take nat | A_taken nat | A_free nat
  | A_enq nat | A_link nat | A_head nat | A_tail nat | A_post nat | A_sleep nat | A_wake nat
  | CS | R_guard | R_test | R_unlock | R_next | R_wake nat | R_post | N_done

record ns_mutex_t =
  locked :: int
  head :: nat
  tail :: nat
  guard :: int
  nodes :: "nat \<Rightarrow> node_t option"
  crashed :: bool
  ns_pc :: "nat \<Rightarrow> ns_pc"

definition ns_mutex_init :: ns_mutex_t where
  "ns_mutex_init = \<lparr>locked = 0, head = 0, tail = 0, guard = 1, nodes = Map.empty, crashed = False,
     ns_pc = (\<lambda>_. A_malloc)\<rparr>"

definition ns_goto :: "nat \<Rightarrow> ns_pc \<Rightarrow> ns_mutex_t \<Rightarrow> ns_mutex_t" where
  "ns_goto i p m = m\<lparr>ns_pc := (ns_pc m)(i := p)\<rparr>"

text \<open>An access to the node at an address; without a node there the run ends.\<close>

definition with_node :: "nat \<Rightarrow> ns_mutex_t \<Rightarrow> (node_t \<Rightarrow> ns_mutex_t option) \<Rightarrow> ns_mutex_t option" where
  "with_node a m f = (case nodes m a of None \<Rightarrow> Some (m\<lparr>crashed := True\<rparr>) | Some x \<Rightarrow> f x)"

definition ns_mutex_acquire ::
  "((nat \<Rightarrow> node_t option) \<Rightarrow> nat) \<Rightarrow> nat \<Rightarrow> ns_mutex_t \<Rightarrow> ns_mutex_t option" where
  "ns_mutex_acquire al i m = (case ns_pc m i of
     A_malloc \<Rightarrow>
       (let a = al (nodes m)
        in if a = 0 then Some (m\<lparr>crashed := True\<rparr>)
           else Some (ns_goto i (A_guard a) (m\<lparr>nodes := (nodes m)(a \<mapsto> \<lparr>nsem = 0, nxt = 0\<rparr>)\<rparr>)))
   | A_guard a \<Rightarrow> map_option (\<lambda>v. ns_goto i (A_test a) (m\<lparr>guard := v\<rparr>)) (Sem_wait (guard m))
   | A_test a \<Rightarrow> Some (ns_goto i (if locked m = 0 then A_take a else A_enq a) m)
   | A_take a \<Rightarrow> Some (ns_goto i (A_taken a) (m\<lparr>locked := 1\<rparr>))
   | A_taken a \<Rightarrow> Some (ns_goto i (A_free a) (m\<lparr>guard := Sem_post (guard m)\<rparr>))
   | A_free a \<Rightarrow> with_node a m (\<lambda>_. Some (ns_goto i CS (m\<lparr>nodes := (nodes m)(a := None)\<rparr>)))
   | A_enq a \<Rightarrow> Some (ns_goto i (if tail m \<noteq> 0 then A_link a else A_head a) m)
   | A_link a \<Rightarrow>
       with_node (tail m) m (\<lambda>x. Some (ns_goto i (A_tail a) (m\<lparr>nodes := (nodes m)(tail m \<mapsto> x\<lparr>nxt := a\<rparr>)\<rparr>)))
   | A_head a \<Rightarrow> Some (ns_goto i (A_tail a) (m\<lparr>head := a\<rparr>))
   | A_tail a \<Rightarrow> Some (ns_goto i (A_post a) (m\<lparr>tail := a\<rparr>))
   | A_post a \<Rightarrow> Some (ns_goto i (A_sleep a) (m\<lparr>guard := Sem_post (guard m)\<rparr>))
   | A_sleep a \<Rightarrow>
       with_node a m (\<lambda>x. map_option (\<lambda>v. ns_goto i (A_wake a) (m\<lparr>nodes := (nodes m)(a \<mapsto> x\<lparr>nsem := v\<rparr>)\<rparr>))
         (Sem_wait (nsem x)))
   | A_wake a \<Rightarrow> with_node a m (\<lambda>_. Some (ns_goto i CS (m\<lparr>nodes := (nodes m)(a := None)\<rparr>)))
   | _ \<Rightarrow> None)"

definition ns_mutex_release :: "nat \<Rightarrow> ns_mutex_t \<Rightarrow> ns_mutex_t option" where
  "ns_mutex_release i m = (case ns_pc m i of
     R_guard \<Rightarrow> map_option (\<lambda>v. ns_goto i R_test (m\<lparr>guard := v\<rparr>)) (Sem_wait (guard m))
   | R_test \<Rightarrow> Some (ns_goto i (if head m = 0 then R_unlock else R_next) m)
   | R_unlock \<Rightarrow> Some (ns_goto i R_post (m\<lparr>locked := 0\<rparr>))
   | R_next \<Rightarrow> with_node (head m) m (\<lambda>x. Some (ns_goto i (R_wake (head m)) (m\<lparr>head := nxt x\<rparr>)))
   | R_wake a \<Rightarrow>
       with_node a m (\<lambda>x. Some (ns_goto i R_post (m\<lparr>nodes := (nodes m)(a \<mapsto> x\<lparr>nsem := Sem_post (nsem x)\<rparr>)\<rparr>)))
   | R_post \<Rightarrow> Some (ns_goto i N_done (m\<lparr>guard := Sem_post (guard m)\<rparr>))
   | _ \<Rightarrow> None)"

text \<open>The thread function: acquire, hold the lock for a while, release.\<close>

definition ns_worker ::
  "((nat \<Rightarrow> node_t option) \<Rightarrow> nat) \<Rightarrow> nat \<Rightarrow> ns_mutex_t \<Rightarrow> ns_mutex_t option" where
  "ns_worker al i m =
     (if crashed m then None
      else case ns_pc m i of
        CS \<Rightarrow> Some (ns_goto i R_guard m)
      | R_guard \<Rightarrow> ns_mutex_release i m
      | R_test \<Rightarrow> ns_mutex_release i m
      | R_unlock \<Rightarrow> ns_mutex_release i m
      | R_next \<Rightarrow> ns_mutex_release i m
      | R_wake a \<Rightarrow> ns_mutex_release i m
      | R_post \<Rightarrow> ns_mutex_release i m
      | N_done \<Rightarrow> None
      | _ \<Rightarrow> ns_mutex_acquire al i m)"

definition ns_done :: "nat \<Rightarrow> ns_mutex_t \<Rightarrow> bool" where
  "ns_done i m \<longleftrightarrow> ns_pc m i = N_done"


abbreviation ns_program :: "((nat \<Rightarrow> node_t option) \<Rightarrow> nat) \<Rightarrow> nat \<Rightarrow> ns_mutex_t pool \<Rightarrow> ns_mutex_t pool \<Rightarrow> bool" where
  "ns_program al n \<equiv> program n (ns_worker al) ns_done"

text \<open>What \<^verbatim>\<open>malloc\<close> promises: a block it hands out is not in use.\<close>

definition malloc_ok :: "((nat \<Rightarrow> node_t option) \<Rightarrow> nat) \<Rightarrow> bool" where
  "malloc_ok al \<longleftrightarrow> (\<forall>h. al h \<noteq> 0 \<longrightarrow> h (al h) = None)"

text \<open>
  The executions: each step with an allocator of its own, so that a call of \<^verbatim>\<open>malloc\<close> may return any address
  that is not in use, or fail, also where an earlier one found the same blocks in use.
\<close>

definition ns_run :: "nat \<Rightarrow> ns_mutex_t pool \<Rightarrow> ns_mutex_t pool \<Rightarrow> bool" where
  "ns_run n p q \<longleftrightarrow> (\<exists>al. malloc_ok al \<and> ns_program al n p q)"

lemma ns_run_program: "malloc_ok al \<Longrightarrow> reachable (ns_program al n) p q \<Longrightarrow> reachable (ns_run n) p q"
  by (erule reachable_mono) (auto simp: ns_run_def)

lemmas nsm_defs = ns_worker_def ns_mutex_acquire_def ns_mutex_release_def with_node_def ns_goto_def
  Sem_post_def Let_def

subsection \<open>The invariant\<close>

fun in_guard :: "ns_pc \<Rightarrow> int" where
  "in_guard (A_test _) = 1" | "in_guard (A_take _) = 1" | "in_guard (A_taken _) = 1" | "in_guard (A_enq _) = 1"
| "in_guard (A_link _) = 1" | "in_guard (A_head _) = 1" | "in_guard (A_tail _) = 1" | "in_guard (A_post _) = 1"
| "in_guard R_test = 1" | "in_guard R_unlock = 1" | "in_guard R_next = 1" | "in_guard (R_wake _) = 1"
| "in_guard R_post = 1" | "in_guard _ = 0"

text \<open>Who has the lock: a thread from its acquisition to its release, or one whose semaphore is up.\<close>

fun has_lock :: "(nat \<Rightarrow> node_t option) \<Rightarrow> ns_pc \<Rightarrow> int" where
  "has_lock h (A_taken _) = 1" | "has_lock h (A_free _) = 1" | "has_lock h (A_wake _) = 1" | "has_lock h CS = 1"
| "has_lock h R_guard = 1" | "has_lock h R_test = 1" | "has_lock h R_unlock = 1" | "has_lock h R_next = 1"
| "has_lock h (R_wake _) = 1" | "has_lock h (A_sleep a) = nsem (the (h a))" | "has_lock h _ = 0"

text \<open>The node a thread has allocated and not freed.\<close>

fun own_node :: "ns_pc \<Rightarrow> nat option" where
  "own_node (A_guard a) = Some a" | "own_node (A_test a) = Some a" | "own_node (A_take a) = Some a"
| "own_node (A_taken a) = Some a" | "own_node (A_free a) = Some a" | "own_node (A_enq a) = Some a"
| "own_node (A_link a) = Some a" | "own_node (A_head a) = Some a" | "own_node (A_tail a) = Some a"
| "own_node (A_post a) = Some a" | "own_node (A_sleep a) = Some a" | "own_node (A_wake a) = Some a"
| "own_node _ = None"

text \<open>Points at which the node of a thread is in the queue, or is being put there.\<close>

fun queued :: "ns_pc \<Rightarrow> bool" where
  "queued (A_tail _) = True" | "queued (A_post _) = True" | "queued (A_sleep _) = True" | "queued _ = False"

text \<open>The chain of nodes from an address.\<close>

fun chain :: "(nat \<Rightarrow> node_t option) \<Rightarrow> nat \<Rightarrow> nat list \<Rightarrow> bool" where
  "chain h a [] \<longleftrightarrow> a = 0"
| "chain h a (x # xs) \<longleftrightarrow> a = x \<and> x \<noteq> 0 \<and> (\<exists>nd. h x = Some nd \<and> chain h (nxt nd) xs)"

definition ns_queue :: "nat \<Rightarrow> ns_mutex_t \<Rightarrow> nat list \<Rightarrow> bool" where
  "ns_queue n m xs \<longleftrightarrow>
     chain (nodes m) (head m) xs \<and> distinct xs \<and>
     (\<forall>a\<in>set xs. (\<exists>i<n. queued (ns_pc m i) \<and> own_node (ns_pc m i) = Some a) \<and>
        nsem (the (nodes m a)) = 0 \<and> (\<forall>i<n. ns_pc m i \<noteq> R_wake a)) \<and>
     (xs \<noteq> [] \<longrightarrow> (\<forall>i<n. \<forall>a. ns_pc m i = A_tail a \<longrightarrow> last xs = a) \<and>
        ((\<forall>i<n. \<forall>a. ns_pc m i \<noteq> A_tail a) \<longrightarrow> tail m = last xs))"

text \<open>Points before the node is queued: its semaphore is down and nothing is behind it.\<close>

fun prequeue :: "ns_pc \<Rightarrow> bool" where
  "prequeue (A_guard _) = True" | "prequeue (A_test _) = True" | "prequeue (A_take _) = True"
| "prequeue (A_enq _) = True" | "prequeue (A_link _) = True" | "prequeue (A_head _) = True"
| "prequeue _ = False"

definition dead :: "ns_mutex_t \<Rightarrow> bool" where
  "dead m \<longleftrightarrow> head m = 0 \<and> tail m \<noteq> 0"

text \<open>What is known at each point.\<close>

fun ns_pc_ok :: "nat \<Rightarrow> ns_mutex_t \<Rightarrow> ns_pc \<Rightarrow> bool" where
  "ns_pc_ok n m (A_take a) \<longleftrightarrow> locked m = 0"
| "ns_pc_ok n m (A_link a) \<longleftrightarrow> tail m \<noteq> 0"
| "ns_pc_ok n m (A_head a) \<longleftrightarrow> tail m = 0"
| "ns_pc_ok n m R_next \<longleftrightarrow> head m \<noteq> 0"
| "ns_pc_ok n m (R_wake a) \<longleftrightarrow> (\<exists>j<n. ns_pc m j = A_sleep a) \<and> nsem (the (nodes m a)) = 0"
| "ns_pc_ok n m _ \<longleftrightarrow> True"

definition ns_nodes :: "nat \<Rightarrow> ns_mutex_t \<Rightarrow> bool" where
  "ns_nodes n m \<longleftrightarrow>
     (\<forall>i<n. \<forall>a. own_node (ns_pc m i) = Some a \<longrightarrow>
        a \<noteq> 0 \<and> (\<exists>x. nodes m a = Some x \<and> 0 \<le> nsem x \<and>
          (prequeue (ns_pc m i) \<or> ns_pc m i = A_tail a \<or> ns_pc m i = A_post a \<longrightarrow> nsem x = 0) \<and>
          (prequeue (ns_pc m i) \<longrightarrow> dead m \<or> nxt x = 0))) \<and>
     (\<forall>i<n. \<forall>j<n. i \<noteq> j \<longrightarrow> own_node (ns_pc m i) \<noteq> None \<longrightarrow> own_node (ns_pc m i) \<noteq> own_node (ns_pc m j))"

definition ns_locks :: "nat \<Rightarrow> ns_mutex_t \<Rightarrow> bool" where
  "ns_locks n m \<longleftrightarrow>
     0 \<le> guard m \<and> guard m + tsum n in_guard (ns_pc m) = 1 \<and>
     0 \<le> locked m \<and> locked m \<le> 1 \<and> locked m = tsum n (has_lock (nodes m)) (ns_pc m)"

definition nsm_inv :: "nat \<Rightarrow> ns_mutex_t \<Rightarrow> bool" where
  "nsm_inv n m \<longleftrightarrow> crashed m \<or>
     ns_locks n m \<and> ns_nodes n m \<and> (\<forall>i<n. ns_pc_ok n m (ns_pc m i)) \<and> (\<exists>xs. ns_queue n m xs)"

subsection \<open>Chains\<close>

lemma chain_cong:
  "(\<And>x. x \<in> set xs \<Longrightarrow> map_option nxt (h' x) = map_option nxt (h x)) \<Longrightarrow> chain h' a xs = chain h a xs"
proof (induction xs arbitrary: a)
  case (Cons x xs)
  then have "map_option nxt (h' x) = map_option nxt (h x)" "\<And>b. chain h' b xs = chain h b xs" by simp_all
  then show ?case by (cases "h x"; cases "h' x") auto
qed simp

lemma chain_head: "chain h a xs \<Longrightarrow> a = (if xs = [] then 0 else hd xs)"
  by (cases xs) auto

lemma chain_append:
  "chain h a xs \<Longrightarrow> xs \<noteq> [] \<Longrightarrow> distinct xs \<Longrightarrow> b \<notin> set xs \<Longrightarrow> b \<noteq> 0 \<Longrightarrow> h b = Some y \<Longrightarrow> nxt y = 0 \<Longrightarrow>
     h (last xs) = Some x \<Longrightarrow> chain (h(last xs \<mapsto> x\<lparr>nxt := b\<rparr>)) a (xs @ [b])"
proof (induction xs arbitrary: a)
  case (Cons z zs)
  show ?case
  proof (cases zs)
    case Nil
    with Cons.prems show ?thesis by auto
  next
    case (Cons w ws)
    then have l: "last (z # zs) = last zs" "last zs \<in> set zs" by simp_all
    from Cons.prems obtain nd where nd: "h z = Some nd" "chain h (nxt nd) zs" "a = z" "z \<noteq> 0" by auto
    have "chain (h(last zs \<mapsto> x\<lparr>nxt := b\<rparr>)) (nxt nd) (zs @ [b])"
      by (rule Cons.IH) (use Cons.prems nd l Cons in auto)
    moreover have "z \<noteq> last zs" using Cons.prems(3) l(2) by auto
    then have "(h(last zs \<mapsto> x\<lparr>nxt := b\<rparr>)) z = Some nd" using nd(1) by simp
    ultimately show ?thesis using nd(3,4) unfolding l(1) by (auto simp del: fun_upd_apply)
  qed
qed simp

lemma chain_dom: "chain h a xs \<Longrightarrow> x \<in> set xs \<Longrightarrow> h x \<noteq> None"
  by (induction xs arbitrary: a) auto

text \<open>The queue does not notice a step outside its nodes.\<close>

lemma queue_frame:
  assumes q: "ns_queue n m xs" and i: "i < n"
    and eq: "head m' = head m" "tail m' = tail m" "ns_pc m' = (ns_pc m)(i := p)"
    and nodes: "\<And>a. a \<in> set xs \<Longrightarrow> nodes m' a = nodes m a"
    and pc: "\<forall>a. ns_pc m i \<noteq> A_tail a" "\<forall>a. p \<noteq> A_tail a" "\<forall>a. p \<noteq> R_wake a"
    and own: "\<And>a. a \<in> set xs \<Longrightarrow> queued (ns_pc m i) \<Longrightarrow> own_node (ns_pc m i) = Some a \<Longrightarrow>
      queued p \<and> own_node p = Some a"
  shows "ns_queue n m' xs"
proof -
  have ch: "chain (nodes m') (head m') xs"
    using q nodes chain_cong [of xs "nodes m'" "nodes m"] by (simp add: ns_queue_def eq)
  have el: "(\<exists>k<n. queued (ns_pc m' k) \<and> own_node (ns_pc m' k) = Some a) \<and> nsem (the (nodes m' a)) = 0 \<and>
      (\<forall>k<n. ns_pc m' k \<noteq> R_wake a)" if a: "a \<in> set xs" for a
  proof -
    from q a obtain k where k: "k < n" "queued (ns_pc m k)" "own_node (ns_pc m k) = Some a"
      unfolding ns_queue_def by blast
    then have "queued (ns_pc m' k) \<and> own_node (ns_pc m' k) = Some a"
      using own [OF a] by (auto simp: eq)
    with k q a nodes [OF a] pc(3) show ?thesis by (auto simp: ns_queue_def eq)
  qed
  have tl: "(\<forall>k<n. \<forall>a. ns_pc m' k \<noteq> A_tail a) \<longleftrightarrow> (\<forall>k<n. \<forall>a. ns_pc m k \<noteq> A_tail a)"
    "(\<forall>k<n. \<forall>a. ns_pc m' k = A_tail a \<longrightarrow> last xs = a) \<longleftrightarrow> (\<forall>k<n. \<forall>a. ns_pc m k = A_tail a \<longrightarrow> last xs = a)"
    using pc(1,2) by (auto simp: eq)
  from q ch el show ?thesis unfolding ns_queue_def tl eq(2) by blast
qed


subsection \<open>Steps\<close>

lemma guard_alone:
  assumes "ns_locks n m" "i < n" "j < n" "in_guard (ns_pc m i) = 1" "in_guard (ns_pc m j) = 1"
  shows "i = j"
proof (rule tsum_unique [of n in_guard "ns_pc m"])
  show "0 \<le> in_guard x" for x by (cases x) auto
qed (use assms in \<open>auto simp: ns_locks_def\<close>)

lemma has_lock_cong:
  "(\<And>a. p = A_sleep a \<Longrightarrow> nsem (the (h' a)) = nsem (the (h a))) \<Longrightarrow> has_lock h' p = has_lock h p"
  by (cases p) auto

lemma has_lock_nonneg: "ns_nodes n m \<Longrightarrow> i < n \<Longrightarrow> 0 \<le> has_lock (nodes m) (ns_pc m i)"
  by (cases "ns_pc m i") (force simp: ns_nodes_def)+

lemma own_other:
  assumes "ns_nodes n m" "i < n" "j < n" "own_node (ns_pc m i) = Some a" "own_node (ns_pc m j) = Some a"
  shows "i = j"
  using assms unfolding ns_nodes_def by (metis option.distinct(1))

text \<open>The sum of the locks held, when only the node of address \<open>a\<close> changes.\<close>

lemma lock_sum:
  assumes "i < n" "\<And>b k. k < n \<Longrightarrow> k \<noteq> i \<Longrightarrow> ns_pc m k = A_sleep b \<Longrightarrow> nsem (the (h' b)) = nsem (the (nodes m b))"
  shows "tsum n (has_lock h') ((ns_pc m)(i := p)) =
    tsum n (has_lock (nodes m)) (ns_pc m) + has_lock h' p - has_lock (nodes m) (ns_pc m i)"
proof -
  have "tsum n (has_lock h') ((ns_pc m)(i := p)) =
    tsum n (has_lock (nodes m)) (ns_pc m) + has_lock h' (((ns_pc m)(i := p)) i) - has_lock (nodes m) (ns_pc m i)"
  proof (rule tsum_differ [OF assms(1)])
    show "has_lock h' (((ns_pc m)(i := p)) k) = has_lock (nodes m) (ns_pc m k)" if "k < n" "k \<noteq> i" for k
      using that(2) has_lock_cong [of "ns_pc m k" h' "nodes m", OF assms(2) [OF that]] by simp
  qed
  then show ?thesis by simp
qed

lemma has_lock_sum:
  assumes "ns_nodes n m" "i < n"
  shows "has_lock (nodes m) (ns_pc m i) \<le> tsum n (has_lock (nodes m)) (ns_pc m)"
  unfolding tsum_def by (rule member_le_sum) (use assms has_lock_nonneg in auto)

text \<open>A waiter takes the token of its node, and a waiter is given one.\<close>

lemma sleep_sum:
  assumes nd: "ns_nodes n m" and i: "i < n" "ns_pc m i = A_sleep a" and x: "nodes m a = Some x"
  shows "tsum n (has_lock ((nodes m)(a \<mapsto> x\<lparr>nsem := nsem x - 1\<rparr>))) ((ns_pc m)(i := A_wake a)) =
    tsum n (has_lock (nodes m)) (ns_pc m) + 1 - nsem x"
proof -
  have "b \<noteq> a" if "k < n" "k \<noteq> i" "ns_pc m k = A_sleep b" for b k
    using own_other [OF nd i(1) that(1), of a] that i(2) by auto
  then show ?thesis using lock_sum [OF i(1), of m "(nodes m)(a \<mapsto> x\<lparr>nsem := nsem x - 1\<rparr>)" "A_wake a"] i(2) x by auto
qed

lemma wake_sum:
  assumes nd: "ns_nodes n m" and j: "j < n" "ns_pc m j = A_sleep a" and x: "nodes m a = Some x"
  shows "tsum n (has_lock ((nodes m)(a \<mapsto> x\<lparr>nsem := nsem x + 1\<rparr>))) (ns_pc m) =
    tsum n (has_lock (nodes m)) (ns_pc m) + 1"
proof -
  let ?h = "(nodes m)(a \<mapsto> x\<lparr>nsem := nsem x + 1\<rparr>)"
  have "tsum n (has_lock ?h) (ns_pc m) = tsum n (has_lock (nodes m)) (ns_pc m) +
      has_lock ?h (ns_pc m j) - has_lock (nodes m) (ns_pc m j)"
  proof (rule tsum_differ [OF j(1)], rule has_lock_cong)
    fix k b
    assume "k < n" "k \<noteq> j" "ns_pc m k = A_sleep b"
    then have "b \<noteq> a" using own_other [OF nd j(1), of k a] j(2) by auto
    then show "nsem (the (?h b)) = nsem (the (nodes m b))" by simp
  qed
  then show ?thesis using j x by simp
qed

lemma locks_step:
  assumes l: "ns_locks n m" and nd: "ns_nodes n m" and ok: "\<forall>i<n. ns_pc_ok n m (ns_pc m i)"
    and fr: "malloc_ok al"
    and i: "i < n" and st: "ns_worker al i m = Some m'" and nc: "\<not> crashed m'"
  shows "ns_locks n m'"
proof -
  note fresh = fr [unfolded malloc_ok_def, rule_format]
  have other: "b \<noteq> a" if "own_node (ns_pc m i) = Some a" "k < n" "k \<noteq> i" "ns_pc m k = A_sleep b" for a b k
    using own_other [OF nd i that(2), of a] that by auto
  have one: "has_lock (nodes m) (ns_pc m i) \<le> 1" using has_lock_sum [OF nd i] l by (simp add: ns_locks_def)
  note sum = lock_sum [OF i, of m]
  have cr: "\<not> crashed m" using st by (auto simp: ns_worker_def split: if_splits)
  show ?thesis
  proof (cases "ns_pc m i")
    case A_malloc
    let ?a = "al (nodes m)"
    have "b \<noteq> ?a" if "k < n" "ns_pc m k = A_sleep b" "?a \<noteq> 0" for k b
      using nd fresh that by (fastforce simp: ns_nodes_def)
    then show ?thesis using A_malloc l i st nc cr sum [of "(nodes m)(?a \<mapsto> \<lparr>nsem = 0, nxt = 0\<rparr>)" "A_guard ?a"]
      by (auto simp: nsm_defs ns_locks_def tsum_simps split: if_splits)
  next
    case (A_sleep a)
    obtain x where x: "nodes m a = Some x" using nd i A_sleep by (force simp: ns_nodes_def)
    note sleep_sum [OF nd i A_sleep x]
    moreover have "nsem x \<le> 1" using one A_sleep x by simp
    moreover have "0 < nsem x" using A_sleep st cr x by (auto simp: nsm_defs)
    ultimately show ?thesis using A_sleep l i st nc cr x
      by (auto simp: nsm_defs ns_locks_def tsum_simps)
  next
    case (R_wake a)
    obtain j where j: "j < n" "ns_pc m j = A_sleep a" "nsem (the (nodes m a)) = 0"
      using ok i R_wake by force
    obtain x where x: "nodes m a = Some x" using nd j by (force simp: ns_nodes_def)
    then show ?thesis using wake_sum [OF nd j(1,2) x] R_wake l i st nc cr
      by (auto simp: nsm_defs ns_locks_def tsum_simps)
  next
    case (A_free a)
    then show ?thesis using l i st nc cr sum [of "(nodes m)(a := None)" CS] other
      by (auto simp: nsm_defs ns_locks_def tsum_simps split: option.splits)
  next
    case (A_wake a)
    then show ?thesis using l i st nc cr sum [of "(nodes m)(a := None)" CS] other
      by (auto simp: nsm_defs ns_locks_def tsum_simps split: option.splits)
  next
    case (A_link a)
    then show ?thesis using l i st nc cr sum [of "(nodes m)(tail m \<mapsto> _)" "A_tail a"]
      by (auto simp: nsm_defs ns_locks_def tsum_simps split: option.splits)
  next
    case (A_post a)
    then have "nsem (the (nodes m a)) = 0" using nd i by (force simp: ns_nodes_def)
    then show ?thesis using A_post l i st nc cr
      by (auto simp: nsm_defs ns_locks_def tsum_simps)
  next
    case (A_take a)
    then have "locked m = 0" using ok i by force
    then show ?thesis using A_take l i st nc cr
      by (auto simp: nsm_defs ns_locks_def tsum_simps)
  next
    case R_unlock
    moreover have "1 \<le> tsum n (has_lock (nodes m)) (ns_pc m)" using has_lock_sum [OF nd i] R_unlock by simp
    ultimately show ?thesis using l i st nc cr
      by (auto simp: nsm_defs ns_locks_def tsum_simps)
  qed (use l i st nc cr in \<open>clarsimp simp: nsm_defs ns_locks_def tsum_simps split: if_splits option.splits\<close>; fail)+
qed


text \<open>What the queue says to the thread that holds the guard.\<close>

lemma queue_tail:
  assumes "ns_queue n m xs" "ns_locks n m" "i < n" "in_guard (ns_pc m i) = 1" "\<forall>a. ns_pc m i \<noteq> A_tail a" "xs \<noteq> []"
  shows "tail m = last xs" "tail m \<in> set xs"
proof -
  have "ns_pc m k \<noteq> A_tail a" if "k < n" for k a
    using guard_alone [OF assms(2,3) that assms(4)] assms(5) by auto
  then show "tail m = last xs" using assms(1,6) by (simp add: ns_queue_def)
  then show "tail m \<in> set xs" using assms(6) by simp
qed

lemma queue_head: "ns_queue n m xs \<Longrightarrow> head m = 0 \<longleftrightarrow> xs = []"
  by (cases xs) (auto simp: ns_queue_def)

lemma queue_own:
  assumes "ns_queue n m xs" "ns_nodes n m" "i < n" "own_node (ns_pc m i) = Some a" "a \<in> set xs"
  shows "queued (ns_pc m i)"
proof -
  from assms(1,5) obtain k where "k < n" "queued (ns_pc m k)" "own_node (ns_pc m k) = Some a"
    unfolding ns_queue_def by blast
  then show ?thesis using own_other [OF assms(2,3), of k a] assms(4) by auto
qed

text \<open>How a step changes the heap of nodes.\<close>

lemma nodes_change:
  assumes "ns_worker al i m = Some m'" "\<not> crashed m'"
  shows "ns_pc m' = (ns_pc m)(i := ns_pc m' i)"
    and "nodes m' = nodes m \<or>
      (ns_pc m i = A_malloc \<and> al (nodes m) \<noteq> 0 \<and> nodes m' = (nodes m)(al (nodes m) \<mapsto> \<lparr>nsem = 0, nxt = 0\<rparr>)) \<or>
      (\<exists>a. own_node (ns_pc m i) = Some a \<and> \<not> queued (ns_pc m i) \<and> nodes m' = (nodes m)(a := None) \<and> ns_pc m' i = CS) \<or>
      (\<exists>a x. ns_pc m i = A_link a \<and> nodes m (tail m) = Some x \<and> nodes m' = (nodes m)(tail m \<mapsto> x\<lparr>nxt := a\<rparr>)) \<or>
      (\<exists>a x. ns_pc m i = A_sleep a \<and> nodes m a = Some x \<and> 0 < nsem x \<and> nodes m' = (nodes m)(a \<mapsto> x\<lparr>nsem := nsem x - 1\<rparr>)) \<or>
      (\<exists>a x. ns_pc m i = R_wake a \<and> nodes m a = Some x \<and> nodes m' = (nodes m)(a \<mapsto> x\<lparr>nsem := nsem x + 1\<rparr>))"
  using assms
  by (cases "ns_pc m i"; auto simp: nsm_defs split: if_splits option.splits)+

text \<open>The four steps that change the queue.\<close>

lemma queue_nil:
  "head m = 0 \<Longrightarrow> ns_queue n m []"
  by (simp add: ns_queue_def)

lemma ns_queueI:
  "chain (nodes m) (head m) xs \<Longrightarrow> distinct xs \<Longrightarrow>
   (\<And>a. a \<in> set xs \<Longrightarrow> (\<exists>i<n. queued (ns_pc m i) \<and> own_node (ns_pc m i) = Some a) \<and>
        nsem (the (nodes m a)) = 0 \<and> (\<forall>i<n. ns_pc m i \<noteq> R_wake a)) \<Longrightarrow>
   (\<And>k b. k < n \<Longrightarrow> ns_pc m k = A_tail b \<Longrightarrow> xs \<noteq> [] \<Longrightarrow> last xs = b) \<Longrightarrow>
   ((\<forall>k<n. \<forall>b. ns_pc m k \<noteq> A_tail b) \<Longrightarrow> xs \<noteq> [] \<Longrightarrow> tail m = last xs) \<Longrightarrow> ns_queue n m xs"
  unfolding ns_queue_def by blast

lemma queue_link_step:
  assumes l: "ns_locks n m" and nd: "ns_nodes n m" and q: "ns_queue n m xs" and i: "i < n"
    and pc: "ns_pc m i = A_link a" and x: "nodes m (tail m) = Some x" and tl: "tail m \<noteq> 0"
    and m': "m' = m\<lparr>nodes := (nodes m)(tail m \<mapsto> x\<lparr>nxt := a\<rparr>), ns_pc := (ns_pc m)(i := A_tail a)\<rparr>"
  shows "\<exists>ys. ns_queue n m' ys"
proof (cases "xs = []")
  case True
  then have "head m' = 0" using queue_head [OF q] by (simp add: m')
  then show ?thesis using queue_nil by blast
next
  case False
  note t = queue_tail [OF q l i _ _ False, unfolded pc, simplified]
  have own: "own_node (ns_pc m i) = Some a" "\<not> queued (ns_pc m i)" using pc by simp_all
  have notin: "a \<notin> set xs" using queue_own [OF q nd i own(1)] own(2) by blast
  have "\<not> dead m" using False queue_head [OF q] by (simp add: dead_def)
  then obtain y where y: "a \<noteq> 0" "nodes m a = Some y" "nxt y = 0" "nsem y = 0"
    using nd i pc unfolding ns_nodes_def by force
  have ch: "chain (nodes m') (head m') (xs @ [a])"
    using chain_append [of "nodes m" "head m" xs a y x] q False notin y x t
    by (simp add: ns_queue_def m')
  have guard: "k = i" if "k < n" "in_guard (ns_pc m k) = 1" for k
    using guard_alone [OF l i that(1)] that(2) pc by simp
  have el: "(\<exists>k<n. queued (ns_pc m' k) \<and> own_node (ns_pc m' k) = Some b) \<and> nsem (the (nodes m' b)) = 0 \<and>
      (\<forall>k<n. ns_pc m' k \<noteq> R_wake b)" if "b \<in> set (xs @ [a])" for b
  proof (cases "b = a")
    case True
    have "tail m \<noteq> a" using t(2) notin by auto
    moreover have "ns_pc m k \<noteq> R_wake a" if "k < n" for k using guard [OF that] pc by force
    ultimately show ?thesis using True y i by (auto simp: m')
  next
    case False
    then have b: "b \<in> set xs" using that by simp
    with q obtain k where k: "k < n" "queued (ns_pc m k)" "own_node (ns_pc m k) = Some b"
      and rest: "nsem (the (nodes m b)) = 0" "\<forall>k<n. ns_pc m k \<noteq> R_wake b"
      unfolding ns_queue_def by blast
    then have "k \<noteq> i" using own(2) by auto
    with k rest x show ?thesis by (auto simp: m')
  qed
  have "ns_queue n m' (xs @ [a])"
  proof (rule ns_queueI [OF ch _ el])
    show "distinct (xs @ [a])" using q notin by (simp add: ns_queue_def)
    show "last (xs @ [a]) = b" if "k < n" "ns_pc m' k = A_tail b" for k b
      using guard [OF that(1)] that(2) by (cases "k = i") (auto simp: m')
    have "ns_pc m' i = A_tail a" by (simp add: m')
    then show "tail m' = last (xs @ [a])" if "\<forall>k<n. \<forall>b. ns_pc m' k \<noteq> A_tail b" using that i by blast
  qed
  then show ?thesis by blast
qed

lemma queue_head_step:
  assumes l: "ns_locks n m" and nd: "ns_nodes n m" and q: "ns_queue n m xs" and i: "i < n"
    and pc: "ns_pc m i = A_head a" and tl: "tail m = 0"
    and m': "m' = m\<lparr>head := a, ns_pc := (ns_pc m)(i := A_tail a)\<rparr>"
  shows "ns_queue n m' [a]"
proof -
  have "\<not> dead m" using tl by (simp add: dead_def)
  then obtain y where y: "a \<noteq> 0" "nodes m a = Some y" "nxt y = 0" "nsem y = 0"
    using nd i pc unfolding ns_nodes_def by force
  have guard: "k = i" if "k < n" "in_guard (ns_pc m k) = 1" for k
    using guard_alone [OF l i that(1)] that(2) pc by simp
  show ?thesis
  proof (rule ns_queueI)
    show "chain (nodes m') (head m') [a]" using y by (simp add: m')
    have i': "ns_pc m' i = A_tail a" by (simp add: m')
    moreover have "ns_pc m' k \<noteq> R_wake a" if "k < n" for k
      using guard [OF that] by (cases "k = i") (auto simp: m')
    ultimately show "(\<exists>k<n. queued (ns_pc m' k) \<and> own_node (ns_pc m' k) = Some b) \<and> nsem (the (nodes m' b)) = 0 \<and>
      (\<forall>k<n. ns_pc m' k \<noteq> R_wake b)" if "b \<in> set [a]" for b
      using that y i by (auto simp: m')
    show "last [a] = b" if "k < n" "ns_pc m' k = A_tail b" for k b
      using guard [OF that(1)] that(2) by (cases "k = i") (auto simp: m')
    show "tail m' = last [a]" if "\<forall>k<n. \<forall>b. ns_pc m' k \<noteq> A_tail b" using that i i' by blast
  qed simp
qed

lemma queue_tail_step:
  assumes l: "ns_locks n m" and q: "ns_queue n m xs" and i: "i < n" and pc: "ns_pc m i = A_tail a"
    and m': "m' = m\<lparr>tail := a, ns_pc := (ns_pc m)(i := A_post a)\<rparr>"
  shows "ns_queue n m' xs"
proof -
  have guard: "k = i" if "k < n" "in_guard (ns_pc m k) = 1" for k
    using guard_alone [OF l i that(1)] that(2) pc by simp
  have el: "(\<exists>k<n. queued (ns_pc m' k) \<and> own_node (ns_pc m' k) = Some b) \<and> nsem (the (nodes m' b)) = 0 \<and>
      (\<forall>k<n. ns_pc m' k \<noteq> R_wake b)" if b: "b \<in> set xs" for b
  proof -
    from q b obtain k where k: "k < n" "queued (ns_pc m k)" "own_node (ns_pc m k) = Some b"
      and rest: "nsem (the (nodes m b)) = 0" "\<forall>k<n. ns_pc m k \<noteq> R_wake b"
      unfolding ns_queue_def by blast
    then have "queued (ns_pc m' k) \<and> own_node (ns_pc m' k) = Some b" using pc by (auto simp: m')
    with k rest show ?thesis by (auto simp: m')
  qed
  have "xs \<noteq> [] \<Longrightarrow> last xs = a" using q i pc by (auto simp: ns_queue_def)
  moreover have "ns_pc m' k \<noteq> A_tail b" if "k < n" for k b
    using guard [OF that] by (cases "k = i") (auto simp: m')
  ultimately show ?thesis using el q unfolding ns_queue_def by (auto simp: m')
qed

lemma queue_next_step:
  assumes l: "ns_locks n m" and nd: "ns_nodes n m" and q: "ns_queue n m xs" and i: "i < n"
    and pc: "ns_pc m i = R_next" and hd: "head m \<noteq> 0" and x: "nodes m (head m) = Some x"
    and m': "m' = m\<lparr>head := nxt x, ns_pc := (ns_pc m)(i := R_wake (head m))\<rparr>"
  shows "\<exists>ys. ns_queue n m' ys" "\<exists>j<n. ns_pc m' j = A_sleep (head m)" "nsem (the (nodes m (head m))) = 0"
proof -
  obtain ys where xs: "xs = head m # ys"
    using queue_head [OF q] hd q by (cases xs) (auto simp: ns_queue_def)
  have guard: "k = i" if "k < n" "in_guard (ns_pc m k) = 1" for k
    using guard_alone [OF l i that(1)] that(2) pc by simp
  from q xs obtain j where j: "j < n" "queued (ns_pc m j)" "own_node (ns_pc m j) = Some (head m)"
    and sem: "nsem (the (nodes m (head m))) = 0" unfolding ns_queue_def by fastforce
  have "ns_pc m j = A_sleep (head m)" using j guard [OF j(1)] pc by (cases "ns_pc m j") auto
  then show "\<exists>j<n. ns_pc m' j = A_sleep (head m)" using j pc by (intro exI [of _ j]) (auto simp: m')
  show "nsem (the (nodes m (head m))) = 0" by (rule sem)
  have el: "(\<exists>k<n. queued (ns_pc m' k) \<and> own_node (ns_pc m' k) = Some b) \<and> nsem (the (nodes m' b)) = 0 \<and>
      (\<forall>k<n. ns_pc m' k \<noteq> R_wake b)" if b: "b \<in> set ys" for b
  proof -
    from q b xs obtain k where k: "k < n" "queued (ns_pc m k)" "own_node (ns_pc m k) = Some b"
      and rest: "nsem (the (nodes m b)) = 0" "\<forall>k<n. ns_pc m k \<noteq> R_wake b"
      unfolding ns_queue_def by fastforce
    have "k \<noteq> i" using k pc by auto
    moreover have "b \<noteq> head m" using q b xs by (auto simp: ns_queue_def)
    ultimately show ?thesis using k rest by (auto simp: m')
  qed
  have "ns_pc m' k \<noteq> A_tail b" if "k < n" for k b using guard [OF that] pc by (cases "k = i") (auto simp: m')
  moreover have "ys \<noteq> [] \<Longrightarrow> tail m = last ys"
    using queue_tail(1) [OF q l i] pc xs by simp
  moreover have "chain (nodes m) (nxt x) ys" "distinct ys"
    using q xs x by (auto simp: ns_queue_def)
  ultimately have "ns_queue n m' ys" using el unfolding ns_queue_def by (auto simp: m')
  then show "\<exists>ys. ns_queue n m' ys" by blast
qed

lemma queue_step:
  assumes l: "ns_locks n m" and nd: "ns_nodes n m" and ok: "\<forall>i<n. ns_pc_ok n m (ns_pc m i)"
    and q: "ns_queue n m xs" and fr: "malloc_ok al"
    and i: "i < n" and st: "ns_worker al i m = Some m'" and nc: "\<not> crashed m'"
  shows "\<exists>ys. ns_queue n m' ys"
proof -
  note fresh = fr [unfolded malloc_ok_def, rule_format]
  have cr: "\<not> crashed m" using st by (auto simp: ns_worker_def split: if_splits)
  have frame: "\<exists>ys. ns_queue n m' ys" if "ns_queue n m' xs" using that by blast
  note frame = frame [OF queue_frame [OF q i]]
  have dom: "nodes m a \<noteq> None" if "a \<in> set xs" for a using q chain_dom that by (auto simp: ns_queue_def)
  have own: "a \<notin> set xs" if "own_node (ns_pc m i) = Some a" "\<not> queued (ns_pc m i)" for a
    using queue_own [OF q nd i] that by blast
  show ?thesis
  proof (cases "ns_pc m i")
    case A_malloc
    then have "al (nodes m) \<noteq> 0" using st nc cr by (auto simp: nsm_defs split: if_splits)
    then have "al (nodes m) \<notin> set xs" using dom [of "al (nodes m)"] fresh [of "nodes m"] by auto
    then show ?thesis
      by (intro frame [of "A_guard (al (nodes m))"]) (use A_malloc st nc cr in \<open>auto simp: nsm_defs split: if_splits\<close>)
  next
    case (A_free a)
    then have "a \<notin> set xs" using own by simp
    then show ?thesis
      by (intro frame [of CS]) (use A_free st nc cr in \<open>auto simp: nsm_defs split: option.splits\<close>)
  next
    case (A_wake a)
    then have "a \<notin> set xs" using own by simp
    then show ?thesis
      by (intro frame [of CS]) (use A_wake st nc cr in \<open>auto simp: nsm_defs split: option.splits\<close>)
  next
    case (A_link a)
    have "tail m \<noteq> 0" using ok i A_link by force
    then show ?thesis using A_link st nc cr queue_link_step [OF l nd q i A_link]
      by (auto simp: nsm_defs split: option.splits)
  next
    case (A_head a)
    have "tail m = 0" using ok i A_head by force
    then show ?thesis using A_head st nc cr queue_head_step [OF l nd q i A_head]
      by (auto simp: nsm_defs)
  next
    case (A_tail a)
    then show ?thesis using st nc cr queue_tail_step [OF l q i A_tail] by (auto simp: nsm_defs)
  next
    case (A_sleep a)
    have "a \<notin> set xs" using st nc cr A_sleep q by (auto simp: nsm_defs ns_queue_def split: option.splits)
    then show ?thesis
      by (intro frame [of "A_wake a"]) (use A_sleep st nc cr in \<open>auto simp: nsm_defs split: option.splits\<close>)
  next
    case R_next
    have "head m \<noteq> 0" using ok i R_next by force
    then show ?thesis using R_next st nc cr queue_next_step(1) [OF l nd q i R_next]
      by (auto simp: nsm_defs split: option.splits)
  next
    case (R_wake a)
    have "a \<notin> set xs" using R_wake q i by (auto simp: ns_queue_def)
    then show ?thesis
      by (intro frame [of R_post]) (use R_wake st nc cr in \<open>auto simp: nsm_defs split: option.splits\<close>)
  qed (rule frame [of "ns_pc m' i"];
      use st nc cr in \<open>auto simp: nsm_defs split: if_splits\<close>; fail)+
qed


lemma dead_step:
  assumes "\<forall>i<n. ns_pc_ok n m (ns_pc m i)" "ns_nodes n m" "i < n" "ns_worker al i m = Some m'" "dead m"
  shows "dead m'"
proof -
  have "ns_pc m i \<noteq> A_head a" "ns_pc m i \<noteq> R_next" "ns_pc m i = A_tail a \<Longrightarrow> a \<noteq> 0" for a
    using assms(1,2,3,5) by (force simp: dead_def ns_nodes_def)+
  then show ?thesis using assms(4,5)
    by (cases "ns_pc m i") (auto simp: nsm_defs dead_def split: if_splits option.splits)
qed

text \<open>The node of another thread: only its link and, while it sleeps, its semaphore can change.\<close>

lemma other_node:
  assumes l: "ns_locks n m" and nd: "ns_nodes n m" and ok: "\<forall>i<n. ns_pc_ok n m (ns_pc m i)"
    and q: "ns_queue n m xs" and fr: "malloc_ok al"
    and i: "i < n" and st: "ns_worker al i m = Some m'" and nc: "\<not> crashed m'"
    and j: "j < n" "j \<noteq> i" "own_node (ns_pc m j) = Some b" "nodes m b = Some x"
  shows "\<exists>y. nodes m' b = Some y \<and> nsem x \<le> nsem y \<and> (nsem y = nsem x \<or> ns_pc m i = R_wake b) \<and>
    (nxt y = nxt x \<or> dead m \<or> \<not> prequeue (ns_pc m j))"
proof -
  note fresh = fr [unfolded malloc_ok_def, rule_format]
  have ne: "own_node (ns_pc m i) \<noteq> Some b" using own_other [OF nd i j(1), of b] j(2,3) by auto
  have link: "dead m \<or> \<not> prequeue (ns_pc m j)" if pc: "ns_pc m i = A_link a" "tail m = b" for a
  proof (cases "xs = []")
    case True
    then show ?thesis using queue_head [OF q] ok i pc by (force simp: dead_def)
  next
    case False
    have "b \<in> set xs" using queue_tail(2) [OF q l i _ _ False] pc by simp
    then have "queued (ns_pc m j)" by (rule queue_own [OF q nd j(1,3)])
    then show ?thesis by (cases "ns_pc m j") auto
  qed
  from nodes_change(2) [OF st nc] show ?thesis
  proof (elim disjE exE conjE)
    assume "al (nodes m) \<noteq> 0" "nodes m' = (nodes m)(al (nodes m) \<mapsto> \<lparr>nsem = 0, nxt = 0\<rparr>)"
    with fresh j(4) show ?thesis by fastforce
  next
    fix a y assume "ns_pc m i = A_link a" "nodes m (tail m) = Some y" "nodes m' = (nodes m)(tail m \<mapsto> y\<lparr>nxt := a\<rparr>)"
    with link j(4) show ?thesis by (cases "tail m = b") auto
  qed (use j(4) ne in auto)
qed

text \<open>The condition on the node a thread owns, as seen from the state after a step.\<close>

definition node_ok :: "ns_mutex_t \<Rightarrow> ns_pc \<Rightarrow> nat \<Rightarrow> bool" where
  "node_ok m p a \<longleftrightarrow> a \<noteq> 0 \<and> (\<exists>x. nodes m a = Some x \<and> 0 \<le> nsem x \<and>
     (prequeue p \<or> p = A_tail a \<or> p = A_post a \<longrightarrow> nsem x = 0) \<and> (prequeue p \<longrightarrow> dead m \<or> nxt x = 0))"

lemma ns_nodes_iff: "ns_nodes n m \<longleftrightarrow>
    (\<forall>j<n. \<forall>a. own_node (ns_pc m j) = Some a \<longrightarrow> node_ok m (ns_pc m j) a) \<and>
    (\<forall>j<n. \<forall>k<n. j \<noteq> k \<longrightarrow> own_node (ns_pc m j) \<noteq> None \<longrightarrow> own_node (ns_pc m j) \<noteq> own_node (ns_pc m k))"
  unfolding ns_nodes_def node_ok_def by blast

lemma nodes_step_other:
  assumes l: "ns_locks n m" and nd: "ns_nodes n m" and ok: "\<forall>i<n. ns_pc_ok n m (ns_pc m i)"
    and q: "ns_queue n m xs" and fr: "malloc_ok al"
    and i: "i < n" and st: "ns_worker al i m = Some m'" and nc: "\<not> crashed m'"
    and j: "j < n" "j \<noteq> i" and ob: "own_node (ns_pc m j) = Some b"
  shows "node_ok m' (ns_pc m j) b"
proof -
  have "node_ok m (ns_pc m j) b" using nd j(1) ob unfolding ns_nodes_iff by blast
  then obtain x where x: "b \<noteq> 0" "nodes m b = Some x" "0 \<le> nsem x"
    "prequeue (ns_pc m j) \<or> ns_pc m j = A_tail b \<or> ns_pc m j = A_post b \<longrightarrow> nsem x = 0"
    "prequeue (ns_pc m j) \<longrightarrow> dead m \<or> nxt x = 0" unfolding node_ok_def by blast
  from other_node [OF l nd ok q fr i st nc j ob x(2)] obtain y where
    y: "nodes m' b = Some y" "nsem x \<le> nsem y" "nsem y = nsem x \<or> ns_pc m i = R_wake b"
      "nxt y = nxt x \<or> dead m \<or> \<not> prequeue (ns_pc m j)" by blast
  have "ns_pc m j = A_sleep b" if w: "ns_pc m i = R_wake b"
  proof -
    obtain k where "k < n" "ns_pc m k = A_sleep b" using ok i w by force
    then show ?thesis using own_other [OF nd j(1), of k b] ob by auto
  qed
  moreover have "dead m \<Longrightarrow> dead m'" by (rule dead_step [OF ok nd i st])
  ultimately show ?thesis using x y unfolding node_ok_def by auto
qed

text \<open>A thread keeps its node, gives it up, or gets one that nobody owns.\<close>

lemma nodes_step_distinct:
  assumes nd: "ns_nodes n m" and fr: "malloc_ok al" and i: "i < n" and st: "ns_worker al i m = Some m'"
    and nc: "\<not> crashed m'" and j: "j < n" "j \<noteq> i" and own: "own_node (ns_pc m' i) \<noteq> None"
  shows "own_node (ns_pc m j) \<noteq> own_node (ns_pc m' i)"
proof -
  have cr: "\<not> crashed m" using st by (auto simp: ns_worker_def split: if_splits)
  have "own_node (ns_pc m' i) = None \<or> own_node (ns_pc m' i) = own_node (ns_pc m i) \<or>
      (ns_pc m i = A_malloc \<and> own_node (ns_pc m' i) = Some (al (nodes m)) \<and> al (nodes m) \<noteq> 0)"
    using st nc cr by (cases "ns_pc m i") (auto simp: nsm_defs split: if_splits option.splits)
  moreover have "own_node (ns_pc m j) \<noteq> Some (al (nodes m))" if "al (nodes m) \<noteq> 0"
    using nd fr [unfolded malloc_ok_def, rule_format] j(1) that by (fastforce simp: ns_nodes_def)
  ultimately show ?thesis using own_other [OF nd j(1) i] j(2) own by force
qed

lemma nodes_step:
  assumes l: "ns_locks n m" and nd: "ns_nodes n m" and ok: "\<forall>i<n. ns_pc_ok n m (ns_pc m i)"
    and q: "ns_queue n m xs" and fr: "malloc_ok al"
    and i: "i < n" and st: "ns_worker al i m = Some m'" and nc: "\<not> crashed m'"
  shows "ns_nodes n m'"
proof -
  have cr: "\<not> crashed m" using st by (auto simp: ns_worker_def split: if_splits)
  have same: "ns_pc m' k = ns_pc m k" if "k \<noteq> i" for k using that by (subst nodes_change(1) [OF st nc]) simp
  note dist = nodes_step_distinct [OF nd fr i st nc]
  have dd: "dead m \<Longrightarrow> dead m'" by (rule dead_step [OF ok nd i st])
  have self: "node_ok m' (ns_pc m' i) a" if a: "own_node (ns_pc m' i) = Some a" for a
  proof -
    have "own_node (ns_pc m i) = Some a \<Longrightarrow> node_ok m (ns_pc m i) a" using nd i unfolding ns_nodes_iff by blast
    then show ?thesis using a st nc cr dd
      by (cases "ns_pc m i") (auto simp: nsm_defs node_ok_def split: if_splits option.splits)
  qed
  show ?thesis unfolding ns_nodes_iff
  proof (intro conjI allI impI)
    fix j a assume "j < n" "own_node (ns_pc m' j) = Some a"
    then show "node_ok m' (ns_pc m' j) a"
      using self same nodes_step_other [OF l nd ok q fr i st nc] by (cases "j = i") simp_all
  next
    fix j k assume jk: "j < n" "k < n" "j \<noteq> k" "own_node (ns_pc m' j) \<noteq> None"
    show "own_node (ns_pc m' j) \<noteq> own_node (ns_pc m' k)"
    proof (cases "j = i \<or> k = i")
      case True
      with jk dist same show ?thesis by metis
    next
      case False
      with jk same own_other [OF nd jk(1,2)] show ?thesis by (metis not_None_eq)
    qed
  qed
qed

lemma pc_ok_step:
  assumes l: "ns_locks n m" and nd: "ns_nodes n m" and ok: "\<forall>i<n. ns_pc_ok n m (ns_pc m i)"
    and q: "ns_queue n m xs" and fr: "malloc_ok al"
    and i: "i < n" and st: "ns_worker al i m = Some m'" and nc: "\<not> crashed m'" and j: "j < n"
  shows "ns_pc_ok n m' (ns_pc m' j)"
proof (cases "j = i")
  case True
  have cr: "\<not> crashed m" using st by (auto simp: ns_worker_def split: if_splits)
  show ?thesis
  proof (cases "ns_pc m i = R_next")
    case R_next: True
    have hd: "head m \<noteq> 0" using ok i R_next by force
    then obtain x where x: "nodes m (head m) = Some x"
        "m' = m\<lparr>head := nxt x, ns_pc := (ns_pc m)(i := R_wake (head m))\<rparr>"
      using R_next st nc cr by (auto simp: nsm_defs split: option.splits)
    from queue_next_step(2,3) [OF l nd q i R_next hd x] x True show ?thesis by simp
  next
    case False
    with True st nc cr show ?thesis
      by (cases "ns_pc m i") (auto simp: nsm_defs split: if_splits option.splits)
  qed
next
  case False
  have cr: "\<not> crashed m" using st by (auto simp: ns_worker_def split: if_splits)
  have pj: "ns_pc m' j = ns_pc m j" using False by (subst nodes_change(1) [OF st nc]) simp
  have guard: "in_guard (ns_pc m i) = 0" if "in_guard (ns_pc m j) = 1"
    using guard_alone [OF l i j] that False by (cases "ns_pc m i") auto
  have keep: "locked m' = locked m \<and> head m' = head m \<and> tail m' = tail m" if "in_guard (ns_pc m i) = 0"
    using st nc cr that by (cases "ns_pc m i") (auto simp: nsm_defs split: if_splits option.splits)
  have old: "ns_pc_ok n m (ns_pc m j)" using ok j by simp
  show ?thesis
  proof (cases "\<exists>b. ns_pc m j = R_wake b")
    case True
    then obtain b where b: "ns_pc m j = R_wake b" by blast
    with old obtain k where k: "k < n" "ns_pc m k = A_sleep b" "nsem (the (nodes m b)) = 0" by auto
    obtain x where x: "nodes m b = Some x" using nd k by (force simp: ns_nodes_def)
    have "k \<noteq> i" using k x st cr by (auto simp: nsm_defs)
    then have "ns_pc m' k = A_sleep b" using k by (subst nodes_change(1) [OF st nc]) simp
    moreover have "ns_pc m i \<noteq> R_wake b" using guard b by auto
    with other_node [OF l nd ok q fr i st nc k(1) \<open>k \<noteq> i\<close> _ x] k x
    have "nsem (the (nodes m' b)) = 0" by auto
    ultimately show ?thesis using k b pj by auto
  next
    case False
    with old guard keep show ?thesis unfolding pj by (cases "ns_pc m j") auto
  qed
qed

lemma nsm_step_inv:
  assumes "nsm_inv n m" "malloc_ok al" "i < n" "ns_worker al i m = Some m'"
  shows "nsm_inv n m'"
proof (cases "crashed m'")
  case False
  have "\<not> crashed m" using assms(4) by (auto simp: ns_worker_def split: if_splits)
  then obtain xs where "ns_locks n m" "ns_nodes n m" "\<forall>i<n. ns_pc_ok n m (ns_pc m i)" "ns_queue n m xs"
    using assms(1) by (auto simp: nsm_inv_def)
  note inv = this
  have "ns_locks n m'" by (rule locks_step [OF inv(1-3) assms(2-4) False])
  moreover have "ns_nodes n m'" by (rule nodes_step [OF inv assms(2-4) False])
  moreover have "\<forall>j<n. ns_pc_ok n m' (ns_pc m' j)" using pc_ok_step [OF inv assms(2-4) False] by blast
  moreover have "\<exists>ys. ns_queue n m' ys" by (rule queue_step [OF inv assms(2-4) False])
  ultimately show ?thesis by (simp add: nsm_inv_def)
qed (simp add: nsm_inv_def)


lemma nsm_init_inv: "nsm_inv n ns_mutex_init"
  by (auto simp: nsm_inv_def ns_locks_def ns_nodes_def ns_queue_def ns_mutex_init_def tsum_def intro: exI [of _ "[]"])

lemma ns_done_stays: "ns_worker al i m = Some m' \<Longrightarrow> ns_done j m \<Longrightarrow> ns_done j m'"
  by (cases "ns_pc m i"; cases "j = i")
    (auto simp: nsm_defs ns_done_def split: if_splits option.splits)

text \<open>The invariant of the workers, and what \<^verbatim>\<open>main\<close> knows of those it has joined.\<close>

definition nsm_pool :: "nat \<Rightarrow> ns_mutex_t pool \<Rightarrow> bool" where
  "nsm_pool n p \<longleftrightarrow> nsm_inv n (pool p) \<and> joined p \<le> n \<and> (\<forall>i<joined p. ns_done i (pool p)) \<and> (ended p \<longrightarrow> joined p = n)"

lemma nsm_pool_step:
  assumes "nsm_pool n p" "ns_run n p q"
  shows "nsm_pool n q"
proof -
  obtain al where al: "malloc_ok al" "ns_program al n p q" using assms(2) by (auto simp: ns_run_def)
  from al(2) show ?thesis
  proof (cases rule: program_cases)
    case (worker i m)
    with assms(1) al(1) show ?thesis by (auto simp: nsm_pool_def intro: nsm_step_inv ns_done_stays)
  next
    case main
    with assms(1) show ?thesis by (auto simp: nsm_pool_def main_step_def less_Suc_eq split: if_splits)
  qed
qed

interpretation nsm: invariant_system "ns_run n" "pool_init ns_mutex_init" "nsm_pool n" for n
proof unfold_locales
  show "nsm_pool n (pool_init ns_mutex_init)" by (simp add: nsm_pool_def pool_init_def nsm_init_inv)
qed (rule nsm_pool_step)

subsection \<open>The lost waiter\<close>

text \<open>A thread that sleeps while the queue is dead and nobody is about to wake it.\<close>

definition lost :: "nat \<Rightarrow> nat \<Rightarrow> nat \<Rightarrow> ns_mutex_t \<Rightarrow> bool" where
  "lost n i a m \<longleftrightarrow> ns_pc m i = A_sleep a \<and>
     (crashed m \<or> dead m \<and> nsem (the (nodes m a)) = 0 \<and> (\<forall>k<n. ns_pc m k \<noteq> R_wake a))"

lemma lost_step:
  assumes inv: "nsm_inv n m" and al: "malloc_ok al" and i: "i < n" "lost n i a m"
    and k: "k < n" "ns_worker al k m = Some m'"
  shows "lost n i a m'"
proof -
  have cr: "\<not> crashed m" using k(2) by (auto simp: ns_worker_def split: if_splits)
  then obtain xs where l: "ns_locks n m" and nd: "ns_nodes n m" and ok: "\<forall>i<n. ns_pc_ok n m (ns_pc m i)"
    and q: "ns_queue n m xs" using inv by (auto simp: nsm_inv_def)
  have lo: "ns_pc m i = A_sleep a" "dead m" "nsem (the (nodes m a)) = 0" "\<forall>k<n. ns_pc m k \<noteq> R_wake a"
    using i cr by (auto simp: lost_def)
  obtain x where x: "nodes m a = Some x" using nd i(1) lo(1) by (force simp: ns_nodes_def)
  have ne: "k \<noteq> i" using k(2) lo x cr by (auto simp: nsm_defs)
  show ?thesis
  proof (cases "crashed m'")
    case True
    have "ns_pc m' i = A_sleep a"
      using k(2) lo(1) ne by (cases "ns_pc m k") (auto simp: nsm_defs split: if_splits option.splits)
    with True show ?thesis by (simp add: lost_def)
  next
    case False
    note pc = nodes_change(1) [OF k(2) False]
    have pi: "ns_pc m' i = A_sleep a" using ne lo(1) by (subst pc) simp
    have "ns_pc m k \<noteq> R_wake a" using lo(4) k by blast
    with other_node [OF l nd ok q al k False i(1) _ _ x] ne lo x
    have "nsem (the (nodes m' a)) = 0" by auto
    moreover have "dead m'" by (rule dead_step [OF ok nd k lo(2)])
    moreover have "ns_pc m k \<noteq> R_next" using ok k(1) lo(2) by (force simp: dead_def)
    then have "ns_pc m' k \<noteq> R_wake b" for b
      using k(2) False cr by (cases "ns_pc m k") (auto simp: nsm_defs split: if_splits option.splits)
    then have "ns_pc m' j \<noteq> R_wake a" if "j < n" for j using lo(4) that by (subst pc) auto
    ultimately show ?thesis using pi by (simp add: lost_def)
  qed
qed

lemma lost_forever:
  assumes p: "reachable (ns_run n) (pool_init ns_mutex_init) p" and i: "i < n" "lost n i a (pool p)"
    and q: "reachable (ns_run n) p q"
  shows "lost n i a (pool q) \<and> \<not> ended q"
proof -
  have "lost n i a (pool q) \<and> nsm_pool n q" using q
  proof (induction rule: reachable.induct)
    case (step q r)
    then obtain al where al: "malloc_ok al" "ns_program al n q r" by (auto simp: ns_run_def)
    have "lost n i a (pool r)" using al(2)
    proof (cases rule: program_cases)
      case (worker k s)
      then show ?thesis using lost_step [OF _ al(1) i(1) _ worker(1,3)] step.IH by (auto simp: nsm_pool_def)
    next
      case main
      then show ?thesis using step.IH by (auto simp: main_step_def split: if_splits)
    qed
    then show ?case using step nsm_pool_step by blast
  qed (use i nsm.reachable_inv [OF p] in simp)
  then show ?thesis using i(1) by (auto simp: lost_def nsm_pool_def ns_done_def)
qed

subsection \<open>Properties\<close>

text \<open>An allocator for the examples: the lowest of four addresses that is free.\<close>

definition first_free :: "(nat \<Rightarrow> node_t option) \<Rightarrow> nat" where
  "first_free h = (if h 1 = None then 1 else if h 2 = None then 2 else if h 3 = None then 3
     else if h 4 = None then 4 else 0)"

lemma first_free_ok: "malloc_ok first_free"
  by (auto simp: malloc_ok_def first_free_def)




text \<open>Once the queue has been emptied it is never used again: a thread that is asleep then, with
  nobody about to wake it, sleeps for ever, and \<^verbatim>\<open>main\<close> never returns.\<close>

theorem ns_mutex_waiter_lost:
  assumes "reachable (ns_run n) (pool_init ns_mutex_init) p"
    and "\<not> crashed (pool p)" "head (pool p) = 0" "tail (pool p) \<noteq> 0"
    and "i < n" "ns_pc (pool p) i = A_sleep a" "nsem (the (nodes (pool p) a)) = 0"
    and "\<forall>k<n. ns_pc (pool p) k \<noteq> R_wake a"
    and "reachable (ns_run n) p q"
  shows "ns_pc (pool q) i = A_sleep a \<and> \<not> ended q"
proof -
  have "lost n i a (pool p)" using assms(3-8) by (simp add: lost_def dead_def)
  from lost_forever [OF assms(1,5) this assms(9)] show ?thesis by (simp add: lost_def)
qed

text \<open>The schedule that loses a waiter: the third thread queues behind the second one, which has been
  taken off the queue and has not run yet.\<close>

definition losing_schedule :: "nat list" where
  "losing_schedule = [3, 3, 3] @ replicate 6 0 @ replicate 7 1 @ replicate 6 0 @ replicate 7 2 @ replicate 7 1"

lemma losing_run:
  "\<exists>p. reachable (ns_program first_free 3) (pool_init ns_mutex_init) p \<and>
     \<not> crashed (pool p) \<and> head (pool p) = 0 \<and> tail (pool p) \<noteq> 0 \<and> ns_pc (pool p) 2 = A_sleep 2 \<and>
     nsem (the (nodes (pool p) 2)) = 0 \<and> (\<forall>k<3. ns_pc (pool p) k \<noteq> R_wake 2)"
proof -
  define res where "res = run_sched (pool_step 3 (ns_worker first_free) ns_done) losing_schedule (pool_init ns_mutex_init)"
  have "case res of None \<Rightarrow> False | Some p \<Rightarrow> \<not> crashed (pool p) \<and> head (pool p) = 0 \<and> tail (pool p) \<noteq> 0 \<and>
      ns_pc (pool p) 2 = A_sleep 2 \<and> nsem (the (nodes (pool p) 2)) = 0 \<and>
      ns_pc (pool p) 0 = N_done \<and> ns_pc (pool p) 1 = N_done"
    unfolding res_def by code_simp
  then obtain p where p: "res = Some p" "\<not> crashed (pool p)" "head (pool p) = 0" "tail (pool p) \<noteq> 0"
      "ns_pc (pool p) 2 = A_sleep 2" "nsem (the (nodes (pool p) 2)) = 0"
      "ns_pc (pool p) 0 = N_done" "ns_pc (pool p) 1 = N_done"
    by (auto split: option.splits)
  have "reachable (ns_program first_free 3) (pool_init ns_mutex_init) p"
    by (rule run_sched_reachable [OF p(1) [unfolded res_def]]) (auto simp: losing_schedule_def)
  moreover have "ns_pc (pool p) k \<noteq> R_wake 2" if "k < 3" for k
  proof -
    have "k = 0 \<or> k = 1 \<or> k = 2" using that by auto
    with p show ?thesis by auto
  qed
  ultimately show ?thesis using p by blast
qed

theorem ns_mutex_waiter_lost_witness:
  "\<exists>p. reachable (ns_program first_free 3) (pool_init ns_mutex_init) p \<and>
     ns_pc (pool p) 2 = A_sleep 2 \<and> \<not> ended p"
proof -
  from losing_run obtain p where p: "reachable (ns_program first_free 3) (pool_init ns_mutex_init) p"
    "\<not> crashed (pool p)" "head (pool p) = 0" "tail (pool p) \<noteq> 0" "ns_pc (pool p) 2 = A_sleep 2"
    "nsem (the (nodes (pool p) 2)) = 0" "\<forall>k<3. ns_pc (pool p) k \<noteq> R_wake 2" by blast
  from ns_mutex_waiter_lost [OF ns_run_program [OF first_free_ok p(1)] p(2-4) _ p(5-7) reachable.start] p show ?thesis by auto
qed

text \<open>C37: The program starves a thread: with three threads there is an execution without any memory
  error after which \<^verbatim>\<open>main\<close> can never return, whatever \<^verbatim>\<open>malloc\<close> does from then on.\<close>

theorem ns_mutex_starves:
  "\<exists>p. reachable (ns_program first_free 3) (pool_init ns_mutex_init) p \<and>
     \<not> crashed (pool p) \<and>
     (\<forall>q. reachable (ns_run 3) p q \<longrightarrow> \<not> ended q)"
proof -
  from losing_run obtain p where p: "reachable (ns_program first_free 3) (pool_init ns_mutex_init) p"
    "\<not> crashed (pool p)" "lost 3 2 2 (pool p)" by (auto simp: lost_def dead_def)
  have "(2::nat) < 3" by simp
  from lost_forever [OF ns_run_program [OF first_free_ok p(1)] this p(3)] p show ?thesis by blast
qed

theorem ns_mutex_starves_witness:
  "\<exists>p. reachable (ns_program first_free 3) (pool_init ns_mutex_init) p \<and> \<not> ended p"
proof -
  from ns_mutex_starves obtain p where
    p: "reachable (ns_program first_free 3) (pool_init ns_mutex_init) p"
      "\<forall>q. reachable (ns_run 3) p q \<longrightarrow> \<not> ended q" by blast
  from p(2) [rule_format, OF reachable.start] p(1) show ?thesis by blast
qed

text \<open>The stale \<^verbatim>\<open>tail\<close> is also dereferenced after the node behind it has been freed: with three
  threads there is an execution in which \<^verbatim>\<open>ns_mutex_acquire\<close> writes to a freed block.\<close>

theorem ns_mutex_use_after_free:
  "\<exists>p q. reachable (ns_program first_free 3) (pool_init ns_mutex_init) p \<and>
     \<not> crashed (pool p) \<and> ns_pc (pool p) 2 = A_link 2 \<and> nodes (pool p) (tail (pool p)) = None \<and>
     pool_step 3 (ns_worker first_free) ns_done 2 p = Some q \<and> crashed (pool q)"
proof -
  let ?sched = "[3, 3, 3] @ replicate 6 0 @ replicate 7 1 @ [2] @ replicate 6 0 @ [1, 1] @ replicate 3 2"
  define res where "res = run_sched (pool_step 3 (ns_worker first_free) ns_done) ?sched (pool_init ns_mutex_init)"
  have "case res of None \<Rightarrow> False | Some p \<Rightarrow> \<not> crashed (pool p) \<and> ns_pc (pool p) 2 = A_link 2 \<and>
      nodes (pool p) (tail (pool p)) = None \<and>
      (case pool_step 3 (ns_worker first_free) ns_done 2 p of None \<Rightarrow> False | Some q \<Rightarrow> crashed (pool q))"
    unfolding res_def by code_simp
  then obtain p where p: "res = Some p" "\<not> crashed (pool p)" "ns_pc (pool p) 2 = A_link 2"
      "nodes (pool p) (tail (pool p)) = None"
      "case pool_step 3 (ns_worker first_free) ns_done 2 p of None \<Rightarrow> False | Some q \<Rightarrow> crashed (pool q)"
    by (auto split: option.splits)
  have "reachable (ns_program first_free 3) (pool_init ns_mutex_init) p"
    by (rule run_sched_reachable [OF p(1) [unfolded res_def]]) auto
  with p show ?thesis by (cases "pool_step 3 (ns_worker first_free) ns_done 2 p") auto
qed

end
