(* ===== verification/Zemaphore.thy ===== *)
theory Zemaphore
  imports Semaphore
begin

section \<open>Semaphores from a lock and a condition variable\<close>

text \<open>
  \<^verbatim>\<open>zemaphore.h\<close> and its client \<^verbatim>\<open>zemaphore.c\<close>. Any number of threads run any sequence of
  \<^verbatim>\<open>Zem_wait\<close> and \<^verbatim>\<open>Zem_post\<close> on one \<^verbatim>\<open>Zem_t\<close>. \<^verbatim>\<open>Cond_wait\<close> gives the lock up and goes to sleep
  in one step and takes the lock again when it is woken; \<^verbatim>\<open>Cond_signal\<close> wakes one sleeper of the
  scheduler's choice, or nobody when nobody sleeps; a sleeper may also wake up spuriously. The
  implementation refines the atomic steps \<open>Sem_wait\<close> and \<open>Sem_post\<close> and loses no wakeup.
\<close>

subsection \<open>Simulations\<close>

text \<open>
  A concrete system implements an abstract one when each of its steps is, seen through an
  abstraction function, a step of the abstract system or no step at all.
\<close>

locale simulation = invariant_system +
  fixes A :: "'b \<Rightarrow> 'b \<Rightarrow> bool" and absf :: "'a \<Rightarrow> 'b"
  assumes simulates: "inv s \<Longrightarrow> R s t \<Longrightarrow> absf t = absf s \<or> A (absf s) (absf t)"
begin

lemma abs_reachable: "reachable R s0 s \<Longrightarrow> reachable A (absf s0) (absf s)"
proof (induction rule: reachable.induct)
  case (step s t)
  then have "absf t = absf s \<or> A (absf s) (absf t)" using simulates reachable_inv by blast
  with step.IH show ?case by (auto intro: reachable.step)
qed (rule reachable.start)

end

subsection \<open>The abstract semaphore\<close>

datatype zop = ZWait | ZPost

text \<open>The value and the operations every thread has still to perform.\<close>

inductive sem_step :: "int \<times> (nat \<Rightarrow> zop list) \<Rightarrow> int \<times> (nat \<Rightarrow> zop list) \<Rightarrow> bool" where
  wait: "ops i = ZWait # r \<Longrightarrow> Sem_wait v = Some v' \<Longrightarrow> sem_step (v, ops) (v', ops(i := r))"
| post: "ops i = ZPost # r \<Longrightarrow> sem_step (v, ops) (Sem_post v, ops(i := r))"

inductive_cases sem_stepE: "sem_step (v, ops) (v', ops')"

subsection \<open>The implementation\<close>

datatype zpc = Z_idle
  | ZW_lock | ZW_test | ZW_sleep | ZW_relock | ZW_dec | ZW_unlock
  | ZP_lock | ZP_inc | ZP_signal | ZP_unlock

text \<open>\<open>z_ops\<close> are the operations of a thread that have not taken effect yet, the current one first.\<close>

record Zem_t =
  z_value :: int
  z_lock :: int
  z_pc :: "nat \<Rightarrow> zpc"
  z_ops :: "nat \<Rightarrow> zop list"

definition Zem_init :: "int \<Rightarrow> (nat \<Rightarrow> zop list) \<Rightarrow> Zem_t" where
  "Zem_init v ops = \<lparr>z_value = v, z_lock = 1, z_pc = (\<lambda>_. Z_idle), z_ops = ops\<rparr>"

definition z_goto :: "nat \<Rightarrow> zpc \<Rightarrow> Zem_t \<Rightarrow> Zem_t" where
  "z_goto i p z = z\<lparr>z_pc := (z_pc z)(i := p)\<rparr>"

text \<open>\<^verbatim>\<open>Mutex_lock\<close> and \<^verbatim>\<open>Mutex_unlock\<close>; the lock is free when its word is 1.\<close>

definition z_acquire :: "nat \<Rightarrow> zpc \<Rightarrow> Zem_t \<Rightarrow> Zem_t option" where
  "z_acquire i p z = (if z_lock z = 1 then Some (z_goto i p (z\<lparr>z_lock := 0\<rparr>)) else None)"

definition Zem_wait :: "nat \<Rightarrow> Zem_t \<Rightarrow> Zem_t option" where
  "Zem_wait i z = (case z_pc z i of
     ZW_lock \<Rightarrow> z_acquire i ZW_test z
   | ZW_test \<Rightarrow>
       if z_value z \<le> 0 then Some (z_goto i ZW_sleep (z\<lparr>z_lock := 1\<rparr>)) else Some (z_goto i ZW_dec z)
   | ZW_relock \<Rightarrow> z_acquire i ZW_test z
   | ZW_dec \<Rightarrow> Some (z_goto i ZW_unlock (z\<lparr>z_value := z_value z - 1, z_ops := (z_ops z)(i := tl (z_ops z i))\<rparr>))
   | ZW_unlock \<Rightarrow> Some (z_goto i Z_idle (z\<lparr>z_lock := 1\<rparr>))
   | _ \<Rightarrow> None)"

text \<open>\<open>j\<close> is the sleeper the signal wakes.\<close>

definition Zem_post :: "nat \<Rightarrow> nat \<Rightarrow> nat \<Rightarrow> Zem_t \<Rightarrow> Zem_t option" where
  "Zem_post n i j z = (case z_pc z i of
     ZP_lock \<Rightarrow> z_acquire i ZP_inc z
   | ZP_inc \<Rightarrow> Some (z_goto i ZP_signal (z\<lparr>z_value := z_value z + 1, z_ops := (z_ops z)(i := tl (z_ops z i))\<rparr>))
   | ZP_signal \<Rightarrow>
       if z_pc z j = ZW_sleep then Some (z_goto i ZP_unlock (z_goto j ZW_relock z))
       else if \<forall>k\<in>set [0..<n]. z_pc z k \<noteq> ZW_sleep then Some (z_goto i ZP_unlock z)
       else None
   | ZP_unlock \<Rightarrow> Some (z_goto i Z_idle (z\<lparr>z_lock := 1\<rparr>))
   | _ \<Rightarrow> None)"

definition zem_thread :: "nat \<Rightarrow> nat \<Rightarrow> nat \<Rightarrow> Zem_t \<Rightarrow> Zem_t option" where
  "zem_thread n i j z = (case z_pc z i of
     Z_idle \<Rightarrow>
       (case z_ops z i of [] \<Rightarrow> None
        | ZWait # _ \<Rightarrow> Some (z_goto i ZW_lock z)
        | ZPost # _ \<Rightarrow> Some (z_goto i ZP_lock z))
   | ZP_lock \<Rightarrow> Zem_post n i j z
   | ZP_inc \<Rightarrow> Zem_post n i j z
   | ZP_signal \<Rightarrow> Zem_post n i j z
   | ZP_unlock \<Rightarrow> Zem_post n i j z
   | _ \<Rightarrow> Zem_wait i z)"

inductive zem_step :: "nat \<Rightarrow> Zem_t \<Rightarrow> Zem_t \<Rightarrow> bool" for n where
  run: "i < n \<Longrightarrow> j < n \<Longrightarrow> zem_thread n i j z = Some z' \<Longrightarrow> zem_step n z z'"
| spurious: "i < n \<Longrightarrow> z_pc z i = ZW_sleep \<Longrightarrow> zem_step n z (z_goto i ZW_relock z)"

lemmas zem_defs = zem_thread_def Zem_wait_def Zem_post_def z_acquire_def z_goto_def

subsection \<open>Invariant\<close>

fun z_holds :: "zpc \<Rightarrow> int" where
  "z_holds ZW_test = 1" | "z_holds ZW_dec = 1" | "z_holds ZW_unlock = 1" | "z_holds ZP_inc = 1"
| "z_holds ZP_signal = 1" | "z_holds ZP_unlock = 1" | "z_holds _ = 0"

text \<open>Threads on their way to look at the value, or to send somebody there.\<close>

fun z_alert :: "zpc \<Rightarrow> int" where
  "z_alert ZW_relock = 1" | "z_alert ZW_test = 1" | "z_alert ZW_dec = 1" | "z_alert ZP_signal = 1"
| "z_alert _ = 0"

fun z_pc_ok :: "int \<Rightarrow> zop list \<Rightarrow> zpc \<Rightarrow> bool" where
  "z_pc_ok v ops Z_idle \<longleftrightarrow> True" | "z_pc_ok v ops ZW_unlock \<longleftrightarrow> True" | "z_pc_ok v ops ZP_signal \<longleftrightarrow> True"
| "z_pc_ok v ops ZP_unlock \<longleftrightarrow> True"
| "z_pc_ok v ops ZW_dec \<longleftrightarrow> 0 < v \<and> ops \<noteq> [] \<and> hd ops = ZWait"
| "z_pc_ok v ops ZP_lock \<longleftrightarrow> ops \<noteq> [] \<and> hd ops = ZPost" | "z_pc_ok v ops ZP_inc \<longleftrightarrow> ops \<noteq> [] \<and> hd ops = ZPost"
| "z_pc_ok v ops _ \<longleftrightarrow> ops \<noteq> [] \<and> hd ops = ZWait"

definition zem_inv :: "nat \<Rightarrow> Zem_t \<Rightarrow> bool" where
  "zem_inv n z \<longleftrightarrow>
     0 \<le> z_value z \<and> z_lock z + tsum n z_holds (z_pc z) = 1 \<and> 0 \<le> z_lock z \<and>
     (z_value z \<le> tsum n z_alert (z_pc z) \<or> (\<forall>k<n. z_pc z k \<noteq> ZW_sleep)) \<and>
     (\<forall>i<n. z_pc_ok (z_value z) (z_ops z i) (z_pc z i))"

lemma z_weights: "0 \<le> z_holds p" "0 \<le> z_alert p" "z_holds p \<le> 1"
  by (cases p; simp)+

lemma z_alone:
  assumes "zem_inv n z" "i < n" "j < n" "z_holds (z_pc z i) = 1" "z_holds (z_pc z j) = 1"
  shows "i = j"
proof (rule tsum_unique [of n z_holds "z_pc z"])
  show "tsum n z_holds (z_pc z) \<le> 1" using assms(1) by (simp add: zem_inv_def)
qed (use assms z_weights(1) in auto)

lemma alert_nonneg: "0 \<le> tsum n z_alert p"
  by (rule tsum_nonneg) (rule z_weights(2))

lemma zem_counts_step:
  assumes inv: "zem_inv n z" and i: "i < n" "j < n" and st: "zem_thread n i j z = Some z'"
  shows "0 \<le> z_value z' \<and> z_lock z' + tsum n z_holds (z_pc z') = 1 \<and> 0 \<le> z_lock z' \<and>
     (z_value z' \<le> tsum n z_alert (z_pc z') \<or> (\<forall>k<n. z_pc z' k \<noteq> ZW_sleep))"
proof -
  have ok: "z_pc_ok (z_value z) (z_ops z i) (z_pc z i)" using inv i by (simp add: zem_inv_def)
  have c: "0 \<le> z_value z" "z_lock z + tsum n z_holds (z_pc z) = 1" "0 \<le> z_lock z"
    "z_value z \<le> tsum n z_alert (z_pc z) \<or> (\<forall>k<n. z_pc z k \<noteq> ZW_sleep)"
    using inv by (auto simp: zem_inv_def)
  have ge: "z_holds (z_pc z i) \<le> tsum n z_holds (z_pc z)" "z_alert (z_pc z i) \<le> tsum n z_alert (z_pc z)"
    by (rule tsum_ge [OF i(1)], rule z_weights)+
  show ?thesis
  proof (cases "z_pc z i")
    case ZP_signal
    show ?thesis
    proof (cases "z_pc z j = ZW_sleep")
      case True
      then have "i \<noteq> j" using ZP_signal by auto
      then show ?thesis using c i st ZP_signal True
        by (auto simp: zem_defs tsum_simps)
    next
      case False
      then have "\<forall>k<n. z_pc z' k \<noteq> ZW_sleep" using st ZP_signal
        by (auto simp: zem_defs split: if_splits)
      then show ?thesis using c i st ZP_signal False
        by (auto simp: zem_defs tsum_simps split: if_splits)
    qed
  qed (use c i st ok ge alert_nonneg [of n "z_pc z"] in \<open>auto simp: zem_defs tsum_simps split: if_splits list.splits zop.splits\<close>)
qed


lemma zem_pc_step:
  assumes inv: "zem_inv n z" and i: "i < n" "j < n" and st: "zem_thread n i j z = Some z'" and k: "k < n"
  shows "z_pc_ok (z_value z') (z_ops z' k) (z_pc z' k)"
proof -
  have ok: "z_pc_ok (z_value z) (z_ops z i) (z_pc z i)" "z_pc_ok (z_value z) (z_ops z k) (z_pc z k)"
    using inv i k by (simp_all add: zem_inv_def)
  have alone: "z_pc z k \<noteq> ZW_dec" if "z_holds (z_pc z i) = 1" "k \<noteq> i"
    using z_alone [OF inv i(1) k that(1)] that(2) by auto
  show ?thesis
  proof (cases "k = i")
    case True
    then show ?thesis using ok st
      by (cases "z_pc z i") (auto simp: zem_defs split: if_splits list.splits zop.splits)
  next
    case False
    then have "z_ops z' k = z_ops z k" "z_pc z' k = z_pc z k \<or> z_pc z k = ZW_sleep \<and> z_pc z' k = ZW_relock"
      "z_value z \<le> z_value z' \<or> z_holds (z_pc z i) = 1"
      using st by (cases "z_pc z i"; auto simp: zem_defs split: if_splits list.splits zop.splits)+
    with ok(2) alone False show ?thesis by (cases "z_pc z k") auto
  qed
qed

lemma zem_step_inv: "zem_inv n z \<Longrightarrow> zem_step n z z' \<Longrightarrow> zem_inv n z'"
proof (erule zem_step.cases)
  fix i j y y'
  assume "zem_inv n z" "z = y" "z' = y'" "i < n" "j < n" "zem_thread n i j y = Some y'"
  then show ?thesis using zem_counts_step [of n y i j y'] zem_pc_step [of n y i j y']
    unfolding zem_inv_def [of n z'] by blast
next
  fix i y
  assume *: "zem_inv n z" "z = y" "z' = z_goto i ZW_relock y" "i < n" "z_pc y i = ZW_sleep"
  then show ?thesis by (auto simp: zem_inv_def z_goto_def tsum_simps)
qed

lemma zem_simulates:
  assumes inv: "zem_inv n z" and st: "zem_step n z z'"
  shows "(z_value z', z_ops z') = (z_value z, z_ops z) \<or> sem_step (z_value z, z_ops z) (z_value z', z_ops z')"
  using st
proof cases
  case (run i j)
  have ok: "z_pc_ok (z_value z) (z_ops z i) (z_pc z i)" using inv run by (simp add: zem_inv_def)
  show ?thesis
  proof (cases "z_pc z i = ZW_dec \<or> z_pc z i = ZP_inc")
    case True
    then obtain r where "z_pc z i = ZW_dec \<and> z_ops z i = ZWait # r \<and> 0 < z_value z \<or>
        z_pc z i = ZP_inc \<and> z_ops z i = ZPost # r"
      using ok by (cases "z_ops z i") auto
    then show ?thesis using run(3) sem_step.wait [of "z_ops z" i r "z_value z" "z_value z - 1"]
        sem_step.post [of "z_ops z" i r "z_value z"]
      by (auto simp: zem_defs Sem_post_def)
  next
    case False
    then show ?thesis using run(3)
      by (cases "z_pc z i") (auto simp: zem_defs split: if_splits list.splits zop.splits)
  qed
next
  case (spurious i)
  then show ?thesis by (simp add: z_goto_def)
qed

interpretation zem: simulation "zem_step n" "Zem_init (int v) ops" "zem_inv n" sem_step
  "\<lambda>z. (z_value z, z_ops z)" for n v ops
proof unfold_locales
  show "zem_inv n (Zem_init (int v) ops)"
    by (simp add: zem_inv_def Zem_init_def tsum_def)
qed (use zem_step_inv zem_simulates in blast)+

text \<open>
  When no thread can move without a spurious wakeup, every thread that is not finished sleeps, and
  the value is used up.
\<close>

lemma zem_stuck:
  assumes inv: "zem_inv n z" and stuck: "\<forall>i<n. \<forall>j<n. zem_thread n i j z = None"
    and i: "i < n" "z_ops z i \<noteq> [] \<or> z_pc z i \<noteq> Z_idle"
  shows "z_pc z i = ZW_sleep \<and> z_ops z i \<noteq> [] \<and> hd (z_ops z i) = ZWait \<and> z_value z = 0"
proof -
  have quiet: "z_pc z k \<in> {Z_idle, ZW_lock, ZP_lock, ZW_relock, ZW_sleep}" if k: "k < n" for k
  proof -
    obtain j where j: "j < n" "z_pc z j = ZW_sleep \<or> (\<forall>k<n. z_pc z k \<noteq> ZW_sleep)" using i by blast
    with stuck k have "zem_thread n k j z = None" by blast
    with j show ?thesis by (cases "z_pc z k") (auto simp: zem_defs split: if_splits)
  qed
  have free: "z_lock z = 1"
    using inv tsum_zero [of n z_holds "z_pc z"] quiet by (force simp: zem_inv_def)
  have rest: "z_pc z k = ZW_sleep \<or> z_pc z k = Z_idle \<and> z_ops z k = []" if k: "k < n" for k
  proof -
    have "zem_thread n k k z = None" using stuck k by blast
    with quiet [OF k] free show ?thesis
      by (auto simp: zem_defs split: if_splits list.splits zop.splits)
  qed
  have "tsum n z_alert (z_pc z) = 0" by (rule tsum_zero) (use rest in force)
  with rest [OF i(1)] i inv show ?thesis by (force simp: zem_inv_def)
qed

subsection \<open>Properties\<close>

text \<open>C23: \<^verbatim>\<open>Zem_t\<close> refines a semaphore: whatever threads call \<^verbatim>\<open>Zem_wait\<close> and \<^verbatim>\<open>Zem_post\<close> and however
  they are scheduled and woken, every state seen as value and outstanding operations is one that
  atomic waits and posts can reach.\<close>

theorem zem_refines_semaphore:
  assumes "reachable (zem_step n) (Zem_init (int v) ops) z"
  shows "reachable sem_step (int v, ops) (z_value z, z_ops z)"
  using zem.abs_reachable [OF assms] by (simp add: Zem_init_def)

theorem zem_refines_semaphore_witness:
  "reachable sem_step (int 0, (\<lambda>i. if i = 0 then [ZWait] else [ZPost]))
     (1, (\<lambda>i. if i = 0 then [ZWait] else [ZPost])(1 := []))"
proof -
  let ?ops = "\<lambda>i. if i = 0 then [ZWait] else [ZPost]"
  let ?s1 = "z_goto 1 ZP_lock (Zem_init (int 0) ?ops)"
  let ?s2 = "z_goto 1 ZP_inc (?s1\<lparr>z_lock := 0\<rparr>)"
  let ?s3 = "z_goto 1 ZP_signal (?s2\<lparr>z_value := 1, z_ops := ?ops(1 := [])\<rparr>)"
  have "zem_step 2 (Zem_init (int 0) ?ops) ?s1" "zem_step 2 ?s1 ?s2" "zem_step 2 ?s2 ?s3"
    by (rule zem_step.run [of 1 _ 0]; simp add: zem_defs Zem_init_def)+
  then have "reachable (zem_step 2) (Zem_init (int 0) ?ops) ?s3"
    by (blast intro: reachable.intros)
  from zem_refines_semaphore [OF this] show ?thesis
    by (simp add: z_goto_def Zem_init_def)
qed

text \<open>C24: No wakeup is lost: if no thread can move on without a spurious wakeup, then every thread
  that has not finished is asleep in \<^verbatim>\<open>Zem_wait\<close> and the value is 0, so an atomic semaphore would
  block it just as well.\<close>

theorem zem_no_lost_wakeup:
  assumes "reachable (zem_step n) (Zem_init (int v) ops) z" "\<forall>i<n. \<forall>j<n. zem_thread n i j z = None"
    and "i < n" "z_ops z i \<noteq> [] \<or> z_pc z i \<noteq> Z_idle"
  shows "z_pc z i = ZW_sleep \<and> z_ops z i \<noteq> [] \<and> hd (z_ops z i) = ZWait \<and> z_value z = 0"
  by (rule zem_stuck [OF zem.reachable_inv [OF assms(1)] assms(2-4)])

theorem zem_no_lost_wakeup_witness:
  "\<exists>z. reachable (zem_step 1) (Zem_init (int 0) (\<lambda>_. [ZWait])) z \<and> z_pc z 0 = ZW_sleep \<and> z_value z = 0"
proof -
  let ?z0 = "Zem_init (int 0) (\<lambda>_. [ZWait])"
  let ?s1 = "z_goto 0 ZW_lock ?z0"
  let ?s2 = "z_goto 0 ZW_test (?s1\<lparr>z_lock := 0\<rparr>)"
  let ?s3 = "z_goto 0 ZW_sleep (?s2\<lparr>z_lock := 1\<rparr>)"
  have "zem_step 1 ?z0 ?s1" "zem_step 1 ?s1 ?s2" "zem_step 1 ?s2 ?s3"
    by (rule zem_step.run [of 0 _ 0]; simp add: zem_defs Zem_init_def)+
  then have r: "reachable (zem_step 1) ?z0 ?s3" by (blast intro: reachable.intros)
  have "\<forall>i<1. \<forall>j<1. zem_thread 1 i j ?s3 = None" "z_pc ?s3 0 \<noteq> Z_idle"
    by (simp_all add: zem_defs Zem_init_def)
  from zem_no_lost_wakeup [OF r this(1), of 0] this(2)
  have "z_pc ?s3 0 = ZW_sleep \<and> z_value ?s3 = 0" by simp
  with r show ?thesis by (intro exI [of _ ?s3] conjI) simp_all
qed

text \<open>The client \<^verbatim>\<open>zemaphore.c\<close>: the parent waits, the child posts.\<close>

definition zem_main :: "nat \<Rightarrow> zop list" where
  "zem_main i = (if i = 0 then [ZWait] else if i = 1 then [ZPost] else [])"

lemma zem_main_states:
  assumes "reachable sem_step (0, zem_main) (v, ops)"
  shows "(ops 0 = [ZWait] \<and> ops 1 = [ZPost] \<and> v = 0 \<or> ops 0 = [ZWait] \<and> ops 1 = [] \<and> v = 1 \<or>
    ops 0 = [] \<and> ops 1 = [] \<and> v = 0) \<and> (\<forall>i\<ge>2. ops i = [])"
  using assms
proof (induction "(v, ops)" arbitrary: v ops rule: reachable.induct)
  case start
  then show ?case by (auto simp: zem_main_def)
next
  case (step s)
  obtain v0 ops0 where s: "s = (v0, ops0)" by (cases s)
  from step(2) [OF s] have IH: "(ops0 0 = [ZWait] \<and> ops0 1 = [ZPost] \<and> v0 = 0 \<or> ops0 0 = [ZWait] \<and> ops0 1 = [] \<and> v0 = 1 \<or>
    ops0 0 = [] \<and> ops0 1 = [] \<and> v0 = 0)" "\<And>i. 2 \<le> i \<Longrightarrow> ops0 i = []" by auto
  have small: "i = 0 \<or> i = 1" if "ops0 i \<noteq> []" for i using IH(2) [of i] that by (cases "2 \<le> i") auto
  from step(3) [unfolded s] show ?case
  proof (rule sem_stepE)
    fix i r assume *: "ops0 i = ZWait # r" "0 < v0" "v = v0 - 1" "ops = ops0(i := r)"
    with small [of i] IH show ?case by auto
  next
    fix i r assume *: "v = Sem_post v0" "ops = ops0(i := r)" "ops0 i = ZPost # r"
    with small [of i] IH show ?case by (auto simp: Sem_post_def)
  qed
qed

text \<open>In \<^verbatim>\<open>zemaphore.c\<close> the parent (thread 0) gets past its wait only after the child (thread 1) has
  posted, and when nothing moves any more both have finished.\<close>

theorem zemaphore_parent_waits:
  assumes "reachable (zem_step 2) (Zem_init 0 zem_main) z"
  shows "(z_ops z 0 = [] \<longrightarrow> z_ops z 1 = []) \<and>
    ((\<forall>i<2. \<forall>j<2. zem_thread 2 i j z = None) \<longrightarrow> z_ops z 0 = [] \<and> z_ops z 1 = [] \<and>
       z_pc z 0 = Z_idle \<and> z_pc z 1 = Z_idle)"
proof -
  have r: "reachable (zem_step 2) (Zem_init (int 0) zem_main) z" using assms by simp
  have "reachable sem_step (0, zem_main) (z_value z, z_ops z)"
    using zem.abs_reachable [OF r] by (simp add: Zem_init_def)
  note main = zem_main_states [OF this]
  have "z_ops z 0 = [] \<and> z_ops z 1 = [] \<and> z_pc z 0 = Z_idle \<and> z_pc z 1 = Z_idle"
    if "\<forall>i<2. \<forall>j<2. zem_thread 2 i j z = None"
  proof -
    have *: "z_ops z i \<noteq> [] \<or> z_pc z i \<noteq> Z_idle \<Longrightarrow> z_ops z i \<noteq> [] \<and> hd (z_ops z i) = ZWait \<and> z_value z = 0"
      if "i < 2" for i
      using zem_stuck [OF zem.reachable_inv [OF r] \<open>\<forall>i<2. _\<close> that] by blast
    show ?thesis using * [of 0] * [of 1] main by auto
  qed
  with main show ?thesis by auto
qed

theorem zemaphore_parent_waits_witness:
  "\<exists>z. reachable (zem_step 2) (Zem_init 0 zem_main) z \<and> z_ops z 0 = [] \<and> z_pc z 0 = Z_idle"
proof -
  let ?sched = "[0, 0, 0] @ replicate 5 1 @ replicate 4 0"
  define res where "res = run_sched (\<lambda>i. zem_thread 2 i 0) ?sched (Zem_init 0 zem_main)"
  have "case res of None \<Rightarrow> False | Some z \<Rightarrow> (\<forall>i\<in>{0, 1}. \<forall>j\<in>{0, 1}. zem_thread 2 i j z = None)"
    unfolding res_def by code_simp
  then obtain z where z: "run_sched (\<lambda>i. zem_thread 2 i 0) ?sched (Zem_init 0 zem_main) = Some z"
    "\<forall>i\<in>{0, 1}. \<forall>j\<in>{0, 1}. zem_thread 2 i j z = None"
    unfolding res_def by (auto split: option.splits)
  have "reachable (par_step 2 (\<lambda>i. zem_thread 2 i 0)) (Zem_init 0 zem_main) z"
    by (rule run_sched_reachable [OF z(1)]) auto
  then have r: "reachable (zem_step 2) (Zem_init 0 zem_main) z"
    by (rule reachable_mono) (auto simp: par_step_def intro: zem_step.run [where j = 0])
  have "\<forall>i<2. \<forall>j<2. zem_thread 2 i j z = None"
    using z(2) by (auto simp: less_Suc_eq numeral_2_eq_2)
  with zemaphore_parent_waits [OF r] r show ?thesis by blast
qed

end
