(* ===== verification/Counter.thy ===== *)
theory Counter
  imports Workers
begin

section \<open>A counter with a lock and a counter without\<close>

text \<open>
  \<^verbatim>\<open>timer.c\<close> increments an \<^verbatim>\<open>unsigned long long\<close> under a mutex from any number of threads;
  \<^verbatim>\<open>t1.c\<close> increments a plain \<^verbatim>\<open>int\<close> from two threads with no lock at all. In both an increment is
  a load and a store. The elapsed time is an argument of the report, as text.
\<close>

subsection \<open>The locked counter\<close>

datatype tm_pc = T_top int | T_lock int | T_load int | T_store int "64 word" | T_unlock int | T_done

record timer =
  tm_mutex :: int
  tm_counter :: "64 word"
  tm_pc :: "nat \<Rightarrow> tm_pc"

definition timer_init :: timer where
  "timer_init = \<lparr>tm_mutex = 1, tm_counter = 0, tm_pc = (\<lambda>_. T_top 0)\<rparr>"

definition tm_goto :: "nat \<Rightarrow> tm_pc \<Rightarrow> timer \<Rightarrow> timer" where
  "tm_goto i p s = s\<lparr>tm_pc := (tm_pc s)(i := p)\<rparr>"

definition thread_function :: "int \<Rightarrow> nat \<Rightarrow> timer \<Rightarrow> timer option" where
  "thread_function increments i s = (case tm_pc s i of
     T_top k \<Rightarrow> Some (tm_goto i (if k < increments then T_lock k else T_done) s)
   | T_lock k \<Rightarrow> if tm_mutex s = 1 then Some (tm_goto i (T_load k) (s\<lparr>tm_mutex := 0\<rparr>)) else None
   | T_load k \<Rightarrow> Some (tm_goto i (T_store k (tm_counter s)) s)
   | T_store k w \<Rightarrow> Some (tm_goto i (T_unlock k) (s\<lparr>tm_counter := w + 1\<rparr>))
   | T_unlock k \<Rightarrow> Some (tm_goto i (T_top (k + 1)) (s\<lparr>tm_mutex := 1\<rparr>))
   | T_done \<Rightarrow> None)"

definition tm_done :: "nat \<Rightarrow> timer \<Rightarrow> bool" where
  "tm_done i s \<longleftrightarrow> tm_pc s i = T_done"

definition timer_main :: "string list \<Rightarrow> (nat \<times> int \<times> timer pool) started cres" where
  "timer_main argv =
     (case argv of
        [prog, a1, a2] \<Rightarrow>
          cbind (atoi a1) (\<lambda>num_threads. cbind (atoi a2) (\<lambda>increments.
            Inr (Started (nat num_threads, increments, pool_init timer_init))))
      | _ \<Rightarrow> Inr (Exit 1))"

text \<open>
  What \<^verbatim>\<open>main\<close> does after the join; the text of the elapsed time comes from the clock.
\<close>

definition timer_report :: "string \<Rightarrow> timer \<Rightarrow> (string \<times> timer) cres" where
  "timer_report elapsed s =
     (let out = ''Final counter value: '' @ dec_nat (unat (tm_counter s)) @ [NL] @
        ''Elapsed time: '' @ elapsed @ '' seconds'' @ [NL]
      in cbind (mutex_destroy (tm_mutex s)) (\<lambda>m. Inr (out, s\<lparr>tm_mutex := m\<rparr>)))"

abbreviation timer_program :: "nat \<Rightarrow> int \<Rightarrow> timer pool \<Rightarrow> timer pool \<Rightarrow> bool" where
  "timer_program n L \<equiv> program n (thread_function L) tm_done"

lemmas tm_defs = thread_function_def tm_goto_def

fun tm_holds :: "tm_pc \<Rightarrow> int" where
  "tm_holds (T_load _) = 1" | "tm_holds (T_store _ _) = 1" | "tm_holds (T_unlock _) = 1" | "tm_holds _ = 0"

fun tm_made :: "int \<Rightarrow> tm_pc \<Rightarrow> int" where
  "tm_made L (T_top k) = k" | "tm_made L (T_lock k) = k" | "tm_made L (T_load k) = k"
| "tm_made L (T_store k _) = k" | "tm_made L (T_unlock k) = k + 1" | "tm_made L T_done = L"

fun tm_ok :: "int \<Rightarrow> 64 word \<Rightarrow> tm_pc \<Rightarrow> bool" where
  "tm_ok L c (T_top k) \<longleftrightarrow> 0 \<le> k \<and> k \<le> max 0 L"
| "tm_ok L c (T_lock k) \<longleftrightarrow> 0 \<le> k \<and> k < L" | "tm_ok L c (T_load k) \<longleftrightarrow> 0 \<le> k \<and> k < L"
| "tm_ok L c (T_store k w) \<longleftrightarrow> 0 \<le> k \<and> k < L \<and> w = c" | "tm_ok L c (T_unlock k) \<longleftrightarrow> 0 \<le> k \<and> k < L"
| "tm_ok L c T_done \<longleftrightarrow> True"

definition tm_inv :: "nat \<Rightarrow> int \<Rightarrow> timer \<Rightarrow> bool" where
  "tm_inv n L s \<longleftrightarrow> tm_mutex s + tsum n tm_holds (tm_pc s) = 1 \<and>
     tm_counter s = of_int (tsum n (tm_made (max 0 L)) (tm_pc s)) \<and>
     (\<forall>i<n. tm_ok L (tm_counter s) (tm_pc s i))"

lemma tm_inv_ok: "tm_inv n L s \<Longrightarrow> i < n \<Longrightarrow> tm_ok L (tm_counter s) (tm_pc s i)"
  unfolding tm_inv_def by blast

lemma tm_holds_nonneg: "0 \<le> tm_holds p" by (cases p) auto

lemma tm_alone:
  assumes "tm_inv n L s" "i < n" "j < n" "tm_holds (tm_pc s i) = 1" "tm_holds (tm_pc s j) = 1" "0 \<le> tm_mutex s"
  shows "i = j"
proof (rule tsum_unique [of n tm_holds "tm_pc s"])
  show "tsum n tm_holds (tm_pc s) \<le> 1" using assms(1,6) by (simp add: tm_inv_def)
qed (use assms tm_holds_nonneg in auto)

fun tm_rank :: "int \<Rightarrow> tm_pc \<Rightarrow> nat" where
  "tm_rank L (T_top k) = 6 * nat (L - k) + 5" | "tm_rank L (T_lock k) = 6 * nat (L - k) + 4"
| "tm_rank L (T_load k) = 6 * nat (L - k) + 3" | "tm_rank L (T_store k _) = 6 * nat (L - k) + 2"
| "tm_rank L (T_unlock k) = 6 * nat (L - k) + 1" | "tm_rank L T_done = 0"

lemma tm_step_inv:
  assumes inv: "tm_inv n L s" "0 \<le> tm_mutex s" and i: "i < n" and st: "thread_function L i s = Some t"
  shows "tm_inv n L t \<and> 0 \<le> tm_mutex t"
proof -
  have ok: "tm_ok L (tm_counter s) (tm_pc s i)" by (rule tm_inv_ok [OF inv(1) i])
  have fin: "max 0 L = k" if "tm_pc s i = T_top k" "\<not> k < L" for k
    using ok that by auto
  have ge: "tm_holds (tm_pc s i) \<le> tsum n tm_holds (tm_pc s)" by (rule tsum_ge [OF i tm_holds_nonneg])
  have c: "tm_mutex t + tsum n tm_holds (tm_pc t) = 1 \<and> 0 \<le> tm_mutex t \<and>
      tm_counter t = of_int (tsum n (tm_made (max 0 L)) (tm_pc t))"
    using inv i st ok ge by (cases "tm_pc s i") (auto simp: tm_inv_def tm_defs tsum_simps dest: fin split: if_splits)
  have "tm_ok L (tm_counter t) (tm_pc t j)" if j: "j < n" for j
  proof (cases "j = i")
    case True
    then show ?thesis using st ok by (cases "tm_pc s i") (auto simp: tm_defs split: if_splits)
  next
    case False
    have "tm_pc t j = tm_pc s j" "tm_counter t = tm_counter s \<or> tm_holds (tm_pc s i) = 1"
      using st False by (cases "tm_pc s i"; auto simp: tm_defs split: if_splits)+
    moreover have "tm_ok L (tm_counter s) (tm_pc s j)" by (rule tm_inv_ok [OF inv(1) j])
    moreover have "tm_holds (tm_pc s i) = 1 \<Longrightarrow> tm_holds (tm_pc s j) \<noteq> 1"
      using tm_alone [OF inv(1) i j _ _ inv(2)] False by auto
    ultimately show ?thesis by (cases "tm_pc s j") auto
  qed
  with c show ?thesis by (auto simp: tm_inv_def)
qed

lemma tm_step_pc:
  assumes "thread_function L i s = Some t" "tm_ok L (tm_counter s) (tm_pc s i)"
  shows "\<exists>p. tm_pc t = (tm_pc s)(i := p) \<and> tm_rank L p < tm_rank L (tm_pc s i) \<and> \<not> tm_done i s"
  using assms by (cases "tm_pc s i") (auto simp: tm_defs tm_done_def split: if_splits)

lemma tm_progress:
  assumes inv: "tm_inv n L s" "0 \<le> tm_mutex s" and i: "i < n" "\<not> tm_done i s"
  shows "\<exists>j<n. \<exists>t. thread_function L j s = Some t"
proof (cases "\<exists>j<n. 0 < tm_holds (tm_pc s j)")
  case True
  then obtain j where j: "j < n" "0 < tm_holds (tm_pc s j)" by blast
  then have "thread_function L j s \<noteq> None" by (cases "tm_pc s j") (auto simp: tm_defs)
  with j show ?thesis by blast
next
  case False
  then have "\<not> 0 < tsum n tm_holds (tm_pc s)" using tsum_pos by blast
  then have "tm_mutex s = 1"
    using inv tsum_nonneg [of n tm_holds "tm_pc s"] tm_holds_nonneg by (simp add: tm_inv_def)
  then have "thread_function L i s \<noteq> None" using i by (cases "tm_pc s i") (auto simp: tm_defs tm_done_def)
  with i show ?thesis by blast
qed

interpretation tm: returning_workers n "thread_function L" timer_init "\<lambda>s. tm_inv n L s \<and> 0 \<le> tm_mutex s" tm_done
  "\<lambda>s. tsum n (tm_rank L) (tm_pc s)" for n L
proof unfold_locales
  show "tm_inv n L timer_init \<and> 0 \<le> tm_mutex timer_init" by (simp add: tm_inv_def timer_init_def tsum_def)
  fix s t i j
  assume *: "tm_inv n L s \<and> 0 \<le> tm_mutex s" "i < n" "thread_function L i s = Some t"
  then have "tm_ok L (tm_counter s) (tm_pc s i)" using tm_inv_ok by blast
  note pc = tm_step_pc [OF *(3) this]
  show "tm_done j s \<Longrightarrow> tm_done j t" using pc by (cases "j = i") (auto simp: tm_done_def)
  show "tsum n (tm_rank L) (tm_pc t) < tsum n (tm_rank L) (tm_pc s)"
    using pc tsum_decrease [OF *(2), of "tm_rank L" _ "tm_pc s"] by auto
qed (use tm_step_inv tm_progress in blast)+

lemma atoi_example: "atoi ''4'' = Inr 4" "atoi ''5'' = Inr 5" "atoi ''1000'' = Inr 1000"
  by code_simp+

lemma tm_final:
  assumes "tm_inv n L s" "0 \<le> tm_mutex s" "\<forall>i<n. tm_done i s"
  shows "tm_counter s = of_int (int n * max 0 L) \<and> tm_mutex s = 1"
proof -
  have "tsum n (tm_made (max 0 L)) (tm_pc s) = int n * max 0 L"
    by (rule tsum_const) (use assms(3) in \<open>auto simp: tm_done_def\<close>)
  moreover have "tsum n tm_holds (tm_pc s) = 0"
    by (rule tsum_zero) (use assms(3) in \<open>auto simp: tm_done_def\<close>)
  ultimately show ?thesis using assms(1) by (simp add: tm_inv_def)
qed

lemma product_fits:
  assumes "0 \<le> L" "L \<le> INT_MAX" "int n \<le> INT_MAX"
  shows "unat (of_int (int n * L) :: 64 word) = n * nat L"
proof -
  have "int n * L \<le> INT_MAX * INT_MAX" using assms by (intro mult_mono) (auto simp: INT_MAX_def)
  then have "n * nat L < 2 ^ 64"
    using assms(1) by (simp add: INT_MAX_def flip: of_nat_less_iff [where 'a = int])
  then have "unat (of_nat (n * nat L) :: 64 word) = n * nat L" by (simp add: unat_of_nat take_bit_nat_eq_self del: of_nat_mult)
  moreover have "(of_int (int n * L) :: 64 word) = of_nat (n * nat L)" using assms(1) by simp
  ultimately show ?thesis by simp
qed

text \<open>C35: \<^verbatim>\<open>timer.c\<close> returns under every scheduling: it is never stuck and has no endless execution. It
  prints the exact number of threads times the number of increments, which always fits the 64 bits
  of the counter, and destroys a mutex that is free.\<close>

theorem timer_total:
  assumes "timer_main argv = Inr (Started (n, L, p0))" "reachable (timer_program n L) p0 p"
  shows "(\<exists>q. reachable (timer_program n L) p q \<and> ended q) \<and>
    (\<not> ended p \<longrightarrow> (\<exists>q. timer_program n L p q)) \<and>
    \<not> (\<exists>f. f 0 = p0 \<and> (\<forall>k. timer_program n L (f k) (f (Suc k)))) \<and>
    (ended p \<longrightarrow> timer_report elapsed (pool p) =
      Inr (''Final counter value: '' @ dec_nat (n * nat L) @ [NL] @ ''Elapsed time: '' @ elapsed @ '' seconds'' @ [NL],
           (pool p)\<lparr>tm_mutex := - 1\<rparr>))"
proof -
  have p0: "p0 = pool_init timer_init" and b: "L \<le> INT_MAX" "int n \<le> INT_MAX"
    using assms(1) by (auto simp: timer_main_def cbind_Inr_conv int_ok_simps dest!: atoi_ok split: list.splits)
  note r = assms(2) [unfolded p0]
  have "unat (of_int (int n * max 0 L) :: 64 word) = n * nat L"
    using product_fits [of "max 0 L" n] b by (cases "0 \<le> L") (auto simp: INT_MAX_def max_def)
  moreover have "tm_counter (pool p) = of_int (int n * max 0 L) \<and> tm_mutex (pool p) = 1" if "ended p"
    using tm.ended_workers [OF r that] tm_final by blast
  ultimately show ?thesis using tm.main_returns [OF r] unfolding p0 by (simp add: timer_report_def Let_def)
qed

theorem timer_total_witness:
  "\<exists>p0 q t. timer_main [''timer'', ''4'', ''1000''] = Inr (Started (4, 1000, p0)) \<and>
     reachable (timer_program 4 1000) p0 q \<and> ended q \<and>
     timer_report ''0.000100'' (pool q) = Inr (''Final counter value: 4000'' @ [NL] @ ''Elapsed time: 0.000100 seconds'' @ [NL], t)"
proof -
  have m: "timer_main [''timer'', ''4'', ''1000''] = Inr (Started (4, 1000, pool_init timer_init))"
    by (simp add: timer_main_def atoi_example)
  from timer_total [OF m reachable.start] obtain q where
    q: "reachable (timer_program 4 1000) (pool_init timer_init) q" "ended q" by blast
  moreover have "dec_nat (4 * nat 1000) = ''4000''" by code_simp
  ultimately show ?thesis using timer_total [OF m q(1), of "''0.000100''"] m by auto
qed


subsection \<open>The counter without a lock\<close>

datatype t1_pc = M_top int | M_store int int | M_done

record t1 =
  t1_counter :: int
  t1_pc :: "nat \<Rightarrow> t1_pc"

definition t1_init :: t1 where
  "t1_init = \<lparr>t1_counter = 0, t1_pc = (\<lambda>_. M_top 0)\<rparr>"

text \<open>\<^verbatim>\<open>counter = counter + 1\<close> on a volatile variable: a load, then a store of the sum.\<close>

definition mythread :: "int \<Rightarrow> nat \<Rightarrow> t1 \<Rightarrow> t1 option" where
  "mythread mx i s = (case t1_pc s i of
     M_top k \<Rightarrow>
       Some (s\<lparr>t1_pc := (t1_pc s)(i := if k < mx then M_store k (t1_counter s) else M_done)\<rparr>)
   | M_store k r \<Rightarrow> Some (s\<lparr>t1_counter := r + 1, t1_pc := (t1_pc s)(i := M_top (k + 1))\<rparr>)
   | M_done \<Rightarrow> None)"

definition t1_done :: "nat \<Rightarrow> t1 \<Rightarrow> bool" where
  "t1_done i s \<longleftrightarrow> t1_pc s i = M_done"

text \<open>The report multiplies the loop count by 2 in \<^verbatim>\<open>int\<close>, which must not overflow.\<close>

definition t1_main :: "string list \<Rightarrow> (int \<times> t1 pool) started cres" where
  "t1_main argv =
     (case argv of
        [prog, a1] \<Rightarrow> cbind (atoi a1) (\<lambda>mx. cbind (chk (mx * 2)) (\<lambda>_. Inr (Started (mx, pool_init t1_init))))
      | _ \<Rightarrow> Inr (Exit 1))"

abbreviation t1_program :: "int \<Rightarrow> t1 pool \<Rightarrow> t1 pool \<Rightarrow> bool" where
  "t1_program mx \<equiv> program 2 (mythread mx) t1_done"

fun t1_made :: "int \<Rightarrow> t1_pc \<Rightarrow> int" where
  "t1_made L (M_top k) = k" | "t1_made L (M_store k _) = k" | "t1_made L M_done = L"

fun t1_ok :: "int \<Rightarrow> t1_pc \<Rightarrow> bool" where
  "t1_ok L (M_top k) \<longleftrightarrow> 0 \<le> k \<and> k \<le> max 0 L" | "t1_ok L (M_store k r) \<longleftrightarrow> 0 \<le> k \<and> k < L \<and> 0 \<le> r"
| "t1_ok L M_done \<longleftrightarrow> True"

text \<open>Registers and counter never exceed the increments made; after the first store it is positive.\<close>

definition t1_inv :: "int \<Rightarrow> t1 \<Rightarrow> bool" where
  "t1_inv L s \<longleftrightarrow> 0 \<le> t1_counter s \<and> t1_counter s \<le> tsum 2 (t1_made (max 0 L)) (t1_pc s) \<and>
     (\<forall>i<2. t1_ok L (t1_pc s i)) \<and>
     (\<forall>i<2. \<forall>k r. t1_pc s i = M_store k r \<longrightarrow> r \<le> tsum 2 (t1_made (max 0 L)) (t1_pc s)) \<and>
     (0 < tsum 2 (t1_made (max 0 L)) (t1_pc s) \<longrightarrow> 0 < t1_counter s)"

fun t1_rank :: "int \<Rightarrow> t1_pc \<Rightarrow> nat" where
  "t1_rank L (M_top k) = 2 * nat (L - k) + 1" | "t1_rank L (M_store k _) = 2 * nat (L - k)"
| "t1_rank L M_done = 0"

lemma t1_step_inv:
  assumes inv: "t1_inv L s" and i: "i < 2" and st: "mythread L i s = Some t"
  shows "t1_inv L t"
proof -
  have ok: "t1_ok L (t1_pc s i)" using inv i unfolding t1_inv_def by blast
  have fin: "max 0 L = k" if "t1_pc s i = M_top k" "\<not> k < L" for k using ok that by auto
  show ?thesis
  proof (cases "t1_pc s i")
    case (M_top k)
    have made: "tsum 2 (t1_made (max 0 L)) (t1_pc t) = tsum 2 (t1_made (max 0 L)) (t1_pc s)"
      using st M_top i fin by (auto simp: mythread_def tsum_simps)
    show ?thesis using inv i st M_top ok unfolding t1_inv_def made
      by (auto simp: mythread_def split: if_splits)
  next
    case (M_store k r)
    have made: "tsum 2 (t1_made (max 0 L)) (t1_pc t) = tsum 2 (t1_made (max 0 L)) (t1_pc s) + 1"
      using st M_store i by (auto simp: mythread_def tsum_simps)
    have "r \<le> tsum 2 (t1_made (max 0 L)) (t1_pc s)" using inv i M_store unfolding t1_inv_def by blast
    then show ?thesis using inv i st M_store ok unfolding t1_inv_def made
      by (fastforce simp: mythread_def split: if_splits)
  next
    case M_done
    then show ?thesis using st by (simp add: mythread_def)
  qed
qed

lemma t1_step_pc:
  assumes "mythread L i s = Some t" "t1_ok L (t1_pc s i)"
  shows "\<exists>p. t1_pc t = (t1_pc s)(i := p) \<and> t1_rank L p < t1_rank L (t1_pc s i) \<and> \<not> t1_done i s"
  using assms by (cases "t1_pc s i") (auto simp: mythread_def t1_done_def split: if_splits)

interpretation t1: returning_workers 2 "mythread L" t1_init "t1_inv L" t1_done
  "\<lambda>s. tsum 2 (t1_rank L) (t1_pc s)" for L
proof unfold_locales
  show "t1_inv L t1_init" by (simp add: t1_inv_def t1_init_def tsum_def)
  fix s t i j
  assume *: "t1_inv L s" "i < 2" "mythread L i s = Some t"
  then have "t1_ok L (t1_pc s i)" unfolding t1_inv_def by blast
  note pc = t1_step_pc [OF *(3) this]
  show "t1_done j s \<Longrightarrow> t1_done j t" using pc by (cases "j = i") (auto simp: t1_done_def)
  show "tsum 2 (t1_rank L) (t1_pc t) < tsum 2 (t1_rank L) (t1_pc s)"
    using pc tsum_decrease [OF *(2), of "t1_rank L" _ "t1_pc s"] by auto
next
  fix s i
  assume "i < 2" "\<not> t1_done i s"
  then show "\<exists>j<2. \<exists>t. mythread L j s = Some t"
    by (intro exI [of _ i]) (cases "t1_pc s i"; simp add: mythread_def t1_done_def)
qed (use t1_step_inv in blast)

text \<open>Without a lock the counter of \<^verbatim>\<open>t1.c\<close> ends between 1 and twice the loop count, never
  above what the program says it should be.\<close>

theorem t1_range:
  assumes "t1_main argv = Inr (Started (L, p0))" "reachable (t1_program L) p0 p" "ended p" "0 < L"
  shows "1 \<le> t1_counter (pool p) \<and> t1_counter (pool p) \<le> 2 * L \<and> int_ok (t1_counter (pool p))"
proof -
  have p0: "p0 = pool_init t1_init" and L: "int_ok (L * 2)"
    using assms(1) by (auto simp: t1_main_def cbind_Inr_conv split: list.splits)
  have w: "t1_inv L (pool p)" "\<forall>i<2. t1_done i (pool p)"
    using t1.ended_workers [OF assms(2,3) [unfolded p0]] by auto
  then have "tsum 2 (t1_made (max 0 L)) (t1_pc (pool p)) = int 2 * max 0 L"
    by (intro tsum_const) (auto simp: t1_done_def)
  with w assms(4) L show ?thesis by (simp add: t1_inv_def int_ok_simps)
qed

text \<open>The schedule that loses nearly all increments: a store of an old value wipes out the other
  thread's work, once in each direction.\<close>

definition losing_interleaving :: "nat list" where
  "losing_interleaving = [2, 2, 0] @ replicate 8 1 @ [0, 1] @ replicate 9 0 @ [1, 1, 2, 2, 2]"

lemma losing_interleaving_run:
  "\<exists>p. reachable (program 2 (mythread 5) t1_done) (pool_init t1_init) p \<and> ended p \<and> t1_counter (pool p) = 2"
proof -
  define res where "res = run_sched (pool_step 2 (mythread 5) t1_done) losing_interleaving (pool_init t1_init)"
  have "case res of None \<Rightarrow> False | Some p \<Rightarrow> ended p \<and> t1_counter (pool p) = 2" unfolding res_def by code_simp
  then obtain p where p: "res = Some p" "ended p" "t1_counter (pool p) = 2" by (auto split: option.splits)
  have "reachable (program 2 (mythread 5) t1_done) (pool_init t1_init) p"
    by (rule run_sched_reachable [OF p(1) [unfolded res_def]]) (auto simp: losing_interleaving_def)
  with p show ?thesis by blast
qed

theorem t1_range_witness:
  "\<exists>p. reachable (t1_program 5) (pool_init t1_init) p \<and> ended p \<and>
     1 \<le> t1_counter (pool p) \<and> t1_counter (pool p) \<le> 10"
proof -
  have "t1_main [''t1'', ''5''] = Inr (Started (5, pool_init t1_init))"
    by (simp add: t1_main_def atoi_example int_ok_simps chk_def)
  from t1_range [OF this] losing_interleaving_run show ?thesis by fastforce
qed

text \<open>The race is real: with a loop count of 5 there is an execution that returns with the counter
  at 2 instead of 10.\<close>

theorem t1_loses_updates:
  "\<exists>p. reachable (program 2 (mythread 5) t1_done) (pool_init t1_init) p \<and> ended p \<and>
     t1_counter (pool p) = 2"
  by (rule losing_interleaving_run)

end
