(* ===== verification/SloppyCounter.thy ===== *)
theory SloppyCounter
  imports Workers
begin

section \<open>Sloppy counters\<close>

text \<open>
  The three counters under \<^verbatim>\<open>locked-data-structures/2\<close>: one slot per thread with a lock of its own
  (\<^verbatim>\<open>sloppy_counter.c\<close>), one slot per processor, shared by several threads
  (\<^verbatim>\<open>cpu_based/sloppy_counter_cpu_based.c\<close>), and one private slot per thread without locks
  (\<^verbatim>\<open>cloppy_counter_only_global_lock.c\<close>). The first two run the same function on a slot, which is
  the thread number or its remainder by the number of processors; the slot function is a parameter
  here. Every read-modify-write is a load and a store. The counts are unbounded in the steps of the
  threads; it is shown that they stay within \<^verbatim>\<open>int\<close> in every execution whose expected total does, and
  the sums of the report are checked.
\<close>

subsection \<open>The programs\<close>

datatype sl_pc = S_start | S_top int | S_lock int | S_load int | S_store int int | S_test int
  | S_glock int | S_gload int | S_gstore int int | S_gunlock int | S_reset int | S_unlock int | S_done

record sloppy_counter_t =
  global_count :: int
  global_lock :: int
  local_counts :: "nat \<Rightarrow> int"
  local_locks :: "nat \<Rightarrow> int"
  sl_pc :: "nat \<Rightarrow> sl_pc"

text \<open>
  In the version without local locks the counts are fields of the thread arguments, which \<^verbatim>\<open>malloc\<close>
  leaves with any contents and every thread zeroes when it starts.
\<close>

definition sloppy_counter_init :: sloppy_counter_t where
  "sloppy_counter_init = \<lparr>global_count = 0, global_lock = 1, local_counts = (\<lambda>_. 0), local_locks = (\<lambda>_. 1),
     sl_pc = (\<lambda>_. S_start)\<rparr>"

abbreviation cpu_counter_init :: sloppy_counter_t where
  "cpu_counter_init \<equiv> sloppy_counter_init"

definition cloppy_counter_init :: "(nat \<Rightarrow> int) \<Rightarrow> sloppy_counter_t" where
  "cloppy_counter_init garbage = \<lparr>global_count = 0, global_lock = 1, local_counts = garbage, local_locks = (\<lambda>_. 1),
     sl_pc = (\<lambda>_. S_start)\<rparr>"

definition sl_goto :: "nat \<Rightarrow> sl_pc \<Rightarrow> sloppy_counter_t \<Rightarrow> sloppy_counter_t" where
  "sl_goto i p s = s\<lparr>sl_pc := (sl_pc s)(i := p)\<rparr>"

text \<open>\<^verbatim>\<open>sloppy_counter_update\<close> on slot \<open>c\<close> with threshold \<open>T\<close>.\<close>

definition sloppy_counter_update ::
  "int \<Rightarrow> nat \<Rightarrow> nat \<Rightarrow> sloppy_counter_t \<Rightarrow> sloppy_counter_t option" where
  "sloppy_counter_update T c i s = (case sl_pc s i of
     S_lock k \<Rightarrow>
       if local_locks s c = 1 then Some (sl_goto i (S_load k) (s\<lparr>local_locks := (local_locks s)(c := 0)\<rparr>)) else None
   | S_load k \<Rightarrow> Some (sl_goto i (S_store k (local_counts s c)) s)
   | S_store k r \<Rightarrow> Some (sl_goto i (S_test k) (s\<lparr>local_counts := (local_counts s)(c := r + 1)\<rparr>))
   | S_test k \<Rightarrow> Some (sl_goto i (if T \<le> local_counts s c then S_glock k else S_unlock k) s)
   | S_glock k \<Rightarrow> if global_lock s = 1 then Some (sl_goto i (S_gload k) (s\<lparr>global_lock := 0\<rparr>)) else None
   | S_gload k \<Rightarrow> Some (sl_goto i (S_gstore k (global_count s)) s)
   | S_gstore k r \<Rightarrow> Some (sl_goto i (S_gunlock k) (s\<lparr>global_count := r + local_counts s c\<rparr>))
   | S_gunlock k \<Rightarrow> Some (sl_goto i (S_reset k) (s\<lparr>global_lock := 1\<rparr>))
   | S_reset k \<Rightarrow> Some (sl_goto i (S_unlock k) (s\<lparr>local_counts := (local_counts s)(c := 0)\<rparr>))
   | S_unlock k \<Rightarrow> Some (sl_goto i (S_top (k + 1)) (s\<lparr>local_locks := (local_locks s)(c := 1)\<rparr>))
   | _ \<Rightarrow> None)"

text \<open>The loop of a thread around its update function.\<close>

definition sl_thread_func :: "(nat \<Rightarrow> sloppy_counter_t \<Rightarrow> sloppy_counter_t option) \<Rightarrow> int \<Rightarrow> nat \<Rightarrow>
    sloppy_counter_t \<Rightarrow> sloppy_counter_t option" where
  "sl_thread_func update increments i s = (case sl_pc s i of
     S_start \<Rightarrow> Some (sl_goto i (S_top 0) s)
   | S_top k \<Rightarrow> Some (sl_goto i (if k < increments then S_lock k else S_done) s)
   | S_done \<Rightarrow> None
   | _ \<Rightarrow> update i s)"

text \<open>
  \<^verbatim>\<open>sloppy_counter_get\<close> and \<^verbatim>\<open>sloppy_counter_destroy\<close>, which \<^verbatim>\<open>main\<close> calls once the threads are joined.
\<close>

definition sloppy_counter_get :: "nat \<Rightarrow> sloppy_counter_t \<Rightarrow> int cres" where
  "sloppy_counter_get num s =
     fold (\<lambda>i total. cbind total (\<lambda>x. with_mutex (local_locks s i) (chk (x + local_counts s i)))) [0..<num]
       (with_mutex (global_lock s) (Inr (global_count s)))"

definition sloppy_counter_destroy :: "nat \<Rightarrow> sloppy_counter_t \<Rightarrow> sloppy_counter_t cres" where
  "sloppy_counter_destroy num s =
     fold (\<lambda>i r. cbind r (\<lambda>s'. cbind (mutex_destroy (local_locks s' i)) (\<lambda>m.
         Inr (s'\<lparr>local_locks := (local_locks s')(i := m)\<rparr>)))) [0..<num]
       (cbind (mutex_destroy (global_lock s)) (\<lambda>m. Inr (s\<lparr>global_lock := m\<rparr>)))"

text \<open>The output of the three programs; the elapsed time is text from the clock.\<close>

definition report_text :: "string \<Rightarrow> int \<Rightarrow> int \<Rightarrow> string" where
  "report_text elapsed final_count expected =
     ''Time taken: '' @ elapsed @ '' ms'' @ [NL] @
     ''Final counter value: '' @ dec_int final_count @ [NL] @
     ''Expected value: '' @ dec_int expected @ [NL]"

definition sloppy_report :: "nat \<Rightarrow> int \<Rightarrow> string \<Rightarrow> sloppy_counter_t \<Rightarrow> (string \<times> sloppy_counter_t) cres" where
  "sloppy_report num_threads increments elapsed s =
     cbind (sloppy_counter_get num_threads s) (\<lambda>final_count.
     cbind (chk (int num_threads * increments)) (\<lambda>expected.
     cbind (sloppy_counter_destroy num_threads s) (\<lambda>s'.
       Inr (report_text elapsed final_count expected, s'))))"

text \<open>\<^verbatim>\<open>sloppy_counter.c\<close>: a slot for every thread.\<close>

definition thread_func :: "int \<Rightarrow> nat \<Rightarrow> sloppy_counter_t \<Rightarrow> sloppy_counter_t option" where
  "thread_func increments = sl_thread_func (\<lambda>thread_id. sloppy_counter_update 1000000 thread_id thread_id) increments"

text \<open>
  \<^verbatim>\<open>sloppy_counter_cpu_based.c\<close>: the same functions on slots for the processors; \<^verbatim>\<open>main\<close> maps thread
  \<open>i\<close> to the slot \<^verbatim>\<open>i % num_cpus\<close>.
\<close>

definition cpu_counter_update :: "nat \<Rightarrow> nat \<Rightarrow> sloppy_counter_t \<Rightarrow> sloppy_counter_t option" where
  "cpu_counter_update cpu_core = sloppy_counter_update 1000 cpu_core"

definition cpu_thread_func :: "nat \<Rightarrow> int \<Rightarrow> nat \<Rightarrow> sloppy_counter_t \<Rightarrow> sloppy_counter_t option" where
  "cpu_thread_func num_cpus increments = sl_thread_func (\<lambda>i. cpu_counter_update (i mod num_cpus) i) increments"

definition cpu_counter_get :: "nat \<Rightarrow> sloppy_counter_t \<Rightarrow> int cres" where
  "cpu_counter_get num_cpus = sloppy_counter_get num_cpus"

definition cpu_counter_destroy :: "nat \<Rightarrow> sloppy_counter_t \<Rightarrow> sloppy_counter_t cres" where
  "cpu_counter_destroy num_cpus = sloppy_counter_destroy num_cpus"

definition cpu_report :: "nat \<Rightarrow> nat \<Rightarrow> int \<Rightarrow> string \<Rightarrow> sloppy_counter_t \<Rightarrow> (string \<times> sloppy_counter_t) cres" where
  "cpu_report num_cpus num_threads increments elapsed s =
     cbind (cpu_counter_get num_cpus s) (\<lambda>final_count.
     cbind (chk (int num_threads * increments)) (\<lambda>expected.
     cbind (cpu_counter_destroy num_cpus s) (\<lambda>s'.
       Inr (report_text elapsed final_count expected, s'))))"

text \<open>
  \<^verbatim>\<open>cloppy_counter_only_global_lock.c\<close>: the count of a thread is its own, the thread zeroes it before
  its loop, and there are no points around a local lock. \<^verbatim>\<open>main\<close> collects the counts in an array
  for \<^verbatim>\<open>sloppy_counter_get\<close>.
\<close>

definition cloppy_counter_update :: "nat \<Rightarrow> sloppy_counter_t \<Rightarrow> sloppy_counter_t option" where
  "cloppy_counter_update i s = (case sl_pc s i of
     S_load k \<Rightarrow> Some (sl_goto i (S_store k (local_counts s i)) s)
   | S_store k r \<Rightarrow> Some (sl_goto i (S_test k) (s\<lparr>local_counts := (local_counts s)(i := r + 1)\<rparr>))
   | S_test k \<Rightarrow> Some (sl_goto i (if 1000 \<le> local_counts s i then S_glock k else S_top (k + 1)) s)
   | S_glock k \<Rightarrow> if global_lock s = 1 then Some (sl_goto i (S_gload k) (s\<lparr>global_lock := 0\<rparr>)) else None
   | S_gload k \<Rightarrow> Some (sl_goto i (S_gstore k (global_count s)) s)
   | S_gstore k r \<Rightarrow> Some (sl_goto i (S_gunlock k) (s\<lparr>global_count := r + local_counts s i\<rparr>))
   | S_gunlock k \<Rightarrow> Some (sl_goto i (S_reset k) (s\<lparr>global_lock := 1\<rparr>))
   | S_reset k \<Rightarrow> Some (sl_goto i (S_top (k + 1)) (s\<lparr>local_counts := (local_counts s)(i := 0)\<rparr>))
   | _ \<Rightarrow> None)"

definition cloppy_thread_func :: "int \<Rightarrow> nat \<Rightarrow> sloppy_counter_t \<Rightarrow> sloppy_counter_t option" where
  "cloppy_thread_func increments i s = (case sl_pc s i of
     S_start \<Rightarrow> Some (sl_goto i (S_top 0) (s\<lparr>local_counts := (local_counts s)(i := 0)\<rparr>))
   | S_top k \<Rightarrow> Some (sl_goto i (if k < increments then S_load k else S_done) s)
   | S_done \<Rightarrow> None
   | _ \<Rightarrow> cloppy_counter_update i s)"

definition cloppy_counter_get :: "int list \<Rightarrow> sloppy_counter_t \<Rightarrow> int cres" where
  "cloppy_counter_get counts s =
     fold (\<lambda>c total. cbind total (\<lambda>x. chk (x + c))) counts (with_mutex (global_lock s) (Inr (global_count s)))"

definition cloppy_counter_destroy :: "sloppy_counter_t \<Rightarrow> sloppy_counter_t cres" where
  "cloppy_counter_destroy s = cbind (mutex_destroy (global_lock s)) (\<lambda>m. Inr (s\<lparr>global_lock := m\<rparr>))"

definition cloppy_report :: "nat \<Rightarrow> int \<Rightarrow> string \<Rightarrow> sloppy_counter_t \<Rightarrow> (string \<times> sloppy_counter_t) cres" where
  "cloppy_report num_threads increments elapsed s =
     cbind (cloppy_counter_get (map (local_counts s) [0..<num_threads]) s) (\<lambda>final_count.
     cbind (chk (int num_threads * increments)) (\<lambda>expected.
     cbind (cloppy_counter_destroy s) (\<lambda>s'.
       Inr (report_text elapsed final_count expected, s'))))"

definition sl_done :: "nat \<Rightarrow> sloppy_counter_t \<Rightarrow> bool" where
  "sl_done i s \<longleftrightarrow> sl_pc s i = S_done"

text \<open>
  The arguments are checked the same way by the three \<^verbatim>\<open>main\<close> functions, which then run as many
  threads as the first says, each with as many increments as the second.
\<close>

datatype sl_start = Usage | Not_positive | Run nat int

definition sloppy_main :: "string list \<Rightarrow> sl_start cres" where
  "sloppy_main argv =
     (case argv of
        [prog, a1, a2] \<Rightarrow>
          cbind (atoi a1) (\<lambda>num_threads.
          cbind (atoi a2) (\<lambda>increments_per_thread.
            if num_threads \<le> 0 \<or> increments_per_thread \<le> 0 then Inr Not_positive
            else Inr (Run (nat num_threads) increments_per_thread)))
      | _ \<Rightarrow> Inr Usage)"

text \<open>The three programs read their arguments with the same text.\<close>

abbreviation cpu_main :: "string list \<Rightarrow> sl_start cres" where
  "cpu_main \<equiv> sloppy_main"

abbreviation cloppy_main :: "string list \<Rightarrow> sl_start cres" where
  "cloppy_main \<equiv> sloppy_main"

abbreviation sloppy_program :: "nat \<Rightarrow> int \<Rightarrow> sloppy_counter_t pool \<Rightarrow> sloppy_counter_t pool \<Rightarrow> bool" where
  "sloppy_program n L \<equiv> program n (thread_func L) sl_done"

abbreviation cpu_program :: "nat \<Rightarrow> nat \<Rightarrow> int \<Rightarrow> sloppy_counter_t pool \<Rightarrow> sloppy_counter_t pool \<Rightarrow> bool" where
  "cpu_program num_cpus n L \<equiv> program n (cpu_thread_func num_cpus L) sl_done"

abbreviation cloppy_program :: "nat \<Rightarrow> int \<Rightarrow> sloppy_counter_t pool \<Rightarrow> sloppy_counter_t pool \<Rightarrow> bool" where
  "cloppy_program n L \<equiv> program n (cloppy_thread_func L) sl_done"

text \<open>The two versions with local locks, for any slots and any threshold.\<close>

abbreviation sl_worker :: "int \<Rightarrow> (nat \<Rightarrow> nat) \<Rightarrow> int \<Rightarrow> nat \<Rightarrow> sloppy_counter_t \<Rightarrow> sloppy_counter_t option" where
  "sl_worker T slot \<equiv> sl_thread_func (\<lambda>i. sloppy_counter_update T (slot i) i)"

lemmas sl_defs = sl_thread_func_def sloppy_counter_update_def sl_goto_def
lemmas cl_defs = cloppy_thread_func_def cloppy_counter_update_def sl_goto_def

subsection \<open>The invariant the three share\<close>

fun inside :: "sl_pc \<Rightarrow> bool" where
  "inside S_start = False" | "inside (S_top _) = False" | "inside (S_lock _) = False" | "inside S_done = False" | "inside _ = True"

fun g_holds :: "sl_pc \<Rightarrow> int" where
  "g_holds (S_gload _) = 1" | "g_holds (S_gstore _ _) = 1" | "g_holds (S_gunlock _) = 1" | "g_holds _ = 0"

fun sl_made :: "int \<Rightarrow> sl_pc \<Rightarrow> int" where
  "sl_made L S_start = 0" | "sl_made L (S_top k) = k" | "sl_made L (S_lock k) = k" | "sl_made L (S_load k) = k" | "sl_made L (S_store k _) = k"
| "sl_made L (S_test k) = k + 1" | "sl_made L (S_glock k) = k + 1" | "sl_made L (S_gload k) = k + 1"
| "sl_made L (S_gstore k _) = k + 1" | "sl_made L (S_gunlock k) = k + 1" | "sl_made L (S_reset k) = k + 1"
| "sl_made L (S_unlock k) = k + 1" | "sl_made L S_done = L"

text \<open>Between the addition to the global count and the reset of the slot the slot counts twice.\<close>

fun twice :: "int \<times> sl_pc \<Rightarrow> int" where
  "twice (l, S_gunlock _) = l" | "twice (l, S_reset _) = l" | "twice _ = 0"

fun sl_ok :: "int \<Rightarrow> int \<Rightarrow> int \<Rightarrow> int \<Rightarrow> sl_pc \<Rightarrow> bool" where
  "sl_ok T L g l S_start \<longleftrightarrow> True" | "sl_ok T L g l (S_top k) \<longleftrightarrow> 0 \<le> k \<and> k \<le> max 0 L" | "sl_ok T L g l (S_lock k) \<longleftrightarrow> 0 \<le> k \<and> k < L"
| "sl_ok T L g l (S_load k) \<longleftrightarrow> 0 \<le> k \<and> k < L \<and> l < T"
| "sl_ok T L g l (S_store k r) \<longleftrightarrow> 0 \<le> k \<and> k < L \<and> r = l \<and> l < T"
| "sl_ok T L g l (S_test k) \<longleftrightarrow> 0 \<le> k \<and> k < L"
| "sl_ok T L g l (S_glock k) \<longleftrightarrow> 0 \<le> k \<and> k < L \<and> l = T" | "sl_ok T L g l (S_gload k) \<longleftrightarrow> 0 \<le> k \<and> k < L \<and> l = T"
| "sl_ok T L g l (S_gstore k r) \<longleftrightarrow> 0 \<le> k \<and> k < L \<and> r = g \<and> l = T"
| "sl_ok T L g l (S_gunlock k) \<longleftrightarrow> 0 \<le> k \<and> k < L \<and> l = T"
| "sl_ok T L g l (S_reset k) \<longleftrightarrow> 0 \<le> k \<and> k < L \<and> l = T"
| "sl_ok T L g l (S_unlock k) \<longleftrightarrow> 0 \<le> k \<and> k < L \<and> l < T" | "sl_ok T L g l S_done \<longleftrightarrow> True"

definition view :: "(nat \<Rightarrow> nat) \<Rightarrow> sloppy_counter_t \<Rightarrow> nat \<Rightarrow> int \<times> sl_pc" where
  "view slot s i = (local_counts s (slot i), sl_pc s i)"

definition exclusive :: "nat \<Rightarrow> (nat \<Rightarrow> nat) \<Rightarrow> sloppy_counter_t \<Rightarrow> bool" where
  "exclusive n slot s \<longleftrightarrow>
     (\<forall>i<n. \<forall>j<n. i \<noteq> j \<longrightarrow> inside (sl_pc s i) \<longrightarrow> inside (sl_pc s j) \<longrightarrow> slot i \<noteq> slot j)"

definition sl_core :: "nat \<Rightarrow> nat \<Rightarrow> (nat \<Rightarrow> nat) \<Rightarrow> int \<Rightarrow> int \<Rightarrow> sloppy_counter_t \<Rightarrow> bool" where
  "sl_core n num slot T L s \<longleftrightarrow>
     0 \<le> global_lock s \<and> global_lock s + tsum n g_holds (sl_pc s) = 1 \<and> 0 \<le> global_count s \<and>
     global_count s + (\<Sum>c<num. local_counts s c) - tsum n twice (view slot s) =
       tsum n (sl_made (max 0 L)) (sl_pc s) \<and>
     (\<forall>i<n. sl_ok T L (global_count s) (local_counts s (slot i)) (sl_pc s i)) \<and>
     (\<forall>c<num. 0 \<le> local_counts s c \<and> local_counts s c \<le> T) \<and>
     (\<forall>c<num. (\<forall>i<n. slot i = c \<longrightarrow> \<not> inside (sl_pc s i)) \<longrightarrow> local_counts s c < T)"

lemma g_holds_nonneg: "0 \<le> g_holds p" by (cases p) auto

lemma g_alone:
  assumes "sl_core n num slot T L s" "i < n" "j < n" "g_holds (sl_pc s i) = 1" "g_holds (sl_pc s j) = 1"
  shows "i = j"
proof (rule tsum_unique [of n g_holds "sl_pc s"])
  show "tsum n g_holds (sl_pc s) \<le> 1" using assms(1) by (simp add: sl_core_def)
qed (use assms g_holds_nonneg in auto)

lemma slot_sum:
  fixes f :: "nat \<Rightarrow> int"
  assumes "c < num"
  shows "(\<Sum>d<num. (f(c := x)) d) = (\<Sum>d<num. f d) - f c + x"
  using tsum_upd [OF assms, of "\<lambda>y. y" f x] by (simp add: tsum_def)


lemma twice_outside: "\<not> inside p \<Longrightarrow> twice (l, p) = 0"
  by (cases p) auto

lemma ok_outside: "\<not> inside p \<Longrightarrow> sl_ok T L g l p \<longleftrightarrow> sl_ok T L g' l' p"
  by (cases p) auto

lemma ok_global: "g_holds p \<noteq> 1 \<Longrightarrow> sl_ok T L g l p \<longleftrightarrow> sl_ok T L g' l p"
  by (cases p) auto

lemma core_ok: "sl_core n num slot T L s \<Longrightarrow> i < n \<Longrightarrow>
    sl_ok T L (global_count s) (local_counts s (slot i)) (sl_pc s i)"
  unfolding sl_core_def by blast

lemma core_below: "sl_core n num slot T L s \<Longrightarrow> c < num \<Longrightarrow> \<forall>i<n. slot i = c \<longrightarrow> \<not> inside (sl_pc s i) \<Longrightarrow>
    local_counts s c < T"
  unfolding sl_core_def by blast

lemma core_balance: "sl_core n num slot T L s \<Longrightarrow>
    global_count s + (\<Sum>c<num. local_counts s c) - tsum n twice (view slot s) = tsum n (sl_made (max 0 L)) (sl_pc s)"
  unfolding sl_core_def by blast

text \<open>
  A step of thread \<open>i\<close> changes its own slot and its own point, and the global count only while it
  holds the global lock; the equations say what it must keep in balance.
\<close>

definition sl_moves :: "nat \<Rightarrow> (nat \<Rightarrow> nat) \<Rightarrow> int \<Rightarrow> int \<Rightarrow> nat \<Rightarrow> int \<Rightarrow> sl_pc \<Rightarrow> sloppy_counter_t \<Rightarrow> sloppy_counter_t \<Rightarrow> bool" where
  "sl_moves n slot T L i l' p' s t \<longleftrightarrow>
     local_counts t = (local_counts s)(slot i := l') \<and> sl_pc t = (sl_pc s)(i := p') \<and>
     0 \<le> global_lock t \<and> global_lock t + g_holds p' = global_lock s + g_holds (sl_pc s i) \<and>
     global_count t + l' - twice (l', p') - sl_made (max 0 L) p' =
       global_count s + local_counts s (slot i) - twice (local_counts s (slot i), sl_pc s i) - sl_made (max 0 L) (sl_pc s i) \<and>
     sl_ok T L (global_count t) l' p' \<and> 0 \<le> l' \<and> l' \<le> T \<and>
     (\<not> inside p' \<longrightarrow> l' < T \<or> \<not> inside (sl_pc s i) \<and> l' = local_counts s (slot i)) \<and>
     (\<forall>j<n. j \<noteq> i \<longrightarrow> slot j = slot i \<longrightarrow> l' = local_counts s (slot i) \<or> \<not> inside (sl_pc s j)) \<and>
     (global_count t = global_count s \<or> global_count s \<le> global_count t \<and> g_holds (sl_pc s i) = 1)"

lemma moves_others:
  assumes "sl_moves n slot T L i l' p' s t" "k < n" "k \<noteq> i"
  shows "view slot t k = view slot s k \<or> slot k = slot i \<and> \<not> inside (sl_pc s k) \<and> sl_pc t k = sl_pc s k"
  using assms by (auto simp: sl_moves_def view_def)

lemma moves_twice:
  assumes m: "sl_moves n slot T L i l' p' s t" and i: "i < n"
  shows "tsum n twice (view slot t) =
    tsum n twice (view slot s) + twice (l', p') - twice (local_counts s (slot i), sl_pc s i)"
proof -
  have "tsum n twice (view slot t) = tsum n twice (view slot s) + twice (view slot t i) - twice (view slot s i)"
  proof (rule tsum_differ [OF i])
    show "twice (view slot t k) = twice (view slot s k)" if "k < n" "k \<noteq> i" for k
      using moves_others [OF m that] twice_outside by (auto simp: view_def)
  qed
  then show ?thesis using m by (simp add: view_def sl_moves_def)
qed

lemma moves_ok:
  assumes m: "sl_moves n slot T L i l' p' s t" and core: "sl_core n num slot T L s" and i: "i < n" and j: "j < n"
  shows "sl_ok T L (global_count t) (local_counts t (slot j)) (sl_pc t j)"
proof (cases "j = i")
  case True
  with m show ?thesis by (simp add: sl_moves_def)
next
  case False
  have "global_count t = global_count s \<or> g_holds (sl_pc s j) \<noteq> 1"
    using m g_alone [OF core i j] False unfolding sl_moves_def by blast
  then have "sl_ok T L (global_count t) (local_counts s (slot j)) (sl_pc s j)"
    using core_ok [OF core j] ok_global by metis
  then show ?thesis
    using moves_others [OF m j False] ok_outside [of "sl_pc s j" T L "global_count t" "local_counts s (slot j)" "global_count t" "local_counts t (slot j)"]
    by (auto simp: view_def)
qed

lemma moves_below:
  assumes m: "sl_moves n slot T L i l' p' s t" and core: "sl_core n num slot T L s" and i: "i < n" "slot i < num"
    and d: "d < num" "\<forall>j<n. slot j = d \<longrightarrow> \<not> inside (sl_pc t j)"
  shows "local_counts t d < T"
proof (cases "d = slot i")
  case True
  have t: "local_counts t = (local_counts s)(slot i := l')" "sl_pc t = (sl_pc s)(i := p')"
    using m by (simp_all add: sl_moves_def)
  have "\<not> inside p'" using d(2) True i by (auto simp: t)
  then have "l' < T \<or> \<not> inside (sl_pc s i) \<and> l' = local_counts s (slot i)" using m by (simp add: sl_moves_def)
  moreover have "local_counts s (slot i) < T" if "\<not> inside (sl_pc s i)"
    by (rule core_below [OF core i(2)]) (use that d(2) True in \<open>auto simp: t split: if_splits\<close>)
  ultimately show ?thesis using True by (auto simp: t)
next
  case False
  with m d core show ?thesis by (auto simp: sl_moves_def sl_core_def split: if_splits)
qed

lemma core_step:
  assumes m: "sl_moves n slot T L i l' p' s t" and core: "sl_core n num slot T L s" and i: "i < n" "slot i < num"
  shows "sl_core n num slot T L t"
proof -
  have t: "local_counts t = (local_counts s)(slot i := l')" "sl_pc t = (sl_pc s)(i := p')"
    using m by (simp_all add: sl_moves_def)
  have range: "0 \<le> local_counts t d \<and> local_counts t d \<le> T" if "d < num" for d
    using core m that unfolding sl_core_def t by (simp add: sl_moves_def)
  have "global_lock t + tsum n g_holds (sl_pc t) = 1" "0 \<le> global_lock t"
    using core m i by (simp_all add: sl_core_def t tsum_simps sl_moves_def)
  moreover have "global_count t + (\<Sum>d<num. local_counts t d) - tsum n twice (view slot t) =
       tsum n (sl_made (max 0 L)) (sl_pc t)"
    using core_balance [OF core] m
    unfolding moves_twice [OF m i(1)] t slot_sum [OF i(2)] tsum_upd [OF i(1)] sl_moves_def by linarith
  moreover have "0 \<le> global_count t" using core m unfolding sl_core_def sl_moves_def by linarith
  ultimately show ?thesis
    unfolding sl_core_def using moves_ok [OF m core i(1)] moves_below [OF m core i] range by blast
qed

lemma core_slot: "sl_core n num slot T L s \<Longrightarrow> c < num \<Longrightarrow> 0 \<le> local_counts s c \<and> local_counts s c \<le> T"
  unfolding sl_core_def by blast

lemma core_lock: "sl_core n num slot T L s \<Longrightarrow> i < n \<Longrightarrow>
    0 \<le> global_lock s \<and> global_lock s + g_holds (sl_pc s i) \<le> 1"
  using tsum_ge [of i n g_holds "sl_pc s"] g_holds_nonneg by (force simp: sl_core_def)

fun sl_rank :: "int \<Rightarrow> sl_pc \<Rightarrow> nat" where
  "sl_rank L S_start = 12 * nat L + 12" | "sl_rank L (S_top k) = 12 * nat (L - k) + 11" | "sl_rank L (S_lock k) = 12 * nat (L - k) + 10"
| "sl_rank L (S_load k) = 12 * nat (L - k) + 9" | "sl_rank L (S_store k _) = 12 * nat (L - k) + 8"
| "sl_rank L (S_test k) = 12 * nat (L - k) + 7" | "sl_rank L (S_glock k) = 12 * nat (L - k) + 6"
| "sl_rank L (S_gload k) = 12 * nat (L - k) + 5" | "sl_rank L (S_gstore k _) = 12 * nat (L - k) + 4"
| "sl_rank L (S_gunlock k) = 12 * nat (L - k) + 3" | "sl_rank L (S_reset k) = 12 * nat (L - k) + 2"
| "sl_rank L (S_unlock k) = 12 * nat (L - k) + 1" | "sl_rank L S_done = 0"

subsection \<open>With local locks\<close>

text \<open>A local lock is taken exactly while a thread is inside its slot.\<close>

definition sl_locks :: "nat \<Rightarrow> nat \<Rightarrow> (nat \<Rightarrow> nat) \<Rightarrow> sloppy_counter_t \<Rightarrow> bool" where
  "sl_locks n num slot s \<longleftrightarrow>
     (\<forall>c<num. local_locks s c = (if \<exists>i<n. slot i = c \<and> inside (sl_pc s i) then 0 else 1))"

definition sl_inv :: "nat \<Rightarrow> nat \<Rightarrow> (nat \<Rightarrow> nat) \<Rightarrow> int \<Rightarrow> int \<Rightarrow> sloppy_counter_t \<Rightarrow> bool" where
  "sl_inv n num slot T L s \<longleftrightarrow> sl_core n num slot T L s \<and> exclusive n slot s \<and> sl_locks n num slot s"

lemma sl_core_step:
  assumes inv: "sl_inv n num slot T L s" and T: "0 < T" and i: "i < n" "slot i < num"
    and st: "sl_worker T slot L i s = Some t"
  shows "sl_core n num slot T L t"
proof -
  have core: "sl_core n num slot T L s" and ex: "exclusive n slot s" and lk: "sl_locks n num slot s"
    using inv by (simp_all add: sl_inv_def)
  note ok = core_ok [OF core i(1)] and sl = core_slot [OF core i(2)] and gl = core_lock [OF core i(1)]
  have alone: "\<not> inside (sl_pc s j)" if "inside (sl_pc s i)" "j < n" "j \<noteq> i" "slot j = slot i" for j
    using ex i(1) that unfolding exclusive_def by metis
  have free: "local_counts s (slot i) < T" if "local_locks s (slot i) = 1"
  proof -
    have "\<not> (\<exists>j<n. slot j = slot i \<and> inside (sl_pc s j))" using lk i(2) that by (auto simp: sl_locks_def split: if_splits)
    then show ?thesis using core i(2) unfolding sl_core_def by blast
  qed
  have fin: "max 0 L = k" if "sl_pc s i = S_top k" "\<not> k < L" for k using ok that by auto
  have "sl_moves n slot T L i (local_counts t (slot i)) (sl_pc t i) s t"
    unfolding sl_moves_def
    by (intro conjI; cases "sl_pc s i"; use st ok sl gl T alone free fin in \<open>auto simp: sl_defs split: if_splits\<close>)
  then show ?thesis by (rule core_step [OF _ core i])
qed


lemma locks_upd:
  assumes lk: "sl_locks n num slot s" and pc: "\<And>j. j \<noteq> i \<Longrightarrow> inside (sl_pc t j) = inside (sl_pc s j)"
    and t: "local_locks t = (local_locks s)(slot i := if \<exists>j<n. slot j = slot i \<and> inside (sl_pc t j) then 0 else 1)"
  shows "sl_locks n num slot t"
  unfolding sl_locks_def
proof (intro allI impI)
  fix c assume c: "c < num"
  show "local_locks t c = (if \<exists>j<n. slot j = c \<and> inside (sl_pc t j) then 0 else 1)"
  proof (cases "c = slot i")
    case False
    then have "(\<exists>j<n. slot j = c \<and> inside (sl_pc t j)) \<longleftrightarrow> (\<exists>j<n. slot j = c \<and> inside (sl_pc s j))" using pc by metis
    with False lk c show ?thesis by (simp add: sl_locks_def t)
  qed (simp add: t)
qed

text \<open>A step goes into the slot with its lock, out of it with the lock given back, or neither.\<close>

lemma sl_step_kinds:
  assumes "sl_worker T slot L i s = Some t"
  obtains (stay) "inside (sl_pc t i) = inside (sl_pc s i)" "local_locks t = local_locks s"
    | (enter) "\<not> inside (sl_pc s i)" "inside (sl_pc t i)" "local_locks s (slot i) = 1"
        "local_locks t = (local_locks s)(slot i := 0)"
    | (leave) "inside (sl_pc s i)" "\<not> inside (sl_pc t i)" "local_locks t = (local_locks s)(slot i := 1)"
  using assms by (cases "sl_pc s i") (auto simp: sl_defs split: if_splits)

lemma sl_step_locks:
  assumes inv: "sl_inv n num slot T L s" and i: "i < n" "slot i < num"
    and st: "sl_worker T slot L i s = Some t"
  shows "exclusive n slot t \<and> sl_locks n num slot t"
proof -
  have ex: "exclusive n slot s" and lk: "sl_locks n num slot s" using inv by (simp_all add: sl_inv_def)
  have "sl_pc t = (sl_pc s)(i := sl_pc t i)"
    using st by (cases "sl_pc s i") (auto simp: sl_defs split: if_splits)
  then have same: "inside (sl_pc t j) = inside (sl_pc s j)" if "j \<noteq> i" for j using that by (metis fun_upd_other)
  from st show ?thesis
  proof (cases rule: sl_step_kinds)
    case stay
    then have "inside (sl_pc t j) = inside (sl_pc s j)" for j using same by (cases "j = i") auto
    with ex lk stay(2) show ?thesis by (simp add: exclusive_def sl_locks_def)
  next
    case enter
    have none: "\<not> inside (sl_pc s j)" if "j < n" "slot j = slot i" for j
      using lk i(2) enter(3) that by (auto simp: sl_locks_def split: if_splits)
    have "exclusive n slot t" unfolding exclusive_def using ex same none by (metis exclusive_def)
    then show ?thesis using enter i by (auto intro!: locks_upd [OF lk same])
  next
    case leave
    have "\<not> inside (sl_pc t j)" if "j < n" "slot j = slot i" for j
      using leave(1,2) ex i(1) that same unfolding exclusive_def by metis
    moreover have "exclusive n slot t" unfolding exclusive_def using ex same leave(2) by (metis exclusive_def)
    ultimately show ?thesis using leave(3) by (auto intro!: locks_upd [OF lk same])
  qed
qed

lemma sl_inv_init: "0 < T \<Longrightarrow> sl_inv n num slot T L sloppy_counter_init"
  by (simp add: sl_inv_def sl_core_def exclusive_def sl_locks_def sloppy_counter_init_def tsum_def view_def)

lemma sl_step_pc:
  assumes "sl_worker T slot L i s = Some t" "sl_ok T L g l (sl_pc s i)"
  shows "\<exists>p. sl_pc t = (sl_pc s)(i := p) \<and> sl_rank L p < sl_rank L (sl_pc s i) \<and> \<not> sl_done i s"
  using assms by (cases "sl_pc s i") (auto simp: sl_defs sl_done_def split: if_splits)

text \<open>
  Somebody can move: the holder of the global lock, else a thread inside a slot, else the thread
  itself, whose local lock is then free.
\<close>

lemma sl_progress:
  assumes inv: "sl_inv n num slot T L s" and i: "i < n" "slot i < num" "\<not> sl_done i s"
  shows "\<exists>j<n. \<exists>t. sl_worker T slot L j s = Some t"
proof -
  have core: "sl_core n num slot T L s" and lk: "sl_locks n num slot s" using inv by (simp_all add: sl_inv_def)
  have "\<exists>j<n. sl_worker T slot L j s \<noteq> None"
  proof (cases "\<exists>j<n. 0 < g_holds (sl_pc s j)")
    case True
    then obtain j where j: "j < n" "0 < g_holds (sl_pc s j)" by blast
    then have "sl_worker T slot L j s \<noteq> None" by (cases "sl_pc s j") (auto simp: sl_defs)
    with j show ?thesis by blast
  next
    case False
    then have "\<not> 0 < tsum n g_holds (sl_pc s)" using tsum_pos by blast
    moreover have "0 \<le> tsum n g_holds (sl_pc s)" by (rule tsum_nonneg) (rule g_holds_nonneg)
    ultimately have g: "global_lock s = 1" using core by (simp add: sl_core_def)
    show ?thesis
    proof (cases "\<exists>j<n. inside (sl_pc s j)")
      case True
      then obtain j where j: "j < n" "inside (sl_pc s j)" by blast
      then have "sl_worker T slot L j s \<noteq> None" using g by (cases "sl_pc s j") (auto simp: sl_defs)
      with j show ?thesis by blast
    next
      case False
      then have "local_locks s (slot i) = 1" using lk i(2) by (auto simp: sl_locks_def)
      moreover have "\<not> inside (sl_pc s i)" using False i(1) by blast
      ultimately have "sl_worker T slot L i s \<noteq> None"
        using i(3) by (cases "sl_pc s i") (auto simp: sl_defs sl_done_def)
      with i show ?thesis by blast
    qed
  qed
  then show ?thesis by blast
qed

lemma sl_returning:
  assumes T: "0 < T" and slot: "\<And>i. i < n \<Longrightarrow> slot i < num"
  shows "returning_workers n (sl_worker T slot L) sloppy_counter_init (sl_inv n num slot T L) sl_done
    (\<lambda>s. tsum n (sl_rank L) (sl_pc s))"
proof unfold_locales
  show "sl_inv n num slot T L sloppy_counter_init" by (rule sl_inv_init [OF T])
  fix s t i j
  assume *: "sl_inv n num slot T L s" "i < n" "sl_worker T slot L i s = Some t"
  then have "sl_ok T L (global_count s) (local_counts s (slot i)) (sl_pc s i)"
    using core_ok by (auto simp: sl_inv_def)
  note pc = sl_step_pc [OF *(3) this]
  show "sl_inv n num slot T L t"
    using sl_core_step [OF *(1) T *(2) slot [OF *(2)] *(3)] sl_step_locks [OF *(1,2) slot [OF *(2)] *(3)]
    by (simp add: sl_inv_def)
  show "sl_done j s \<Longrightarrow> sl_done j t" using pc by (cases "j = i") (auto simp: sl_done_def)
  show "tsum n (sl_rank L) (sl_pc t) < tsum n (sl_rank L) (sl_pc s)"
    using pc tsum_decrease [OF *(2), of "sl_rank L" _ "sl_pc s"] by auto
next
  fix s i
  assume "sl_inv n num slot T L s" "i < n" "\<not> sl_done i s"
  then show "\<exists>j<n. \<exists>t. sl_worker T slot L j s = Some t" using sl_progress slot by blast
qed

interpretation sl: returning_workers n "thread_func L" sloppy_counter_init "sl_inv n n (\<lambda>i. i) 1000000 L" sl_done
  "\<lambda>s. tsum n (sl_rank L) (sl_pc s)" for n L
  unfolding thread_func_def by (rule sl_returning) auto

interpretation cpu: returning_workers n "cpu_thread_func (Suc m) L" sloppy_counter_init
  "sl_inv n (Suc m) (\<lambda>i. i mod Suc m) 1000 L" sl_done "\<lambda>s. tsum n (sl_rank L) (sl_pc s)" for n m L
  unfolding cpu_thread_func_def cpu_counter_update_def by (rule sl_returning) auto

subsection \<open>Without local locks\<close>

text \<open>The count of a thread that has not started is read as 0, whatever \<^verbatim>\<open>malloc\<close> left there.\<close>

definition cl_clean :: "sloppy_counter_t \<Rightarrow> sloppy_counter_t" where
  "cl_clean s = s\<lparr>local_counts := (\<lambda>i. if sl_pc s i = S_start then 0 else local_counts s i)\<rparr>"

fun cl_point :: "sl_pc \<Rightarrow> bool" where
  "cl_point (S_lock _) = False" | "cl_point (S_unlock _) = False" | "cl_point _ = True"

definition cl_inv :: "nat \<Rightarrow> int \<Rightarrow> sloppy_counter_t \<Rightarrow> bool" where
  "cl_inv n L s \<longleftrightarrow> sl_core n n (\<lambda>i. i) 1000 L (cl_clean s) \<and> (\<forall>i<n. cl_point (sl_pc s i))"

lemma cl_clean_sel [simp]:
  "sl_pc (cl_clean s) = sl_pc s" "global_count (cl_clean s) = global_count s" "global_lock (cl_clean s) = global_lock s"
  "local_counts (cl_clean s) i = (if sl_pc s i = S_start then 0 else local_counts s i)"
  by (simp_all add: cl_clean_def)

lemma cl_step_shape:
  assumes "cloppy_thread_func L i s = Some t"
  shows "sl_pc t = (sl_pc s)(i := sl_pc t i)" "local_counts t = (local_counts s)(i := local_counts t i)"
    "cl_point (sl_pc t i)" "sl_pc t i \<noteq> S_start"
  using assms by (cases "sl_pc s i"; auto simp: cl_defs split: if_splits)+

lemma cl_core_step:
  assumes inv: "cl_inv n L s" and i: "i < n" and st: "cloppy_thread_func L i s = Some t"
  shows "sl_core n n (\<lambda>i. i) 1000 L (cl_clean t)"
proof -
  have core: "sl_core n n (\<lambda>i. i) 1000 L (cl_clean s)" and pt: "cl_point (sl_pc s i)"
    using inv i by (simp_all add: cl_inv_def)
  note ok = core_ok [OF core i] and sl = core_slot [OF core i] and gl = core_lock [OF core i]
  note shape = cl_step_shape [OF st]
  have free: "local_counts s i < 1000" if "sl_pc s i = S_top k" for k
  proof -
    have "\<forall>j<n. j = i \<longrightarrow> \<not> inside (sl_pc (cl_clean s) j)" using that by simp
    then have "local_counts (cl_clean s) i < 1000" using core i unfolding sl_core_def by blast
    with that show ?thesis by simp
  qed
  have fin: "max 0 L = k" if "sl_pc s i = S_top k" "\<not> k < L" for k using ok that by auto
  have other: "sl_pc t j = sl_pc s j \<and> local_counts t j = local_counts s j" if "j \<noteq> i" for j
    using that by (subst shape(1), subst shape(2)) simp
  have lc: "local_counts (cl_clean t) = (local_counts (cl_clean s))(i := local_counts t i)"
    using shape(4) other by (auto simp: fun_eq_iff)
  have pc: "sl_pc (cl_clean t) = (sl_pc (cl_clean s))(i := sl_pc t i)" using shape(1) by simp
  show ?thesis
  proof (rule core_step [OF _ core i i])
    show "sl_moves n (\<lambda>i. i) 1000 L i (local_counts t i) (sl_pc t i) (cl_clean s) (cl_clean t)"
      unfolding sl_moves_def
      by (intro conjI lc pc; cases "sl_pc s i"; use st ok sl gl free fin pt in \<open>auto simp: cl_defs split: if_splits\<close>)
  qed
qed

lemma cl_step_pc:
  assumes "cloppy_thread_func L i s = Some t" "sl_ok T L g l (sl_pc s i)"
  shows "\<exists>p. sl_pc t = (sl_pc s)(i := p) \<and> sl_rank L p < sl_rank L (sl_pc s i) \<and> \<not> sl_done i s"
  using assms by (cases "sl_pc s i") (auto simp: cl_defs sl_done_def split: if_splits)

lemma cl_progress:
  assumes inv: "cl_inv n L s" and i: "i < n" "\<not> sl_done i s"
  shows "\<exists>j<n. \<exists>t. cloppy_thread_func L j s = Some t"
proof (cases "\<exists>j<n. 0 < g_holds (sl_pc s j)")
  case True
  then obtain j where j: "j < n" "0 < g_holds (sl_pc s j)" by blast
  then have "cloppy_thread_func L j s \<noteq> None" by (cases "sl_pc s j") (auto simp: cl_defs)
  with j show ?thesis by blast
next
  case False
  then have "\<not> 0 < tsum n g_holds (sl_pc s)" using tsum_pos by blast
  moreover have "0 \<le> tsum n g_holds (sl_pc s)" by (rule tsum_nonneg) (rule g_holds_nonneg)
  ultimately have "global_lock s = 1" using inv by (simp add: cl_inv_def sl_core_def)
  moreover have "cl_point (sl_pc s i)" using inv i by (simp add: cl_inv_def)
  ultimately have "cloppy_thread_func L i s \<noteq> None"
    using i(2) by (cases "sl_pc s i") (auto simp: cl_defs sl_done_def)
  with i show ?thesis by blast
qed

interpretation cl: returning_workers n "cloppy_thread_func L" "cloppy_counter_init garbage" "cl_inv n L" sl_done
  "\<lambda>s. tsum n (sl_rank L) (sl_pc s)" for n L garbage
proof unfold_locales
  show "cl_inv n L (cloppy_counter_init garbage)"
    by (simp add: cl_inv_def sl_core_def cl_clean_def cloppy_counter_init_def tsum_def view_def)
  fix s t i j
  assume *: "cl_inv n L s" "i < n" "cloppy_thread_func L i s = Some t"
  then have "sl_ok 1000 L (global_count s) (local_counts (cl_clean s) i) (sl_pc s i)"
    using core_ok unfolding cl_inv_def by (metis cl_clean_sel(1,2))
  note pc = cl_step_pc [OF *(3) this]
  have "cl_point (sl_pc t k)" if "k < n" for k
    using * that cl_step_shape [OF *(3)] unfolding cl_inv_def by (metis fun_upd_other)
  then show "cl_inv n L t" using cl_core_step [OF *] by (simp add: cl_inv_def)
  show "sl_done j s \<Longrightarrow> sl_done j t" using pc by (cases "j = i") (auto simp: sl_done_def)
  show "tsum n (sl_rank L) (sl_pc t) < tsum n (sl_rank L) (sl_pc s)"
    using pc tsum_decrease [OF *(2), of "sl_rank L" _ "sl_pc s"] by auto
qed (use cl_progress in blast)

subsection \<open>What the programs compute\<close>

text \<open>The counts a thread has moved but not yet reset are part of the sum of the slots.\<close>

lemma twice_le:
  assumes core: "sl_core n num slot T L s" and ex: "exclusive n slot s" and slot: "\<And>i. i < n \<Longrightarrow> slot i < num"
  shows "tsum n twice (view slot s) \<le> (\<Sum>c<num. local_counts s c)"
proof -
  let ?I = "{i. i < n \<and> inside (sl_pc s i)}"
  have pos: "0 \<le> local_counts s c" if "c < num" for c using core_slot [OF core that] by simp
  have "tsum n twice (view slot s) = (\<Sum>i\<in>?I. twice (view slot s i))"
    unfolding tsum_def by (rule sum.mono_neutral_right) (auto simp: view_def twice_outside)
  also have "\<dots> \<le> (\<Sum>i\<in>?I. local_counts s (slot i))"
  proof (rule sum_mono)
    fix i assume "i \<in> ?I"
    then show "twice (view slot s i) \<le> local_counts s (slot i)"
      using pos [OF slot, of i] by (cases "sl_pc s i") (auto simp: view_def)
  qed
  also have "\<dots> = (\<Sum>c\<in>slot ` ?I. local_counts s c)"
    by (rule sum.reindex [symmetric, unfolded o_def]) (use ex in \<open>auto simp: inj_on_def exclusive_def\<close>)
  also have "\<dots> \<le> (\<Sum>c<num. local_counts s c)"
    by (rule sum_mono2) (use slot pos in auto)
  finally show ?thesis .
qed

lemma made_bound: "sl_ok T L g l p \<Longrightarrow> 0 \<le> sl_made (max 0 L) p \<and> sl_made (max 0 L) p \<le> max 0 L"
  by (cases p) auto

text \<open>The global count lags behind the increments by at most the threshold for every slot.\<close>

lemma core_lag:
  assumes core: "sl_core n num slot T L s" and ex: "exclusive n slot s" and slot: "\<And>i. i < n \<Longrightarrow> slot i < num"
  shows "tsum n (sl_made (max 0 L)) (sl_pc s) - int num * T \<le> global_count s \<and>
    global_count s \<le> tsum n (sl_made (max 0 L)) (sl_pc s)"
proof -
  have pos: "0 \<le> twice (view slot s i)" if "i < n" for i
    using core_slot [OF core slot [OF that]] by (cases "sl_pc s i") (auto simp: view_def)
  have "(\<Sum>c<num. local_counts s c) \<le> (\<Sum>c<num. T)" by (rule sum_mono) (use core_slot [OF core] in auto)
  then have "(\<Sum>c<num. local_counts s c) \<le> int num * T" by simp
  moreover have "0 \<le> tsum n twice (view slot s)" by (rule tsum_nonneg) (rule pos)
  moreover have "global_count s + (\<Sum>c<num. local_counts s c) - tsum n twice (view slot s) =
      tsum n (sl_made (max 0 L)) (sl_pc s)" using core unfolding sl_core_def by blast
  ultimately show ?thesis using twice_le [OF assms] by linarith
qed

lemma core_made:
  assumes "sl_core n num slot T L s"
  shows "0 \<le> tsum n (sl_made (max 0 L)) (sl_pc s) \<and> tsum n (sl_made (max 0 L)) (sl_pc s) \<le> int n * max 0 L"
proof
  have b: "0 \<le> sl_made (max 0 L) (sl_pc s i) \<and> sl_made (max 0 L) (sl_pc s i) \<le> max 0 L" if "i < n" for i
    using core_ok [OF assms that] by (rule made_bound)
  then show "0 \<le> tsum n (sl_made (max 0 L)) (sl_pc s)" by (intro tsum_nonneg) blast
  have "tsum n (sl_made (max 0 L)) (sl_pc s) \<le> tsum n (\<lambda>_. max 0 L) (sl_pc s)"
    by (rule tsum_mono) (use b in blast)
  then show "tsum n (sl_made (max 0 L)) (sl_pc s) \<le> int n * max 0 L" by (simp add: tsum_def)
qed

text \<open>The sums of the report, when no lock is held and the total fits.\<close>

lemma sum_chk:
  assumes "0 \<le> g" "\<forall>c<num. 0 \<le> l c" "g + (\<Sum>c<num. l c) \<le> INT_MAX"
  shows "fold (\<lambda>i total. cbind total (\<lambda>x. chk (x + l i))) [0..<num] (Inr g) = Inr (g + (\<Sum>c<num. l c))"
  using assms
proof (induction num)
  case (Suc num)
  have pos: "0 \<le> (\<Sum>c<num. l c)" using Suc.prems(2) by (intro sum_nonneg) auto
  have le: "g + (\<Sum>c<num. l c) \<le> INT_MAX" using Suc.prems(2,3) by (simp add: order.trans [rotated])
  have "chk (g + (\<Sum>c<num. l c) + l num) = Inr (g + (\<Sum>c<num. l c) + l num)"
    using Suc.prems pos spec [OF Suc.prems(2), of num] by (intro chk_ok) (auto simp: int_ok_def INT_MIN_def)
  with Suc.IH [OF Suc.prems(1) _ le] Suc.prems(2) show ?case by (simp add: algebra_simps)
qed simp

lemma get_sum:
  assumes "global_lock s = 1" "\<forall>c<num. local_locks s c = 1"
    and "0 \<le> global_count s" "\<forall>c<num. 0 \<le> local_counts s c" "global_count s + (\<Sum>c<num. local_counts s c) \<le> INT_MAX"
  shows "sloppy_counter_get num s = Inr (global_count s + (\<Sum>c<num. local_counts s c))"
proof -
  have "sloppy_counter_get num s =
      fold (\<lambda>i total. cbind total (\<lambda>x. chk (x + local_counts s i))) [0..<num] (Inr (global_count s))"
    unfolding sloppy_counter_get_def using assms(1,2) by (intro fold_cong) auto
  then show ?thesis using sum_chk [OF assms(3-5)] by simp
qed

lemma destroy_free:
  assumes "global_lock s = 1" "\<forall>c<num. local_locks s c = 1"
  shows "sloppy_counter_destroy num s =
    Inr (s\<lparr>global_lock := - 1, local_locks := (\<lambda>c. if c < num then - 1 else local_locks s c)\<rparr>)"
  using assms(2)
proof (induction num)
  case (Suc num)
  then have "sloppy_counter_destroy (Suc num) s =
      Inr (s\<lparr>global_lock := - 1, local_locks := (\<lambda>c. if c < num then - 1 else local_locks s c)(num := - 1)\<rparr>)"
    by (simp add: sloppy_counter_destroy_def)
  moreover have "(\<lambda>c. if c < num then - 1 else local_locks s c)(num := - 1) =
      (\<lambda>c. if c < Suc num then - 1 else local_locks s c)" by auto
  ultimately show ?case by simp
qed (simp add: sloppy_counter_destroy_def assms(1))

lemma core_final:
  assumes core: "sl_core n num slot T L s" and fin: "\<forall>i<n. sl_done i s"
  shows "global_count s + (\<Sum>c<num. local_counts s c) = int n * max 0 L \<and> global_lock s = 1"
proof -
  have "tsum n twice (view slot s) = 0" by (rule tsum_zero) (use fin in \<open>auto simp: view_def sl_done_def\<close>)
  moreover have "tsum n g_holds (sl_pc s) = 0" by (rule tsum_zero) (use fin in \<open>auto simp: sl_done_def\<close>)
  moreover have "tsum n (sl_made (max 0 L)) (sl_pc s) = int n * max 0 L"
    by (rule tsum_const) (use fin in \<open>auto simp: sl_done_def\<close>)
  ultimately show ?thesis using core_balance [OF core] core by (simp add: sl_core_def)
qed

lemma chk_total:
  assumes "0 < L" "int n * L \<le> INT_MAX"
  shows "chk (int n * L) = Inr (int n * L)"
proof (rule chk_ok)
  have "0 \<le> int n * L" using assms(1) by simp
  then show "int_ok (int n * L)" using assms(2) unfolding int_ok_def INT_MIN_def by linarith
qed

lemma sl_final:
  assumes "sl_inv n num slot T L s" "\<forall>i<n. sl_done i s" "0 < L" "int n * L \<le> INT_MAX"
  shows "sloppy_counter_get num s = Inr (int n * L) \<and> (\<exists>t. sloppy_counter_destroy num s = Inr t)"
proof -
  have core: "sl_core n num slot T L s" and lk: "sl_locks n num slot s" using assms(1) by (simp_all add: sl_inv_def)
  have "global_count s + (\<Sum>c<num. local_counts s c) = int n * L" "global_lock s = 1"
    using core_final [OF core assms(2)] assms(3) by simp_all
  moreover have "\<forall>c<num. local_locks s c = 1" using lk assms(2) by (auto simp: sl_locks_def sl_done_def)
  moreover have "0 \<le> global_count s" "\<forall>c<num. 0 \<le> local_counts s c" using core unfolding sl_core_def by blast+
  ultimately show ?thesis using assms(4) by (simp add: get_sum destroy_free)
qed

lemma cl_final:
  assumes inv: "cl_inv n L s" and fin: "\<forall>i<n. sl_done i s" and L: "0 < L" "int n * L \<le> INT_MAX"
  shows "cloppy_counter_get (map (local_counts s) [0..<n]) s = Inr (int n * L) \<and>
    cloppy_counter_destroy s = Inr (s\<lparr>global_lock := - 1\<rparr>)"
proof -
  have core: "sl_core n n (\<lambda>i. i) 1000 L (cl_clean s)" using inv by (simp add: cl_inv_def)
  have same: "local_counts (cl_clean s) i = local_counts s i" if "i < n" for i
    using fin that by (simp add: sl_done_def)
  then have "(\<Sum>c<n. local_counts (cl_clean s) c) = (\<Sum>c<n. local_counts s c)" by (intro sum.cong) auto
  moreover have "\<forall>i<n. sl_done i (cl_clean s)" using fin by (simp add: sl_done_def)
  ultimately have tot: "global_count s + (\<Sum>c<n. local_counts s c) = int n * L" "global_lock s = 1"
    using core_final [OF core] L(1) by (simp_all del: cl_clean_sel(4))
  have "0 \<le> global_count s" "\<forall>c<n. 0 \<le> local_counts s c"
    using core same unfolding sl_core_def by (simp, metis)
  from sum_chk [OF this, unfolded tot(1), OF L(2)] tot(2) show ?thesis
    by (simp add: cloppy_counter_get_def cloppy_counter_destroy_def fold_map o_def)
qed

lemma sloppy_main_Run:
  assumes "sloppy_main argv = Inr (Run n L)"
  shows "0 < n \<and> 0 < L \<and> int n \<le> INT_MAX \<and> L \<le> INT_MAX"
  using assms by (auto simp: sloppy_main_def int_ok_def cbind_Inr_conv dest!: atoi_ok split: list.splits if_splits)

text \<open>The loop variable of a thread.\<close>

fun sl_index :: "sl_pc \<Rightarrow> int" where
  "sl_index (S_top k) = k" | "sl_index (S_lock k) = k" | "sl_index (S_load k) = k" | "sl_index (S_store k _) = k"
| "sl_index (S_test k) = k" | "sl_index (S_glock k) = k" | "sl_index (S_gload k) = k" | "sl_index (S_gstore k _) = k"
| "sl_index (S_gunlock k) = k" | "sl_index (S_reset k) = k" | "sl_index (S_unlock k) = k" | "sl_index _ = 0"

definition sl_range :: "nat \<Rightarrow> nat \<Rightarrow> sloppy_counter_t \<Rightarrow> bool" where
  "sl_range n num s \<longleftrightarrow> int_ok (global_count s) \<and> (\<forall>c<num. int_ok (local_counts s c)) \<and>
     (\<forall>i<n. int_ok (sl_index (sl_pc s i)))"

lemma index_range: "sl_ok T L g l p \<Longrightarrow> 0 \<le> sl_index p \<and> sl_index p \<le> max 0 L"
  by (cases p) auto

lemma core_range:
  assumes core: "sl_core n num slot T L s" and ex: "exclusive n slot s" and slot: "\<And>i. i < n \<Longrightarrow> slot i < num"
    and b: "0 < L" "L \<le> INT_MAX" "int n * L \<le> INT_MAX" "T \<le> INT_MAX"
  shows "sl_range n num s"
proof -
  have "0 \<le> global_count s" using core unfolding sl_core_def by blast
  moreover have "global_count s \<le> int n * L" using core_lag [OF core ex slot] core_made [OF core] b(1) by simp
  moreover have "0 \<le> sl_index (sl_pc s i) \<and> sl_index (sl_pc s i) \<le> L" if "i < n" for i
    using index_range [OF core_ok [OF core that]] b(1) by simp
  ultimately show ?thesis
    using core_slot [OF core] b(2-4) unfolding sl_range_def by (fastforce simp: int_ok_def INT_MIN_def)
qed

text \<open>
  A program of \<open>n\<close> threads on \<open>num\<close> slots that returns under every scheduling, stays within \<^verbatim>\<open>int\<close>
  all along and then prints the expected value twice.
\<close>

definition counts_exactly :: "nat \<Rightarrow> nat \<Rightarrow> (sloppy_counter_t pool \<Rightarrow> sloppy_counter_t pool \<Rightarrow> bool) \<Rightarrow> sloppy_counter_t \<Rightarrow>
    (string \<Rightarrow> sloppy_counter_t \<Rightarrow> (string \<times> sloppy_counter_t) cres) \<Rightarrow> int \<Rightarrow> bool" where
  "counts_exactly n num prog s0 report expected \<longleftrightarrow>
     \<not> (\<exists>f. f 0 = pool_init s0 \<and> (\<forall>k. prog (f k) (f (Suc k)))) \<and>
     (\<forall>p. reachable prog (pool_init s0) p \<longrightarrow>
        sl_range n num (pool p) \<and> (\<not> ended p \<longrightarrow> (\<exists>q. prog p q)) \<and>
        (ended p \<longrightarrow> (\<forall>elapsed. \<exists>t. report elapsed (pool p) = Inr (report_text elapsed expected expected, t))))"

lemma counts_exactlyI:
  assumes "\<And>p. reachable prog (pool_init s0) p \<Longrightarrow> (\<exists>q. reachable prog p q \<and> ended q) \<and>
      (\<not> ended p \<longrightarrow> (\<exists>q. prog p q)) \<and> \<not> (\<exists>f. f 0 = pool_init s0 \<and> (\<forall>k. prog (f k) (f (Suc k))))"
    and "\<And>p. reachable prog (pool_init s0) p \<Longrightarrow> sl_range n num (pool p)"
    and "\<And>p elapsed. reachable prog (pool_init s0) p \<Longrightarrow> ended p \<Longrightarrow>
      \<exists>t. report elapsed (pool p) = Inr (report_text elapsed expected expected, t)"
  shows "counts_exactly n num prog s0 report expected"
  unfolding counts_exactly_def
  using conjunct2 [OF conjunct2 [OF assms(1) [OF reachable.start]]] assms(1) [THEN conjunct2, THEN conjunct1] assms(2,3)
  by (intro conjI allI impI) simp_all

lemma sl_exact:
  assumes "0 < L" "L \<le> INT_MAX" "int n * L \<le> INT_MAX"
  shows "counts_exactly n n (sloppy_program n L) sloppy_counter_init (sloppy_report n L) (int n * L)"
proof (rule counts_exactlyI [OF sl.main_returns])
  fix p assume r: "reachable (sloppy_program n L) (pool_init sloppy_counter_init) p"
  then show "sl_range n n (pool p)"
    using sl.reachable_workers [OF r] assms
    by (intro core_range [where T = 1000000]) (auto simp: sl_inv_def INT_MAX_def)
  fix elapsed assume "ended p"
  then show "\<exists>t. sloppy_report n L elapsed (pool p) = Inr (report_text elapsed (int n * L) (int n * L), t)"
    using sl.ended_workers [OF r, THEN conjunct1, THEN sl_final] sl.ended_workers [OF r] assms chk_total [OF assms(1,3)]
    by (auto simp: sloppy_report_def chk_ok)
qed

lemma cpu_exact:
  assumes "0 < L" "L \<le> INT_MAX" "int n * L \<le> INT_MAX"
  shows "counts_exactly n (Suc m) (cpu_program (Suc m) n L) sloppy_counter_init (cpu_report (Suc m) n L) (int n * L)"
proof (rule counts_exactlyI [OF cpu.main_returns])
  fix p assume r: "reachable (cpu_program (Suc m) n L) (pool_init sloppy_counter_init) p"
  then show "sl_range n (Suc m) (pool p)"
    using cpu.reachable_workers [OF r] assms
    by (intro core_range [where T = 1000]) (auto simp: sl_inv_def INT_MAX_def)
  fix elapsed assume "ended p"
  then show "\<exists>t. cpu_report (Suc m) n L elapsed (pool p) = Inr (report_text elapsed (int n * L) (int n * L), t)"
    using cpu.ended_workers [OF r, THEN conjunct1, THEN sl_final] cpu.ended_workers [OF r] assms chk_total [OF assms(1,3)]
    by (auto simp: chk_ok cpu_report_def cpu_counter_get_def cpu_counter_destroy_def)
qed

text \<open>A thread that has not started leaves its slot as \<^verbatim>\<open>malloc\<close> did: an \<^verbatim>\<open>int\<close>, whatever its value.\<close>

lemma cl_garbage:
  assumes "reachable (cloppy_program n L) (pool_init (cloppy_counter_init garbage)) p" "sl_pc (pool p) i = S_start"
  shows "local_counts (pool p) i = garbage i"
  using assms
proof (induction rule: reachable.induct)
  case (step p q)
  from step(2) show ?case
  proof (cases rule: program_cases)
    case (worker j s)
    note shape = cl_step_shape [OF worker(3)]
    have q: "pool q = s" using worker(4) by simp
    have "j \<noteq> i" using shape(4) step.prems q by auto
    then have "sl_pc s i = sl_pc (pool p) i" "local_counts s i = local_counts (pool p) i"
      using shape(1,2) by (metis fun_upd_other)+
    then show ?thesis using step.IH step.prems q by simp
  next
    case main
    then have "pool q = pool p" by (auto simp: main_step_def split: if_splits)
    then show ?thesis using step.IH step.prems by simp
  qed
qed (simp add: pool_init_def cloppy_counter_init_def)

lemma cl_exclusive: "exclusive n (\<lambda>i. i) s"
  by (simp add: exclusive_def)

lemma cl_exact:
  assumes "0 < L" "L \<le> INT_MAX" "int n * L \<le> INT_MAX" "\<forall>i. int_ok (garbage i)"
  shows "counts_exactly n n (cloppy_program n L) (cloppy_counter_init garbage) (cloppy_report n L) (int n * L)"
proof (rule counts_exactlyI [OF cl.main_returns])
  fix p assume r: "reachable (cloppy_program n L) (pool_init (cloppy_counter_init garbage)) p"
  have "sl_core n n (\<lambda>i. i) 1000 L (cl_clean (pool p))" using cl.reachable_workers [OF r] by (simp add: cl_inv_def)
  from core_range [OF this cl_exclusive] have "sl_range n n (cl_clean (pool p))" using assms by (simp add: INT_MAX_def)
  then show "sl_range n n (pool p)"
    using cl_garbage [OF r] assms(4) unfolding sl_range_def cl_clean_sel by metis
  fix elapsed assume "ended p"
  then show "\<exists>t. cloppy_report n L elapsed (pool p) = Inr (report_text elapsed (int n * L) (int n * L), t)"
    using cl.ended_workers [OF r] cl_final [of n L "pool p"] assms chk_total [OF assms(1,3)]
    by (simp add: cloppy_report_def chk_ok)
qed

text \<open>C27: Started with two positive arguments whose product is an \<^verbatim>\<open>int\<close>, each of the three sloppy counters
  returns under every scheduling, never leaves the range of \<^verbatim>\<open>int\<close>, and prints the product as the
  final and as the expected value: with a lock per thread, with a lock per processor, whatever
  their number, and with no local lock and uninitialised arguments. The mutexes it destroys at the end are free.\<close>

theorem sloppy_counters_exact:
  assumes "sloppy_main argv = Inr (Run n L)" "0 < num_cpus" "int n * L \<le> INT_MAX" "\<forall>i. int_ok (garbage i)"
  shows "counts_exactly n n (sloppy_program n L) sloppy_counter_init (sloppy_report n L) (int n * L) \<and>
    counts_exactly n num_cpus (cpu_program num_cpus n L) cpu_counter_init (cpu_report num_cpus n L) (int n * L) \<and>
    counts_exactly n n (cloppy_program n L) (cloppy_counter_init garbage) (cloppy_report n L) (int n * L)"
proof -
  have L: "0 < L" "L \<le> INT_MAX" using sloppy_main_Run [OF assms(1)] by simp_all
  obtain m where "num_cpus = Suc m" using assms(2) gr0_implies_Suc by blast
  with sl_exact [OF L assms(3)] cpu_exact [OF L assms(3), of m] cl_exact [OF L assms(3,4)] show ?thesis by simp
qed

lemma sloppy_args: "sloppy_main [''sloppy'', ''4'', ''250000''] = Inr (Run 4 250000)"
  by code_simp

theorem sloppy_counters_exact_witness:
  "counts_exactly 4 4 (sloppy_program 4 250000) sloppy_counter_init (sloppy_report 4 250000) 1000000 \<and>
   counts_exactly 4 2 (cpu_program 2 4 250000) cpu_counter_init (cpu_report 2 4 250000) 1000000 \<and>
   counts_exactly 4 4 (cloppy_program 4 250000) (cloppy_counter_init (\<lambda>i. 77)) (cloppy_report 4 250000) 1000000"
  using sloppy_counters_exact [OF sloppy_args, of 2 "\<lambda>i. 77"] by (simp add: int_ok_simps)

text \<open>C28: At every moment of an execution of the counter with processor slots the global count is at
  most 1000 per processor behind the increments done so far, and never ahead of them; it and the
  slots stay within \<^verbatim>\<open>int\<close> when the expected total does.\<close>

theorem cpu_counter_lag:
  assumes "reachable (cpu_program num_cpus n L) (pool_init sloppy_counter_init) p"
    and "sloppy_main argv = Inr (Run n L)" "0 < num_cpus" "int n * L \<le> INT_MAX"
  shows "tsum n (sl_made L) (sl_pc (pool p)) - int num_cpus * 1000 \<le> global_count (pool p) \<and>
    global_count (pool p) \<le> tsum n (sl_made L) (sl_pc (pool p)) \<and>
    int_ok (global_count (pool p)) \<and> (\<forall>c<num_cpus. int_ok (local_counts (pool p) c))"
proof -
  have L: "max 0 L = L" using sloppy_main_Run [OF assms(2)] by simp
  obtain m where m: "num_cpus = Suc m" using assms(3) gr0_implies_Suc by blast
  have inv: "sl_inv n num_cpus (\<lambda>i. i mod num_cpus) 1000 L (pool p)"
    using cpu.reachable_workers assms(1) unfolding m by blast
  then have core: "sl_core n num_cpus (\<lambda>i. i mod num_cpus) 1000 L (pool p)"
    and ex: "exclusive n (\<lambda>i. i mod num_cpus) (pool p)" by (simp_all add: sl_inv_def)
  note lag = core_lag [OF core ex, unfolded L] and made = core_made [OF core, unfolded L]
  have le: "tsum n (sl_made L) (sl_pc (pool p)) - int num_cpus * 1000 \<le> global_count (pool p)"
    "global_count (pool p) \<le> tsum n (sl_made L) (sl_pc (pool p))" using lag assms(3) by simp_all
  have "0 \<le> global_count (pool p)" using core unfolding sl_core_def by blast
  then show ?thesis using le made assms(4) core_slot [OF core]
    by (fastforce simp: int_ok_simps)
qed

theorem cpu_counter_lag_witness:
  "\<exists>p. reachable (cpu_program 2 4 250000) (pool_init sloppy_counter_init) p \<and> ended p \<and>
     998000 \<le> global_count (pool p) \<and> global_count (pool p) \<le> 1000000"
proof -
  from cpu.run.always_can_finish [OF reachable.start] obtain p where
    p: "reachable (cpu_program (Suc 1) 4 250000) (pool_init sloppy_counter_init) p" "ended p"
    by blast
  have "\<forall>i<4. sl_done i (pool p)" using cpu.ended_workers [OF p] by blast
  then have "tsum 4 (sl_made 250000) (sl_pc (pool p)) = int 4 * 250000"
    by (intro tsum_const) (simp add: sl_done_def)
  with cpu_counter_lag [OF p(1) sloppy_args] p show ?thesis by (auto simp: INT_MAX_def numeral_2_eq_2)
qed

end
