(* ===== verification/VectorAdd.thy ===== *)
theory VectorAdd
  imports Workers
begin

section \<open>Adding vectors with two locks\<close>

text \<open>
  The programs under \<^verbatim>\<open>concurrency-bugs\<close>: five versions of \<^verbatim>\<open>vector_add\<close> around the common
  \<^verbatim>\<open>main-common.c\<close>. The code of a thread is the list of the statements it has still to run; the
  \<^verbatim>\<open>for\<close> loop over the elements is one statement that unfolds as it runs, so a load, a load and a
  store of every element are steps of their own and threads may interleave between them. A mutex
  has the thread that holds it, or none; locking a mutex that is held blocks, also for its owner.
  The elements are 32-bit words. Signed overflow is undefined in C; the addition wraps here, as
  the instructions do.
\<close>

subsection \<open>Statements\<close>

definition MAX_THREADS :: nat where "MAX_THREADS = 100"
definition VECTOR_SIZE :: nat where "VECTOR_SIZE = 100"

datatype lockid = VLock nat | PrintLock | GlobalLock

text \<open>
  \<open>For d r k\<close> is the loop of \<^verbatim>\<open>vector_add (&v[d], &v[r])\<close> at \<^verbatim>\<open>i = k\<close>, followed by the two loads and
  the store of one turn; \<open>NFor\<close> is the loop around \<^verbatim>\<open>fetch_and_add\<close>, whose \<^verbatim>\<open>xaddl\<close> is one step. \<open>TryLock m d\<close> is the
  test of \<^verbatim>\<open>vector-try-wait.c\<close> with its branch back to \<^verbatim>\<open>top\<close>.
\<close>

datatype instr = Lock lockid | Unlock lockid
  | TryLock lockid nat | RetryLoad | RetryStore
  | For nat nat nat | LoadD nat nat nat | LoadS nat nat nat | Store nat nat nat
  | NFor nat nat nat | NLoad nat nat nat | Xadd nat nat nat
  | PrintInfo bool nat nat nat

record vthread =
  code :: "instr list"
  rd :: "32 word"
  rs :: "32 word"
  rr :: "32 word"

record vstate =
  vals :: "nat \<Rightarrow> nat \<Rightarrow> 32 word"
  owner :: "lockid \<Rightarrow> nat option"
  retry :: "32 word"
  printed :: "(bool \<times> nat \<times> nat \<times> nat) list"
  thr :: "nat \<Rightarrow> vthread"

text \<open>One statement of thread \<open>i\<close>, whose code is already what follows it.\<close>

fun exec :: "nat \<Rightarrow> instr \<Rightarrow> vthread \<Rightarrow> vstate \<Rightarrow> (vthread \<times> vstate) option" where
  "exec i (Lock m) t s =
     (if owner s m = None then Some (t, s\<lparr>owner := (owner s)(m \<mapsto> i)\<rparr>) else None)"
| "exec i (Unlock m) t s = Some (t, s\<lparr>owner := (owner s)(m := None)\<rparr>)"
| "exec i (TryLock m d) t s =
     Some (if owner s m = None then (t, s\<lparr>owner := (owner s)(m \<mapsto> i)\<rparr>)
           else (t\<lparr>code := [RetryLoad, RetryStore, Unlock (VLock d), Lock (VLock d), TryLock m d] @ code t\<rparr>, s))"
| "exec i RetryLoad t s = Some (t\<lparr>rr := retry s\<rparr>, s)"
| "exec i RetryStore t s = Some (t, s\<lparr>retry := rr t + 1\<rparr>)"
| "exec i (For d r k) t s =
     Some (if k < VECTOR_SIZE then t\<lparr>code := LoadD d r k # code t\<rparr> else t, s)"
| "exec i (LoadD d r k) t s = Some (t\<lparr>code := LoadS d r k # code t, rd := vals s d k\<rparr>, s)"
| "exec i (LoadS d r k) t s = Some (t\<lparr>code := Store d r k # code t, rs := vals s r k\<rparr>, s)"
| "exec i (Store d r k) t s =
     Some (t\<lparr>code := For d r (k + 1) # code t\<rparr>, s\<lparr>vals := (vals s)(d := (vals s d)(k := rd t + rs t))\<rparr>)"
| "exec i (NFor d r k) t s =
     Some (if k < VECTOR_SIZE then t\<lparr>code := NLoad d r k # code t\<rparr> else t, s)"
| "exec i (NLoad d r k) t s = Some (t\<lparr>code := Xadd d r k # code t, rs := vals s r k\<rparr>, s)"
| "exec i (Xadd d r k) t s =
     Some (t\<lparr>code := NFor d r (k + 1) # code t\<rparr>, s\<lparr>vals := (vals s)(d := (vals s d)(k := vals s d k + rs t))\<rparr>)"
| "exec i (PrintInfo b tid v0 v1) t s = Some (t, s\<lparr>printed := printed s @ [(b, tid, v0, v1)]\<rparr>)"

definition vec_step :: "nat \<Rightarrow> vstate \<Rightarrow> vstate option" where
  "vec_step i s =
     (case code (thr s i) of
        [] \<Rightarrow> None
      | x # is \<Rightarrow>
          (case exec i x ((thr s i)\<lparr>code := is\<rparr>) s of
             None \<Rightarrow> None
           | Some (t, s') \<Rightarrow> Some (s'\<lparr>thr := (thr s)(i := t)\<rparr>)))"

definition vec_done :: "nat \<Rightarrow> vstate \<Rightarrow> bool" where
  "vec_done i s \<longleftrightarrow> code (thr s i) = []"

subsection \<open>The five versions\<close>

definition vector_add_deadlock :: "nat \<Rightarrow> nat \<Rightarrow> instr list" where
  "vector_add_deadlock d r =
     [Lock (VLock d), Lock (VLock r), For d r 0, Unlock (VLock d), Unlock (VLock r)]"

text \<open>The addresses of the vectors are ordered like their indices in the array.\<close>

definition vector_add_global_order :: "nat \<Rightarrow> nat \<Rightarrow> instr list" where
  "vector_add_global_order d r =
     (if d < r then [Lock (VLock d), Lock (VLock r)]
      else if r < d then [Lock (VLock r), Lock (VLock d)]
      else [Lock (VLock r)]) @
     [For d r 0, Unlock (VLock r)] @ (if d \<noteq> r then [Unlock (VLock d)] else [])"

definition vector_add_try_wait :: "nat \<Rightarrow> nat \<Rightarrow> instr list" where
  "vector_add_try_wait d r =
     [Lock (VLock d), TryLock (VLock r) d, For d r 0, Unlock (VLock d), Unlock (VLock r)]"

definition vector_add_hold_and_wait :: "nat \<Rightarrow> nat \<Rightarrow> instr list" where
  "vector_add_hold_and_wait d r =
     [Lock GlobalLock, Lock (VLock d), Lock (VLock r), Unlock GlobalLock, For d r 0,
      Unlock (VLock d), Unlock (VLock r)]"

definition vector_add_nolock :: "nat \<Rightarrow> nat \<Rightarrow> instr list" where
  "vector_add_nolock d r = [NFor d r 0]"

subsection \<open>The common main\<close>

record vconfig =
  loops :: int
  verbose :: bool
  num_threads :: int
  do_timing :: bool
  cause_deadlock :: bool
  enable_parallelism :: bool

definition vconfig0 :: vconfig where
  "vconfig0 = \<lparr>loops = 1, verbose = False, num_threads = 2, do_timing = False, cause_deadlock = False,
     enable_parallelism = False\<rparr>"

text \<open>
  \<^verbatim>\<open>getopt\<close> with the options \<^verbatim>\<open>l:n:vtdp\<close>: \<open>cs\<close> are the letters left in the current argument. An unknown
  letter and an option that lacks its argument are reported as \<^verbatim>\<open>?\<close>; arguments that are no options
  are passed over.
\<close>

fun getopt :: "string list \<Rightarrow> string \<Rightarrow> (char \<times> string) list" where
  "getopt args (c # cs) =
     (if c \<in> {CHR ''v'', CHR ''t'', CHR ''d'', CHR ''p''} then (c, []) # getopt args cs
      else if c \<in> {CHR ''l'', CHR ''n''} then
        (if cs \<noteq> [] then (c, cs) # getopt args []
         else case args of [] \<Rightarrow> [(CHR ''?'', [])] | a # as \<Rightarrow> (c, a) # getopt as [])
      else (CHR ''?'', []) # getopt args cs)"
| "getopt [] [] = []"
| "getopt (a # as) [] =
     (if a = ''--'' then []
      else case a of c # d # cs \<Rightarrow> if c = CHR ''-'' then getopt as (d # cs) else getopt as []
           | _ \<Rightarrow> getopt as [])"

fun vec_options :: "(char \<times> string) list \<Rightarrow> vconfig \<Rightarrow> vconfig started cres" where
  "vec_options [] cfg = Inr (Started cfg)"
| "vec_options ((c, a) # os) cfg =
     (if c = CHR ''l'' then cbind (atoi a) (\<lambda>x. vec_options os (cfg\<lparr>loops := x\<rparr>))
      else if c = CHR ''n'' then cbind (atoi a) (\<lambda>x. vec_options os (cfg\<lparr>num_threads := x\<rparr>))
      else if c = CHR ''v'' then vec_options os (cfg\<lparr>verbose := True\<rparr>)
      else if c = CHR ''t'' then vec_options os (cfg\<lparr>do_timing := True\<rparr>)
      else if c = CHR ''d'' then vec_options os (cfg\<lparr>cause_deadlock := True\<rparr>)
      else if c = CHR ''p'' then vec_options os (cfg\<lparr>enable_parallelism := True\<rparr>)
      else Inr (Exit 1))"

definition vec_main :: "string list \<Rightarrow> vconfig started cres" where
  "vec_main argv =
     cbind (vec_options (getopt (tl argv) []) vconfig0) (\<lambda>r.
       case r of Exit n \<Rightarrow> Inr (Exit n)
       | Started cfg \<Rightarrow> if num_threads cfg < int MAX_THREADS then Inr (Started cfg) else Inl AssertFailed)"

record thread_arg_t =
  tid :: nat
  vector_add_order :: nat
  vector_0 :: nat
  vector_1 :: nat

definition thread_arg :: "vconfig \<Rightarrow> nat \<Rightarrow> thread_arg_t" where
  "thread_arg cfg i =
     \<lparr>tid = i,
      vector_add_order = (if cause_deadlock cfg \<and> i mod 2 = 1 then 1 else 0),
      vector_0 = (if \<not> enable_parallelism cfg then 0 else i * 2),
      vector_1 = (if \<not> enable_parallelism cfg then 1 else i * 2 + 1)\<rparr>"

definition print_info :: "vconfig \<Rightarrow> bool \<Rightarrow> nat \<Rightarrow> nat \<Rightarrow> nat \<Rightarrow> instr list" where
  "print_info cfg call_return thread_id v0 v1 =
     (if \<not> verbose cfg then []
      else [Lock PrintLock, PrintInfo call_return thread_id v0 v1, Unlock PrintLock])"

definition worker_turn :: "(nat \<Rightarrow> nat \<Rightarrow> instr list) \<Rightarrow> vconfig \<Rightarrow> thread_arg_t \<Rightarrow> instr list" where
  "worker_turn vector_add cfg args =
     (let (v0, v1) = (if vector_add_order args = 0 then (vector_0 args, vector_1 args)
                      else (vector_1 args, vector_0 args))
      in print_info cfg False (tid args) v0 v1 @ vector_add v0 v1 @ print_info cfg True (tid args) v0 v1)"

definition vec_worker :: "(nat \<Rightarrow> nat \<Rightarrow> instr list) \<Rightarrow> vconfig \<Rightarrow> thread_arg_t \<Rightarrow> instr list" where
  "vec_worker vector_add cfg args = concat (replicate (nat (loops cfg)) (worker_turn vector_add cfg args))"

definition vector_init :: "nat \<Rightarrow> nat \<Rightarrow> 32 word" where
  "vector_init i k = (if i < 2 * MAX_THREADS \<and> k < VECTOR_SIZE then of_nat i else 0)"

definition vec_init :: "(nat \<Rightarrow> nat \<Rightarrow> instr list) \<Rightarrow> vconfig \<Rightarrow> vstate" where
  "vec_init vector_add cfg =
     \<lparr>vals = vector_init, owner = (\<lambda>_. None), retry = 0, printed = [],
      thr = (\<lambda>i. \<lparr>code = vec_worker vector_add cfg (thread_arg cfg i), rd = 0, rs = 0, rr = 0\<rparr>)\<rparr>"

abbreviation vec_program :: "vconfig \<Rightarrow> vstate pool \<Rightarrow> vstate pool \<Rightarrow> bool" where
  "vec_program cfg \<equiv> program (nat (num_threads cfg)) vec_step vec_done"

end
