(* ===== verification/VectorSpec.thy ===== *)
theory VectorSpec
  imports VectorAdd "HOL-Library.Multiset"
begin

section \<open>What the versions of vector\_add guarantee\<close>

text \<open>
  A check of the code of a thread, \<open>wl\<close>, follows the locks it holds: no lock is taken twice or
  released without being held, the vectors of a locked loop are locked, and every blocking lock
  is taken under a discipline \<open>ok\<close>. Three disciplines exclude a circular wait: an order of the
  locks, a lock around all acquisitions, and holding nothing. From the check follow exclusive
  access, the absence of deadlock, and that the additions take effect one after the other.
\<close>

subsection \<open>Steps\<close>

lemma vec_step_cases:
  assumes "vec_step i s = Some s'"
  obtains x "is" t s1 where "code (thr s i) = x # is" "exec i x ((thr s i)\<lparr>code := is\<rparr>) s = Some (t, s1)"
    "s' = s1\<lparr>thr := (thr s)(i := t)\<rparr>"
  using assms by (auto simp: vec_step_def split: list.splits option.splits)

lemma vec_step_None: "vec_step i s = None \<longleftrightarrow> code (thr s i) = [] \<or>
    (\<exists>m is. code (thr s i) = Lock m # is \<and> owner s m \<noteq> None)"
proof (cases "code (thr s i)")
  case (Cons x "is")
  then show ?thesis by (cases x) (auto simp: vec_step_def split: if_splits)
qed (simp add: vec_step_def)

lemma vec_step_thr: "vec_step i s = Some s' \<Longrightarrow> j \<noteq> i \<Longrightarrow> thr s' j = thr s j"
  by (auto elim!: vec_step_cases)

lemma vec_done_stays: "vec_step i s = Some s' \<Longrightarrow> vec_done j s \<Longrightarrow> vec_done j s'"
  by (cases "j = i") (auto simp: vec_done_def vec_step_thr vec_step_def)

subsection \<open>Locks\<close>

fun wl :: "(lockid set \<Rightarrow> lockid \<Rightarrow> bool) \<Rightarrow> lockid set \<Rightarrow> instr list \<Rightarrow> bool" where
  "wl ok H [] = (H = {})"
| "wl ok H (Lock m # is) = (m \<notin> H \<and> ok H m \<and> wl ok (insert m H) is)"
| "wl ok H (TryLock m d # is) =
     (m \<notin> H \<and> VLock d \<in> H \<and> ok (H - {VLock d}) (VLock d) \<and> wl ok (insert m H) is)"
| "wl ok H (Unlock m # is) = (m \<in> H \<and> wl ok (H - {m}) is)"
| "wl ok H (For d r k # is) = (d \<noteq> r \<and> VLock d \<in> H \<and> VLock r \<in> H \<and> wl ok H is)"
| "wl ok H (LoadD d r k # is) = (d \<noteq> r \<and> VLock d \<in> H \<and> VLock r \<in> H \<and> wl ok H is)"
| "wl ok H (LoadS d r k # is) = (d \<noteq> r \<and> VLock d \<in> H \<and> VLock r \<in> H \<and> wl ok H is)"
| "wl ok H (Store d r k # is) = (d \<noteq> r \<and> VLock d \<in> H \<and> VLock r \<in> H \<and> wl ok H is)"
| "wl ok H (x # is) = wl ok H is"

definition held :: "vstate \<Rightarrow> nat \<Rightarrow> lockid set" where
  "held s i = {m. owner s m = Some i}"

definition lock_inv :: "(lockid set \<Rightarrow> lockid \<Rightarrow> bool) \<Rightarrow> nat \<Rightarrow> vstate \<Rightarrow> bool" where
  "lock_inv ok n s \<longleftrightarrow> (\<forall>i<n. wl ok (held s i) (code (thr s i))) \<and> (\<forall>m j. owner s m = Some j \<longrightarrow> j < n)"

lemma exec_locks:
  assumes "wl ok H (x # code t)" "H = held s i" "exec i x t s = Some (t', s')"
  shows "wl ok (held s' i) (code t') \<and> (\<forall>j. j \<noteq> i \<longrightarrow> held s' j = held s j) \<and>
    (\<forall>m j. owner s' m = Some j \<longrightarrow> j = i \<or> owner s m = Some j)"
proof -
  have lock: "owner s m = None \<Longrightarrow> held (s\<lparr>owner := (owner s)(m \<mapsto> i)\<rparr>) i = insert m (held s i) \<and>
      (\<forall>j. j \<noteq> i \<longrightarrow> held (s\<lparr>owner := (owner s)(m \<mapsto> i)\<rparr>) j = held s j)" for m
    by (auto simp: held_def)
  have unlock: "m \<in> held s i \<Longrightarrow> held (s\<lparr>owner := (owner s)(m := None)\<rparr>) i = held s i - {m} \<and>
      (\<forall>j. j \<noteq> i \<longrightarrow> held (s\<lparr>owner := (owner s)(m := None)\<rparr>) j = held s j)" for m
    by (auto simp: held_def)
  have same: "held (s\<lparr>vals := v\<rparr>) = held s" "held (s\<lparr>retry := w\<rparr>) = held s" "held (s\<lparr>printed := p\<rparr>) = held s" for v w p
    by (simp_all add: held_def fun_eq_iff)
  show ?thesis using assms lock unlock
    by (cases x) (auto simp: same insert_absorb split: if_splits)
qed

lemma held_thr [simp]: "held (s\<lparr>thr := f\<rparr>) = held s"
  by (simp add: held_def fun_eq_iff)

lemma lock_inv_step:
  assumes "lock_inv ok n s" "i < n" "vec_step i s = Some s'"
  shows "lock_inv ok n s'"
  using assms(3)
proof (cases rule: vec_step_cases)
  case (1 x "is" t s1)
  have "wl ok (held s i) (x # code ((thr s i)\<lparr>code := is\<rparr>))" using assms 1(1) by (auto simp: lock_inv_def)
  note ex = exec_locks [OF this refl 1(2)]
  have "j < n" if "owner s1 m = Some j" for m j using ex that assms(1,2) by (metis lock_inv_def)
  then show ?thesis using ex assms(1,2) by (simp add: 1(3) lock_inv_def)
qed

text \<open>Two threads never hold the same lock, and a thread that has returned holds none.\<close>

lemma held_disjoint: "i \<noteq> j \<Longrightarrow> held s i \<inter> held s j = {}"
  by (auto simp: held_def)

subsection \<open>Disciplines without circular wait\<close>

locale no_circular_wait =
  fixes ok :: "lockid set \<Rightarrow> lockid \<Rightarrow> bool"
  assumes acyclic: "finite (T :: nat set) \<Longrightarrow> T \<noteq> {} \<Longrightarrow>
      \<forall>i\<in>T. ok (H i) (m i) \<and> m i \<notin> H i \<and> (\<exists>j\<in>T. m i \<in> H j) \<Longrightarrow>
      \<forall>i\<in>T. \<forall>j\<in>T. i \<noteq> j \<longrightarrow> H i \<inter> H j = {} \<Longrightarrow> False"
begin

lemma some_moves:
  assumes "lock_inv ok n s" "i < n" "\<not> vec_done i s"
  shows "\<exists>j<n. \<exists>t. vec_step j s = Some t"
proof (rule ccontr)
  assume "\<not> ?thesis"
  then have stuck: "vec_step j s = None" if "j < n" for j using that by (meson not_None_eq)
  define T where "T = {j. j < n \<and> code (thr s j) \<noteq> []}"
  define m where "m j = (SOME l. \<exists>is. code (thr s j) = Lock l # is)" for j
  have T: "ok (held s j) (m j) \<and> m j \<notin> held s j \<and> (\<exists>k\<in>T. m j \<in> held s k)" if "j \<in> T" for j
  proof -
    from that stuck [of j] obtain l "is" where l: "code (thr s j) = Lock l # is" "owner s l \<noteq> None" "j < n"
      by (auto simp: T_def vec_step_None)
    then have m: "m j = l" by (auto simp: m_def)
    have w: "l \<notin> held s j" "ok (held s j) l" using assms(1) l by (fastforce simp: lock_inv_def)+
    from l(2) obtain k where k: "owner s l = Some k" by blast
    with assms(1) have "k < n" "wl ok (held s k) (code (thr s k))" by (auto simp: lock_inv_def)
    moreover have "l \<in> held s k" using k by (simp add: held_def)
    ultimately have "k \<in> T" by (cases "code (thr s k)") (auto simp: T_def)
    with w m \<open>l \<in> held s k\<close> show ?thesis by auto
  qed
  have "i \<in> T" using assms(2,3) by (simp add: T_def vec_done_def)
  moreover have "finite T" by (simp add: T_def)
  ultimately show False using acyclic [of T "held s" m] T held_disjoint by blast
qed

end

definition rank :: "lockid \<Rightarrow> nat" where
  "rank m = (case m of VLock i \<Rightarrow> i | _ \<Rightarrow> 0)"

definition ordered :: "lockid set \<Rightarrow> lockid \<Rightarrow> bool" where
  "ordered H m \<longleftrightarrow> (\<forall>h\<in>H. rank h < rank m)"

definition guarded :: "lockid set \<Rightarrow> lockid \<Rightarrow> bool" where
  "guarded H m \<longleftrightarrow> H = {} \<or> GlobalLock \<in> H"

definition holding_nothing :: "lockid set \<Rightarrow> lockid \<Rightarrow> bool" where
  "holding_nothing H m \<longleftrightarrow> H = {}"

interpretation ord: no_circular_wait ordered
proof
  fix T :: "nat set" and H m
  assume T: "finite T" "T \<noteq> {}" "\<forall>i\<in>T. ordered (H i) (m i) \<and> m i \<notin> H i \<and> (\<exists>j\<in>T. m i \<in> H j)"
  let ?R = "(\<lambda>j. rank (m j)) ` T"
  have "Max ?R \<in> ?R" using T(1,2) by (intro Max_in) auto
  then obtain i where i: "i \<in> T" "rank (m i) = Max ?R" by auto
  then have i: "i \<in> T" "\<forall>j\<in>T. rank (m j) \<le> rank (m i)" using T(1) by auto
  with T(3) obtain j where "j \<in> T" "m i \<in> H j" "ordered (H j) (m j)" by blast
  then have "rank (m i) < rank (m j)" by (auto simp: ordered_def)
  with i(2) \<open>j \<in> T\<close> show False by (meson not_le)
qed

interpretation grd: no_circular_wait guarded
proof
  fix T :: "nat set" and H m
  assume T: "T \<noteq> {}" "\<forall>i\<in>T. guarded (H i) (m i) \<and> m i \<notin> H i \<and> (\<exists>j\<in>T. m i \<in> H j)"
    and d: "\<forall>i\<in>T. \<forall>j\<in>T. i \<noteq> j \<longrightarrow> H i \<inter> H j = {}"
  have G: "GlobalLock \<in> H j" if "j \<in> T" "m i \<in> H j" for i j using T(2) that by (auto simp: guarded_def)
  from T obtain i where "i \<in> T" by blast
  with T(2) obtain j where j: "j \<in> T" "m i \<in> H j" by blast
  with T(2) obtain k where k: "k \<in> T" "m j \<in> H k" "m j \<notin> H j" by blast
  then have "j \<noteq> k" "GlobalLock \<in> H j" "GlobalLock \<in> H k" using G j by blast+
  with d j k show False by blast
qed

interpretation nth: no_circular_wait holding_nothing
  by unfold_locales (auto simp: holding_nothing_def)

subsection \<open>The additions take effect one after the other\<close>

text \<open>The whole addition in one step, and a sequence of additions.\<close>

definition vadd :: "nat \<Rightarrow> nat \<Rightarrow> (nat \<Rightarrow> nat \<Rightarrow> 32 word) \<Rightarrow> nat \<Rightarrow> nat \<Rightarrow> 32 word" where
  "vadd d r v = v(d := (\<lambda>k. if k < VECTOR_SIZE then v d k + v r k else v d k))"

definition vadds :: "(nat \<times> nat) list \<Rightarrow> (nat \<Rightarrow> nat \<Rightarrow> 32 word) \<Rightarrow> nat \<Rightarrow> nat \<Rightarrow> 32 word" where
  "vadds log v = fold (\<lambda>(d, r). vadd d r) log v"

lemma vadds_snoc: "vadds (log @ [(d, r)]) v = vadd d r (vadds log v)"
  by (simp add: vadds_def)

text \<open>The addition a statement belongs to; \<open>fresh\<close> code has no locked loop that has begun.\<close>

fun add_of :: "instr \<Rightarrow> (nat \<times> nat) option" where
  "add_of (For d r k) = Some (d, r)"
| "add_of (LoadD d r k) = Some (d, r)"
| "add_of (LoadS d r k) = Some (d, r)"
| "add_of (Store d r k) = Some (d, r)"
| "add_of x = None"

fun fresh_instr :: "instr \<Rightarrow> bool" where
  "fresh_instr (For d r k) = (k = 0)"
| "fresh_instr (LoadD d r k) = False"
| "fresh_instr (LoadS d r k) = False"
| "fresh_instr (Store d r k) = False"
| "fresh_instr (NFor d r k) = False"
| "fresh_instr (NLoad d r k) = False"
| "fresh_instr (Xadd d r k) = False"
| "fresh_instr x = True"

definition adds :: "instr list \<Rightarrow> (nat \<times> nat) multiset" where
  "adds is = mset (List.map_filter add_of is)"

lemma adds_simps [simp]: "adds [] = {#}"
  "adds (x # is) = (case add_of x of None \<Rightarrow> adds is | Some p \<Rightarrow> add_mset p (adds is))"
  by (simp_all add: adds_def List.map_filter_def split: option.split)

text \<open>
  What a thread has done of the addition it is in the middle of: \<open>v\<close> are the elements in memory,
  \<open>A\<close> those after the additions that are complete.
\<close>

definition part :: "(nat \<Rightarrow> nat \<Rightarrow> 32 word) \<Rightarrow> (nat \<Rightarrow> nat \<Rightarrow> 32 word) \<Rightarrow> nat \<Rightarrow> nat \<Rightarrow> nat \<Rightarrow> bool" where
  "part v A d r k \<longleftrightarrow> v d = (\<lambda>j. if j < k then A d j + A r j else A d j)"

fun at_instr :: "instr \<Rightarrow> vthread \<Rightarrow> (nat \<Rightarrow> nat \<Rightarrow> 32 word) \<Rightarrow> (nat \<Rightarrow> nat \<Rightarrow> 32 word) \<Rightarrow> bool" where
  "at_instr (For d r k) t v A = (part v A d r k \<and> k \<le> VECTOR_SIZE)"
| "at_instr (LoadD d r k) t v A = (part v A d r k \<and> k < VECTOR_SIZE)"
| "at_instr (LoadS d r k) t v A = (part v A d r k \<and> k < VECTOR_SIZE \<and> rd t = A d k)"
| "at_instr (Store d r k) t v A = (part v A d r k \<and> k < VECTOR_SIZE \<and> rd t = A d k \<and> rs t = A r k)"
| "at_instr x t v A = True"

definition head_add :: "vthread \<Rightarrow> (nat \<times> nat) option" where
  "head_add t = (case code t of [] \<Rightarrow> None | x # _ \<Rightarrow> add_of x)"

definition at_code :: "vthread \<Rightarrow> (nat \<Rightarrow> nat \<Rightarrow> 32 word) \<Rightarrow> (nat \<Rightarrow> nat \<Rightarrow> 32 word) \<Rightarrow> bool" where
  "at_code t v A \<longleftrightarrow> (case code t of [] \<Rightarrow> True | x # is \<Rightarrow> at_instr x t v A \<and> list_all fresh_instr is \<and>
     (add_of x = None \<longrightarrow> fresh_instr x))"

definition serial :: "nat \<Rightarrow> vstate \<Rightarrow> (nat \<Rightarrow> nat \<Rightarrow> 32 word) \<Rightarrow> bool" where
  "serial n s A \<longleftrightarrow> (\<forall>i<n. at_code (thr s i) (vals s) A) \<and>
     (\<forall>m. (\<forall>i<n. \<forall>r. head_add (thr s i) \<noteq> Some (m, r)) \<longrightarrow> vals s m = A m)"

lemma head_add_held:
  assumes "lock_inv ok n s" "i < n" "head_add (thr s i) = Some (d, r)"
  shows "d \<noteq> r \<and> VLock d \<in> held s i \<and> VLock r \<in> held s i"
proof -
  obtain x "is" where c: "code (thr s i) = x # is" "add_of x = Some (d, r)"
    using assms(3) by (auto simp: head_add_def split: list.splits)
  then have "wl ok (held s i) (x # is)" using assms(1,2) by (auto simp: lock_inv_def)
  with c(2) show ?thesis by (cases x) auto
qed

text \<open>The other threads do not notice what happens to vectors they have not locked.\<close>

lemma at_code_other:
  assumes "at_code t v A"
    and "\<And>d r. head_add t = Some (d, r) \<Longrightarrow> v' d = v d \<and> A' d = A d \<and> A' r = A r"
  shows "at_code t v' A'"
proof (cases "code t")
  case (Cons x "is")
  then show ?thesis using assms by (cases x) (auto simp: at_code_def part_def head_add_def)
qed (simp add: at_code_def)

lemma fresh_at_code:
  assumes "list_all fresh_instr (code t)" "\<And>d r. head_add t = Some (d, r) \<Longrightarrow> v d = A d"
  shows "at_code t v A"
proof (cases "code t")
  case (Cons x "is")
  then show ?thesis using assms by (cases x) (auto simp: at_code_def part_def head_add_def)
qed (simp add: at_code_def)

text \<open>
  A step of thread \<open>i\<close> that goes on to fresh code, with the memory as it should be for all vectors
  that no thread is adding to.
\<close>

lemma serial_fresh:
  assumes inv: "lock_inv ok n s'" and i: "i < n" and t: "list_all fresh_instr (code (thr s' i))"
    and others: "\<And>j. j < n \<Longrightarrow> j \<noteq> i \<Longrightarrow> at_code (thr s' j) (vals s') A"
    and rest: "\<And>m. (\<forall>j<n. j \<noteq> i \<longrightarrow> (\<forall>r. head_add (thr s' j) \<noteq> Some (m, r))) \<Longrightarrow> vals s' m = A m"
  shows "serial n s' A"
proof -
  have "vals s' d = A d" if d: "head_add (thr s' i) = Some (d, r)" for d r
  proof (rule rest, intro allI impI notI)
    fix j r' assume j: "j < n" "j \<noteq> i" "head_add (thr s' j) = Some (d, r')"
    have "VLock d \<in> held s' i \<inter> held s' j" using head_add_held [OF inv] i d j by blast
    with j(2) held_disjoint show False by blast
  qed
  then have "at_code (thr s' i) (vals s') A" using t by (intro fresh_at_code)
  with others rest i show ?thesis unfolding serial_def by metis
qed

text \<open>A step of thread \<open>i\<close> inside the addition to \<open>d\<close>, which nobody else can see.\<close>

lemma serial_inside:
  assumes inv: "lock_inv ok n s" and i: "i < n" and ser: "serial n s A"
    and h: "head_add (thr s i) = Some (d, r)" "head_add t = Some (d, r)"
    and v: "\<And>m. m \<noteq> d \<Longrightarrow> vals s' m = vals s m" and t: "at_code t (vals s') A"
    and s': "thr s' = (thr s)(i := t)"
  shows "serial n s' A"
proof -
  have "at_code (thr s' j) (vals s') A" if j: "j < n" for j
  proof (cases "j = i")
    case False
    have "at_code (thr s j) (vals s) A" using ser j by (simp add: serial_def)
    then have "at_code (thr s j) (vals s') A"
    proof (rule at_code_other)
      fix d' r' assume d': "head_add (thr s j) = Some (d', r')"
      have "VLock d \<in> held s i" "VLock d' \<in> held s j" using head_add_held [OF inv] i j h d' by blast+
      then have "d' \<noteq> d" using held_disjoint [of i j s] False by blast
      then show "vals s' d' = vals s d' \<and> A d' = A d' \<and> A r' = A r'" using v by simp
    qed
    with False show ?thesis by (simp add: s')
  qed (use t s' in simp)
  moreover have "vals s' m = A m" if m: "\<forall>j<n. \<forall>q. head_add (thr s' j) \<noteq> Some (m, q)" for m
  proof -
    have md: "m \<noteq> d" using m i h(2) by (auto simp: s')
    have "head_add (thr s j) \<noteq> Some (m, q)" if "j < n" for j q
      using m that md h(1) by (cases "j = i") (auto simp: s')
    then have "vals s m = A m" using ser by (simp add: serial_def)
    with v md show ?thesis by simp
  qed
  ultimately show ?thesis by (simp add: serial_def)
qed

lemma serial_quiet:
  assumes inv: "lock_inv ok n s'" and i: "i < n" and ser: "serial n s A"
    and h: "head_add (thr s i) = None" and t: "list_all fresh_instr (code t)"
    and s': "thr s' = (thr s)(i := t)" "vals s' = vals s"
  shows "serial n s' A"
proof (rule serial_fresh [OF inv i])
  show "list_all fresh_instr (code (thr s' i))" using t s' by simp
  show "at_code (thr s' j) (vals s') A" if "j < n" "j \<noteq> i" for j
    using ser that s' by (simp add: serial_def)
  show "vals s' m = A m" if m: "\<forall>j<n. j \<noteq> i \<longrightarrow> (\<forall>r. head_add (thr s' j) \<noteq> Some (m, r))" for m
  proof -
    have "\<forall>j<n. \<forall>r. head_add (thr s j) \<noteq> Some (m, r)" using m h s' by auto
    then show ?thesis using ser s' by (simp add: serial_def)
  qed
qed

lemma serial_commit:
  assumes inv: "lock_inv ok n s" "lock_inv ok n s'" and i: "i < n" and ser: "serial n s A"
    and h: "code (thr s i) = For d r VECTOR_SIZE # code t" and t: "list_all fresh_instr (code t)"
    and s': "thr s' = (thr s)(i := t)" "vals s' = vals s"
  shows "serial n s' (vadd d r A)"
proof (rule serial_fresh [OF inv(2) i])
  have hd: "head_add (thr s i) = Some (d, r)" by (simp add: head_add_def h)
  have p: "part (vals s) A d r VECTOR_SIZE" using ser i h by (auto simp: serial_def at_code_def)
  show "list_all fresh_instr (code (thr s' i))" using t s' by simp
  show "at_code (thr s' j) (vals s') (vadd d r A)" if j: "j < n" "j \<noteq> i" for j
  proof -
    have "at_code (thr s j) (vals s) A" using ser j by (simp add: serial_def)
    then have "at_code (thr s j) (vals s) (vadd d r A)"
    proof (rule at_code_other)
      fix d' r' assume d': "head_add (thr s j) = Some (d', r')"
      have "VLock d \<in> held s i" "VLock d' \<in> held s j" "VLock r' \<in> held s j"
        using head_add_held [OF inv(1)] i j hd d' by blast+
      then have "d' \<noteq> d" "r' \<noteq> d" using held_disjoint [of i j s] j by blast+
      then show "vals s d' = vals s d' \<and> vadd d r A d' = A d' \<and> vadd d r A r' = A r'" by (simp add: vadd_def)
    qed
    with s' j show ?thesis by simp
  qed
  show "vals s' m = vadd d r A m" if m: "\<forall>j<n. j \<noteq> i \<longrightarrow> (\<forall>q. head_add (thr s' j) \<noteq> Some (m, q))" for m
  proof (cases "m = d")
    case True
    then show ?thesis using p by (simp add: s' part_def vadd_def)
  next
    case False
    then have "\<forall>j<n. \<forall>q. head_add (thr s j) \<noteq> Some (m, q)" using m hd s' by auto
    then show ?thesis using ser s' False by (simp add: serial_def vadd_def)
  qed
qed

lemma part_here: "part v A d r k \<Longrightarrow> v d k = A d k"
  by (simp add: part_def)

lemma part_Suc: "part v A d r k \<Longrightarrow> part (v(d := (v d)(k := A d k + A r k))) A d r (Suc k)"
  by (auto simp: part_def fun_eq_iff less_Suc_eq)

lemma serial_src:
  assumes "lock_inv ok n s" "i < n" "serial n s A" "head_add (thr s i) = Some (d, r)"
  shows "vals s r = A r"
proof -
  have h: "d \<noteq> r" "VLock r \<in> held s i" using head_add_held [OF assms(1,2,4)] by simp_all
  have "head_add (thr s j) \<noteq> Some (r, q)" if j: "j < n" for j q
  proof
    assume a: "head_add (thr s j) = Some (r, q)"
    then have "VLock r \<in> held s j" using head_add_held [OF assms(1) j] by simp
    then have "j = i" using h(2) held_disjoint [of i j s] by blast
    with a assms(4) h(1) show False by simp
  qed
  then show ?thesis using assms(3) by (simp add: serial_def)
qed

lemma serial_step:
  assumes inv: "lock_inv ok n s" and i: "i < n" and st: "vec_step i s = Some s'" and ser: "serial n s A"
  shows "serial n s' A \<and> adds (code (thr s' i)) = adds (code (thr s i)) \<or>
    (\<exists>d r. serial n s' (vadd d r A) \<and> adds (code (thr s i)) = add_mset (d, r) (adds (code (thr s' i))))"
  using st
proof (cases rule: vec_step_cases)
  case (1 x "is" t s1)
  note inv' = lock_inv_step [OF inv i st]
  have s': "thr s' = (thr s)(i := t)" "thr s' i = t" "vals s' = vals s1" by (simp_all add: 1(3))
  have at: "at_instr x (thr s i) (vals s) A" "list_all fresh_instr is" "add_of x = None \<longrightarrow> fresh_instr x"
    using ser i 1(1) by (auto simp: serial_def at_code_def)
  have h: "head_add (thr s i) = add_of x" by (simp add: head_add_def 1(1))
  show ?thesis
  proof (cases "add_of x")
    case None
    then have "list_all fresh_instr (code t) \<and> vals s1 = vals s \<and> adds (code t) = adds is"
      using at 1(2) by (cases x) (auto split: if_splits)
    then show ?thesis
      using serial_quiet [OF inv' i ser, of t] None h s' 1(1) by simp
  next
    case (Some p)
    then obtain d r where p: "add_of x = Some (d, r)" by (cases p) auto
    show ?thesis
    proof (cases "x = For d r VECTOR_SIZE")
      case True
      then have "t = (thr s i)\<lparr>code := is\<rparr>" "s1 = s" using 1(2) by auto
      then show ?thesis
        using serial_commit [OF inv inv' i ser, of d r t] True at(2) s' 1(1) by auto
    next
      case False
      have vr: "d \<noteq> r" "vals s r = A r" using head_add_held [OF inv i] serial_src [OF inv i ser] h p by simp_all
      then have "(\<forall>m. m \<noteq> d \<longrightarrow> vals s1 m = vals s m) \<and> at_code t (vals s1) A \<and> head_add t = Some (d, r) \<and>
          adds (code t) = adds (x # is)"
        using p False at 1(2) part_here part_Suc [of "vals s" A d r]
        by (cases x) (auto simp: at_code_def head_add_def split: if_splits)
      then show ?thesis
        using serial_inside [OF inv i ser, of d r t s'] h p s' 1(1) by auto
    qed
  qed
qed

subsection \<open>The code of the workers\<close>

text \<open>The vectors thread \<open>i\<close> adds: destination and source.\<close>

definition vpair :: "vconfig \<Rightarrow> nat \<Rightarrow> nat \<times> nat" where
  "vpair cfg i = (let a = thread_arg cfg i
     in if vector_add_order a = 0 then (vector_0 a, vector_1 a) else (vector_1 a, vector_0 a))"

lemma vpair_neq: "vpair cfg i = (d, r) \<Longrightarrow> d \<noteq> r"
  by (auto simp: vpair_def thread_arg_def Let_def split: if_splits)

lemma vpair_less: "\<not> cause_deadlock cfg \<Longrightarrow> vpair cfg i = (d, r) \<Longrightarrow> r = Suc d \<and> even d"
  by (auto simp: vpair_def thread_arg_def Let_def split: if_splits)

lemma vpair_bounds: "i < MAX_THREADS \<Longrightarrow> vpair cfg i = (d, r) \<Longrightarrow> d < 2 * MAX_THREADS \<and> r < 2 * MAX_THREADS"
  by (auto simp: vpair_def thread_arg_def Let_def MAX_THREADS_def split: if_splits)

lemma worker_turn_eq:
  assumes "vpair cfg i = (d, r)"
  shows "worker_turn vector_add cfg (thread_arg cfg i) = print_info cfg False i d r @ vector_add d r @ print_info cfg True i d r"
proof -
  have "tid (thread_arg cfg i) = i" by (simp add: thread_arg_def)
  then show ?thesis using assms by (auto simp: worker_turn_def vpair_def Let_def split: if_splits)
qed

lemma wl_append: "wl ok H xs \<Longrightarrow> wl ok {} ys \<Longrightarrow> wl ok H (xs @ ys)"
  by (induction ok H xs rule: wl.induct) auto

lemma wl_repeat: "wl ok {} xs \<Longrightarrow> wl ok {} (concat (replicate k xs))"
  by (induction k) (auto intro: wl_append)

lemma wl_print: "ok {} PrintLock \<Longrightarrow> wl ok {} (print_info cfg b i d r)"
  by (simp add: print_info_def)

lemma wl_worker:
  assumes "vpair cfg i = (d, r)" "wl ok {} (vector_add d r)" "ok {} PrintLock"
  shows "wl ok {} (vec_worker vector_add cfg (thread_arg cfg i))"
  unfolding vec_worker_def worker_turn_eq [OF assms(1)]
  by (intro wl_repeat wl_append wl_print assms)

lemma adds_append [simp]: "adds (xs @ ys) = adds xs + adds ys"
  by (simp add: adds_def List.map_filter_def)

lemma adds_worker:
  assumes "vpair cfg i = (d, r)" "adds (vector_add d r) = {#(d, r)#}"
  shows "adds (vec_worker vector_add cfg (thread_arg cfg i)) = replicate_mset (nat (loops cfg)) (d, r)"
proof -
  have "adds (worker_turn vector_add cfg (thread_arg cfg i)) = {#(d, r)#}"
    using assms by (simp add: worker_turn_eq print_info_def)
  then have "adds (concat (replicate k (worker_turn vector_add cfg (thread_arg cfg i)))) = replicate_mset k (d, r)" for k
    by (induction k) auto
  then show ?thesis by (simp add: vec_worker_def)
qed

lemma all_worker:
  assumes "vpair cfg i = (d, r)" "list_all P (vector_add d r)" "list_all P (print_info cfg False i d r)"
    "list_all P (print_info cfg True i d r)"
  shows "list_all P (vec_worker vector_add cfg (thread_arg cfg i))"
proof -
  have "list_all P (worker_turn vector_add cfg (thread_arg cfg i))"
    using assms by (simp add: worker_turn_eq)
  then show ?thesis by (auto simp: vec_worker_def list_all_iff)
qed

lemma lock_inv_init:
  assumes "\<And>i d r. vpair cfg i = (d, r) \<Longrightarrow> wl ok {} (vector_add d r)" "ok {} PrintLock"
  shows "lock_inv ok n (vec_init vector_add cfg)"
proof -
  have "wl ok {} (vec_worker vector_add cfg (thread_arg cfg i))" for i
    by (cases "vpair cfg i") (auto intro: wl_worker assms)
  then show ?thesis by (simp add: lock_inv_def held_def vec_init_def)
qed

subsection \<open>Bounds of the accesses\<close>

text \<open>
  The vectors and the elements a statement accesses, and the vectors whose mutex it locks, unlocks or
  tries: a \<^verbatim>\<open>TryLock\<close> that fails goes on to unlock and lock the other vector.
\<close>

fun lock_in_range :: "lockid \<Rightarrow> bool" where
  "lock_in_range (VLock d) = (d < 2 * MAX_THREADS)"
| "lock_in_range PrintLock = True"
| "lock_in_range GlobalLock = True"

fun in_range :: "instr \<Rightarrow> bool" where
  "in_range (Lock m) = lock_in_range m"
| "in_range (Unlock m) = lock_in_range m"
| "in_range (TryLock m d) = (lock_in_range m \<and> d < 2 * MAX_THREADS)"
| "in_range (For d r k) = (d < 2 * MAX_THREADS \<and> r < 2 * MAX_THREADS)"
| "in_range (LoadD d r k) = (d < 2 * MAX_THREADS \<and> r < 2 * MAX_THREADS \<and> k < VECTOR_SIZE)"
| "in_range (LoadS d r k) = (d < 2 * MAX_THREADS \<and> r < 2 * MAX_THREADS \<and> k < VECTOR_SIZE)"
| "in_range (Store d r k) = (d < 2 * MAX_THREADS \<and> r < 2 * MAX_THREADS \<and> k < VECTOR_SIZE)"
| "in_range (NFor d r k) = (d < 2 * MAX_THREADS \<and> r < 2 * MAX_THREADS)"
| "in_range (NLoad d r k) = (d < 2 * MAX_THREADS \<and> r < 2 * MAX_THREADS \<and> k < VECTOR_SIZE)"
| "in_range (Xadd d r k) = (d < 2 * MAX_THREADS \<and> r < 2 * MAX_THREADS \<and> k < VECTOR_SIZE)"
| "in_range x = True"

definition range_inv :: "nat \<Rightarrow> vstate \<Rightarrow> bool" where
  "range_inv n s \<longleftrightarrow> (\<forall>i<n. list_all in_range (code (thr s i)))"

lemma range_inv_step:
  assumes "range_inv n s" "i < n" "vec_step i s = Some s'"
  shows "range_inv n s'"
  using assms(3)
proof (cases rule: vec_step_cases)
  case (1 x "is" t s1)
  have "in_range x" "list_all in_range is" using assms(1,2) 1(1) by (auto simp: range_inv_def)
  then have "list_all in_range (code t)" using 1(2) by (cases x) (auto split: if_splits)
  then show ?thesis using assms(1) by (auto simp: 1(3) range_inv_def)
qed

text \<open>A version of \<^verbatim>\<open>vector_add\<close> touches the two vectors it is given and no others.\<close>

locale vector_add_version =
  fixes vector_add :: "nat \<Rightarrow> nat \<Rightarrow> instr list"
  assumes accesses: "d < 2 * MAX_THREADS \<Longrightarrow> r < 2 * MAX_THREADS \<Longrightarrow> list_all in_range (vector_add d r)"
begin

lemma range_inv_init:
  assumes "num_threads cfg < int MAX_THREADS"
  shows "range_inv (nat (num_threads cfg)) (vec_init vector_add cfg)"
proof -
  have "list_all in_range (vec_worker vector_add cfg (thread_arg cfg i))" if "i < nat (num_threads cfg)" for i
  proof -
    obtain d r where p: "vpair cfg i = (d, r)" by (cases "vpair cfg i")
    have "i < MAX_THREADS" using that assms by simp
    then show ?thesis
      using vpair_bounds [OF _ p] p by (intro all_worker accesses) (auto simp: print_info_def)
  qed
  then show ?thesis by (simp add: range_inv_def vec_init_def)
qed

lemma range_workers:
  assumes "num_threads cfg < int MAX_THREADS"
  shows "safe_workers (nat (num_threads cfg)) vec_step (vec_init vector_add cfg) (range_inv (nat (num_threads cfg))) vec_done"
  by unfold_locales (auto intro: range_inv_init [OF assms] range_inv_step vec_done_stays)

lemma in_bounds:
  assumes "num_threads cfg < int MAX_THREADS" "reachable (vec_program cfg) (pool_init (vec_init vector_add cfg)) p"
    "i < nat (num_threads cfg)" "code (thr (pool p) i) = x # is"
  shows "in_range x"
  using safe_workers.reachable_workers [OF range_workers [OF assms(1)] assms(2)] assms(3,4)
  by (auto simp: range_inv_def)

end

subsection \<open>Versions that lock both vectors\<close>

text \<open>The additions of the whole program: every thread adds its two vectors once per turn.\<close>

definition all_adds :: "vconfig \<Rightarrow> (nat \<times> nat) multiset" where
  "all_adds cfg = (\<Sum>i<nat (num_threads cfg). replicate_mset (nat (loops cfg)) (vpair cfg i))"

definition ser_inv :: "nat \<Rightarrow> (nat \<times> nat) multiset \<Rightarrow> vstate \<Rightarrow> bool" where
  "ser_inv n N s \<longleftrightarrow> lock_inv (\<lambda>_ _. True) n s \<and>
     (\<exists>log. serial n s (vadds log vector_init) \<and> mset log + (\<Sum>i<n. adds (code (thr s i))) = N)"

lemma sum_threads:
  fixes f :: "nat \<Rightarrow> 'a::comm_monoid_add"
  assumes "i < n" "\<And>j. j \<noteq> i \<Longrightarrow> f' j = f j"
  shows "(\<Sum>j<n. f' j) + f i = (\<Sum>j<n. f j) + f' i"
proof -
  have "(\<Sum>j<n. f' j) = f' i + (\<Sum>j\<in>{..<n} - {i}. f' j)" "(\<Sum>j<n. f j) = f i + (\<Sum>j\<in>{..<n} - {i}. f j)"
    using sum.remove [of "{..<n}" i f'] sum.remove [of "{..<n}" i f] assms(1) by auto
  moreover have "(\<Sum>j\<in>{..<n} - {i}. f' j) = (\<Sum>j\<in>{..<n} - {i}. f j)" by (rule sum.cong) (auto simp: assms(2))
  ultimately show ?thesis by (simp add: add.commute add.left_commute)
qed

lemma ser_inv_step:
  assumes inv: "ser_inv n N s" and i: "i < n" and st: "vec_step i s = Some s'"
  shows "ser_inv n N s'"
proof -
  let ?S = "\<lambda>s. \<Sum>j<n. adds (code (thr s j))"
  obtain log where l: "lock_inv (\<lambda>_ _. True) n s" "serial n s (vadds log vector_init)" "mset log + ?S s = N"
    using inv by (auto simp: ser_inv_def)
  have sum: "?S s' + adds (code (thr s i)) = ?S s + adds (code (thr s' i))"
    by (rule sum_threads [OF i]) (simp add: vec_step_thr [OF st])
  have "\<exists>log'. serial n s' (vadds log' vector_init) \<and> mset log' + ?S s' = N"
    using serial_step [OF l(1) i st l(2)]
  proof
    assume "serial n s' (vadds log vector_init) \<and> adds (code (thr s' i)) = adds (code (thr s i))"
    then show ?thesis using sum l(3) by auto
  next
    assume "\<exists>d r. serial n s' (vadd d r (vadds log vector_init)) \<and>
      adds (code (thr s i)) = add_mset (d, r) (adds (code (thr s' i)))"
    then obtain d r where c: "serial n s' (vadd d r (vadds log vector_init))"
      "adds (code (thr s i)) = add_mset (d, r) (adds (code (thr s' i)))" by blast
    then have "?S s = add_mset (d, r) (?S s')" using sum by simp
    then have "mset (log @ [(d, r)]) + ?S s' = N" using l(3) by simp
    with c(1) show ?thesis by (metis vadds_snoc)
  qed
  then show ?thesis using lock_inv_step [OF l(1) i st] by (simp add: ser_inv_def)
qed

locale locked_vector_add = vector_add_version +
  assumes locks: "d \<noteq> r \<Longrightarrow> wl (\<lambda>_ _. True) {} (vector_add d r)"
    and starts: "d \<noteq> r \<Longrightarrow> list_all fresh_instr (vector_add d r) \<and> adds (vector_add d r) = {#(d, r)#}"
begin

lemma ser_inv_init: "ser_inv (nat (num_threads cfg)) (all_adds cfg) (vec_init vector_add cfg)"
proof -
  let ?n = "nat (num_threads cfg)" and ?s = "vec_init vector_add cfg"
  have c: "code (thr ?s i) = vec_worker vector_add cfg (thread_arg cfg i)" for i by (simp add: vec_init_def)
  have st: "list_all fresh_instr (code (thr ?s i)) \<and> adds (code (thr ?s i)) = replicate_mset (nat (loops cfg)) (vpair cfg i)" for i
  proof -
    obtain d r where p: "vpair cfg i = (d, r)" by (cases "vpair cfg i")
    note s = starts [OF vpair_neq [OF p]]
    show ?thesis using s all_worker [OF p] adds_worker [OF p] by (simp add: c p print_info_def)
  qed
  have "serial ?n ?s (vadds [] vector_init)"
    using st by (auto simp: serial_def vadds_def intro!: fresh_at_code) (simp_all add: vec_init_def)
  moreover have "(\<Sum>i<?n. adds (code (thr ?s i))) = all_adds cfg" using st by (simp add: all_adds_def)
  moreover have "lock_inv (\<lambda>_ _. True) ?n ?s" by (intro lock_inv_init locks) (auto dest: vpair_neq)
  ultimately show ?thesis by (auto simp: ser_inv_def intro!: exI [of _ "[]"])
qed

end

sublocale locked_vector_add \<subseteq> ser: safe_workers "nat (num_threads cfg)" vec_step "vec_init vector_add cfg"
  "ser_inv (nat (num_threads cfg)) (all_adds cfg)" vec_done for cfg
  by unfold_locales (auto intro: ser_inv_init ser_inv_step vec_done_stays)

context locked_vector_add
begin

lemma serializable:
  assumes "reachable (vec_program cfg) (pool_init (vec_init vector_add cfg)) p" "ended p"
  shows "\<exists>log. mset log = all_adds cfg \<and> vals (pool p) = vadds log vector_init"
proof -
  let ?n = "nat (num_threads cfg)"
  have inv: "ser_inv ?n (all_adds cfg) (pool p)" and d: "\<forall>i<?n. vec_done i (pool p)"
    using ser.ended_workers [OF assms] by blast+
  obtain log where l: "serial ?n (pool p) (vadds log vector_init)"
      "mset log + (\<Sum>i<?n. adds (code (thr (pool p) i))) = all_adds cfg"
    using inv by (auto simp: ser_inv_def)
  have "(\<Sum>i<?n. adds (code (thr (pool p) i))) = {#}" using d by (simp add: vec_done_def)
  moreover have "vals (pool p) m = vadds log vector_init m" for m
    using l(1) d by (auto simp: serial_def head_add_def vec_done_def)
  ultimately show ?thesis using l(2) by (intro exI [of _ log]) auto
qed

text \<open>No two threads are inside additions that share a vector.\<close>

lemma exclusive:
  assumes "reachable (vec_program cfg) (pool_init (vec_init vector_add cfg)) p"
    "i < nat (num_threads cfg)" "j < nat (num_threads cfg)" "i \<noteq> j"
    "head_add (thr (pool p) i) = Some (d, r)" "head_add (thr (pool p) j) = Some (d', r')"
  shows "{d, r} \<inter> {d', r'} = {}"
proof -
  have inv: "lock_inv (\<lambda>_ _. True) (nat (num_threads cfg)) (pool p)"
    using ser.reachable_workers [OF assms(1)] by (simp add: ser_inv_def)
  have "{VLock d, VLock r} \<subseteq> held (pool p) i" "{VLock d', VLock r'} \<subseteq> held (pool p) j"
    using head_add_held [OF inv assms(2,5)] head_add_held [OF inv assms(3,6)] by blast+
  with held_disjoint [OF assms(4)] show ?thesis by blast
qed

end

interpretation dl: locked_vector_add vector_add_deadlock
  by unfold_locales (auto simp: vector_add_deadlock_def)

interpretation go: locked_vector_add vector_add_global_order
  by unfold_locales (auto simp: vector_add_global_order_def)

interpretation tw: locked_vector_add vector_add_try_wait
  by unfold_locales (auto simp: vector_add_try_wait_def)

interpretation hw: locked_vector_add vector_add_hold_and_wait
  by unfold_locales (auto simp: vector_add_hold_and_wait_def)

interpretation nl: vector_add_version vector_add_nolock
  by unfold_locales (auto simp: vector_add_nolock_def)

subsection \<open>Programs that return\<close>

text \<open>The steps left in a statement; a \<^verbatim>\<open>trylock\<close> that fails starts over, so such code is set apart.\<close>

fun weight :: "instr \<Rightarrow> nat" where
  "weight (For d r k) = 4 * (VECTOR_SIZE - k) + 1"
| "weight (LoadD d r k) = 4 * (VECTOR_SIZE - k)"
| "weight (LoadS d r k) = 4 * (VECTOR_SIZE - k) - 1"
| "weight (Store d r k) = 4 * (VECTOR_SIZE - k) - 2"
| "weight (NFor d r k) = 3 * (VECTOR_SIZE - k) + 1"
| "weight (NLoad d r k) = 3 * (VECTOR_SIZE - k)"
| "weight (Xadd d r k) = 3 * (VECTOR_SIZE - k) - 1"
| "weight x = 1"

fun no_try :: "instr \<Rightarrow> bool" where
  "no_try (TryLock m d) = False"
| "no_try x = True"

definition vec_bound :: "nat \<Rightarrow> vstate \<Rightarrow> nat" where
  "vec_bound n s = tsum n (\<lambda>is. sum_list (map weight is)) (\<lambda>i. code (thr s i))"

definition no_try_inv :: "nat \<Rightarrow> vstate \<Rightarrow> bool" where
  "no_try_inv n s \<longleftrightarrow> (\<forall>i<n. list_all no_try (code (thr s i)))"

lemma no_try_step:
  assumes "range_inv n s" "no_try_inv n s" "i < n" "vec_step i s = Some s'"
  shows "no_try_inv n s' \<and> vec_bound n s' < vec_bound n s"
  using assms(4)
proof (cases rule: vec_step_cases)
  case (1 x "is" t s1)
  have x: "no_try x" "list_all no_try is" "in_range x" using assms(1-3) 1(1) by (auto simp: no_try_inv_def range_inv_def)
  have t: "list_all no_try (code t)" using x 1(2) by (cases x) (auto split: if_splits)
  have w: "sum_list (map weight (code t)) < sum_list (map weight (x # is))"
    using x(1,3) 1(2) by (cases x) (auto split: if_splits)
  have upd: "(\<lambda>j. code (thr s' j)) = (\<lambda>j. code (thr s j))(i := code t)" by (auto simp: 1(3))
  have "vec_bound n s' < vec_bound n s"
    unfolding vec_bound_def upd by (rule tsum_decrease [OF assms(3)]) (use w 1(1) in simp)
  with t assms(2) show ?thesis by (auto simp: 1(3) no_try_inv_def)
qed

definition returns_inv :: "(lockid set \<Rightarrow> lockid \<Rightarrow> bool) \<Rightarrow> nat \<Rightarrow> vstate \<Rightarrow> bool" where
  "returns_inv ok n s \<longleftrightarrow> lock_inv ok n s \<and> range_inv n s \<and> no_try_inv n s"

context no_circular_wait
begin

lemma moving:
  assumes "\<And>i d r. vpair cfg i = (d, r) \<Longrightarrow> wl ok {} (vector_add d r)" "ok {} PrintLock"
  shows "moving_workers n vec_step (vec_init vector_add cfg) (lock_inv ok n) vec_done"
  by unfold_locales (auto intro: lock_inv_init assms lock_inv_step vec_done_stays some_moves)

lemma returning:
  assumes "vector_add_version vector_add" "num_threads cfg < int MAX_THREADS"
    and "\<forall>i d r. vpair cfg i = (d, r) \<longrightarrow> wl ok {} (vector_add d r) \<and> list_all no_try (vector_add d r)"
    and "ok {} PrintLock"
  shows "returning_workers (nat (num_threads cfg)) vec_step (vec_init vector_add cfg)
    (returns_inv ok (nat (num_threads cfg))) vec_done (vec_bound (nat (num_threads cfg)))"
proof unfold_locales
  let ?n = "nat (num_threads cfg)"
  have "list_all no_try (vec_worker vector_add cfg (thread_arg cfg i))" for i
    by (cases "vpair cfg i") (rule all_worker, auto simp: assms(3) print_info_def)
  then have "no_try_inv ?n (vec_init vector_add cfg)" by (simp add: no_try_inv_def vec_init_def)
  then show "returns_inv ok ?n (vec_init vector_add cfg)"
    using vector_add_version.range_inv_init [OF assms(1,2)] lock_inv_init [of cfg ok vector_add ?n] assms(3,4)
    by (simp add: returns_inv_def)
  show "returns_inv ok ?n t" if "returns_inv ok ?n s" "i < ?n" "vec_step i s = Some t" for s i t
    using that lock_inv_step range_inv_step no_try_step by (auto simp: returns_inv_def)
  show "vec_bound ?n t < vec_bound ?n s" if "returns_inv ok ?n s" "i < ?n" "vec_step i s = Some t" for s i t
    using that no_try_step by (auto simp: returns_inv_def)
  show "\<exists>j<?n. \<exists>t. vec_step j s = Some t" if "returns_inv ok ?n s" "i < ?n" "\<not> vec_done i s" for s i
    using that some_moves by (auto simp: returns_inv_def)
qed (rule vec_done_stays)

end

text \<open>The disciplines of the versions.\<close>

lemma disciplines:
  "d \<noteq> r \<Longrightarrow> wl ordered {} (vector_add_global_order d r) \<and> list_all no_try (vector_add_global_order d r)"
  "d < r \<Longrightarrow> wl ordered {} (vector_add_deadlock d r) \<and> list_all no_try (vector_add_deadlock d r)"
  "d \<noteq> r \<Longrightarrow> wl guarded {} (vector_add_hold_and_wait d r) \<and> list_all no_try (vector_add_hold_and_wait d r)"
  "d \<noteq> r \<Longrightarrow> wl holding_nothing {} (vector_add_try_wait d r)"
  "wl ordered {} (vector_add_nolock d r) \<and> list_all no_try (vector_add_nolock d r)"
  by (auto simp: vector_add_global_order_def vector_add_deadlock_def vector_add_hold_and_wait_def
      vector_add_try_wait_def vector_add_nolock_def ordered_def guarded_def holding_nothing_def rank_def)

text \<open>The version with \<^verbatim>\<open>trylock\<close> blocks only while it holds nothing.\<close>

interpretation twm: moving_workers n vec_step "vec_init vector_add_try_wait cfg" "lock_inv holding_nothing n" vec_done
  for n cfg
  by (rule nth.moving) (use disciplines(4) vpair_neq in \<open>blast, simp add: holding_nothing_def\<close>)

text \<open>Which versions return whatever the scheduler does, and under which options.\<close>

definition returning_version :: "(nat \<Rightarrow> nat \<Rightarrow> instr list) \<Rightarrow> vconfig \<Rightarrow> bool" where
  "returning_version vector_add cfg \<longleftrightarrow>
     vector_add \<in> {vector_add_global_order, vector_add_hold_and_wait, vector_add_nolock} \<or>
     vector_add = vector_add_deadlock \<and> \<not> cause_deadlock cfg"

lemma version_returns:
  assumes "returning_version vector_add cfg" "num_threads cfg < int MAX_THREADS"
  shows "\<exists>ok. returning_workers (nat (num_threads cfg)) vec_step (vec_init vector_add cfg)
    (returns_inv ok (nat (num_threads cfg))) vec_done (vec_bound (nat (num_threads cfg)))"
proof -
  have o: "ordered {} PrintLock" "guarded {} PrintLock" by (simp_all add: ordered_def guarded_def)
  consider "vector_add = vector_add_global_order" | "vector_add = vector_add_hold_and_wait"
    | "vector_add = vector_add_nolock" | "vector_add = vector_add_deadlock" "\<not> cause_deadlock cfg"
    using assms(1) by (auto simp: returning_version_def)
  then show ?thesis
  proof cases
    case 1
    have "\<forall>i d r. vpair cfg i = (d, r) \<longrightarrow>
        wl ordered {} (vector_add_global_order d r) \<and> list_all no_try (vector_add_global_order d r)"
      using disciplines(1) vpair_neq by blast
    from ord.returning [OF go.vector_add_version_axioms assms(2) this o(1)] show ?thesis unfolding 1 by (rule exI [of _ ordered])
  next
    case 2
    have "\<forall>i d r. vpair cfg i = (d, r) \<longrightarrow>
        wl guarded {} (vector_add_hold_and_wait d r) \<and> list_all no_try (vector_add_hold_and_wait d r)"
      using disciplines(3) vpair_neq by blast
    from grd.returning [OF hw.vector_add_version_axioms assms(2) this o(2)] show ?thesis unfolding 2 by (rule exI [of _ guarded])
  next
    case 3
    have "\<forall>i d r. vpair cfg i = (d, r) \<longrightarrow>
        wl ordered {} (vector_add_nolock d r) \<and> list_all no_try (vector_add_nolock d r)"
      using disciplines(5) by blast
    from ord.returning [OF nl.vector_add_version_axioms assms(2) this o(1)]
    show ?thesis unfolding 3 by (rule exI [of _ ordered])
  next
    case 4
    have "\<forall>i d r. vpair cfg i = (d, r) \<longrightarrow>
        wl ordered {} (vector_add_deadlock d r) \<and> list_all no_try (vector_add_deadlock d r)"
      using disciplines(2) vpair_less [OF 4(2)] by (metis lessI)
    from ord.returning [OF dl.vector_add_version_axioms assms(2) this o(1)] show ?thesis unfolding 4(1) by (rule exI [of _ ordered])
  qed
qed

subsection \<open>Totals without the option -d\<close>

text \<open>How often the program adds to vector \<open>m\<close>.\<close>

definition add_count :: "vconfig \<Rightarrow> nat \<Rightarrow> nat" where
  "add_count cfg m = nat (loops cfg) * card {i. i < nat (num_threads cfg) \<and> fst (vpair cfg i) = m}"

lemma count_all_adds:
  assumes "\<not> cause_deadlock cfg"
  shows "count (all_adds cfg) (m, Suc m) = add_count cfg m"
proof -
  let ?n = "nat (num_threads cfg)"
  have "(m, Suc m) = vpair cfg i \<longleftrightarrow> fst (vpair cfg i) = m" for i
    using vpair_less [OF assms, of i] by (cases "vpair cfg i") auto
  then have "count (all_adds cfg) (m, Suc m) = (\<Sum>i<?n. if fst (vpair cfg i) = m then nat (loops cfg) else 0)"
    by (simp add: all_adds_def count_sum)
  also have "\<dots> = (\<Sum>i | i < ?n \<and> fst (vpair cfg i) = m. nat (loops cfg))"
    by (simp add: sum.If_cases Collect_conj_eq lessThan_def)
  finally show ?thesis by (simp add: add_count_def)
qed

lemma vadds_total:
  assumes "\<forall>(d, r)\<in>set log. r = Suc d \<and> even d" "k < VECTOR_SIZE"
  shows "vadds log v m k = v m k + of_nat (count (mset log) (m, Suc m)) * v (Suc m) k"
  using assms
proof (induction log arbitrary: m rule: rev_induct)
  case (snoc p log)
  obtain d where p: "p = (d, Suc d)" "even d" using snoc.prems by (cases p) auto
  have odd: "count (mset log) (Suc d, Suc (Suc d)) = 0"
    using snoc.prems p(2) by (fastforce simp: count_eq_zero_iff)
  show ?case
    using snoc.IH [of m] snoc.IH [of "Suc d"] snoc.prems odd
    by (auto simp: p(1) vadds_snoc vadd_def algebra_simps)
qed (simp add: vadds_def)

context locked_vector_add
begin

lemma total:
  assumes "\<not> cause_deadlock cfg" "reachable (vec_program cfg) (pool_init (vec_init vector_add cfg)) p" "ended p"
    "k < VECTOR_SIZE"
  shows "vals (pool p) m k = vector_init m k + of_nat (add_count cfg m) * vector_init (Suc m) k"
proof -
  obtain log where log: "mset log = all_adds cfg" "vals (pool p) = vadds log vector_init"
    using serializable [OF assms(2,3)] by blast
  have "\<forall>(d, r)\<in>set log. r = Suc d \<and> even d"
  proof (clarify)
    fix d r assume "(d, r) \<in> set log"
    then have "(d, r) \<in># all_adds cfg" using log(1) by (metis set_mset_mset)
    then obtain i where "vpair cfg i = (d, r)" by (auto simp: all_adds_def set_mset_sum split: if_splits)
    with vpair_less [OF assms(1)] show "r = Suc d \<and> even d" by blast
  qed
  from vadds_total [OF this assms(4), of vector_init m] log count_all_adds [OF assms(1)] show ?thesis by simp
qed

end

text \<open>Without locks the additions commute, because every \<^verbatim>\<open>xaddl\<close> is one step and no source is written.\<close>

fun todo :: "nat \<Rightarrow> nat \<Rightarrow> instr \<Rightarrow> nat" where
  "todo m j (NFor d r k) = (if d = m \<and> k \<le> j then 1 else 0)"
| "todo m j (NLoad d r k) = (if d = m \<and> k \<le> j then 1 else 0)"
| "todo m j (Xadd d r k) = (if d = m \<and> k \<le> j then 1 else 0)"
| "todo m j x = 0"

fun nl_instr :: "instr \<Rightarrow> bool" where
  "nl_instr (NFor d r k) = (r = Suc d \<and> even d)"
| "nl_instr (NLoad d r k) = (r = Suc d \<and> even d)"
| "nl_instr (Xadd d r k) = (r = Suc d \<and> even d)"
| "nl_instr (For d r k) = False"
| "nl_instr (LoadD d r k) = False"
| "nl_instr (LoadS d r k) = False"
| "nl_instr (Store d r k) = False"
| "nl_instr (TryLock m d) = False"
| "nl_instr x = True"

fun is_Xadd :: "instr \<Rightarrow> bool" where
  "is_Xadd (Xadd d r k) = True"
| "is_Xadd x = False"

definition nl_code :: "vthread \<Rightarrow> bool" where
  "nl_code t \<longleftrightarrow> list_all nl_instr (code t) \<and> list_all (\<lambda>x. \<not> is_Xadd x) (tl (code t)) \<and>
     (\<forall>d r k is. code t = Xadd d r k # is \<longrightarrow> rs t = vector_init r k)"

definition todo_code :: "nat \<Rightarrow> nat \<Rightarrow> instr list \<Rightarrow> nat" where
  "todo_code m j is = sum_list (map (todo m j) is)"

definition nl_inv :: "nat \<Rightarrow> (nat \<Rightarrow> nat) \<Rightarrow> vstate \<Rightarrow> bool" where
  "nl_inv n N s \<longleftrightarrow> (\<forall>i<n. nl_code (thr s i)) \<and> (\<forall>m. odd m \<longrightarrow> vals s m = vector_init m) \<and>
     (\<forall>m j. j < VECTOR_SIZE \<longrightarrow>
        vals s m j + of_nat (\<Sum>i<n. todo_code m j (code (thr s i))) * vector_init (Suc m) j =
        vector_init m j + of_nat (N m) * vector_init (Suc m) j)"

lemma nl_step_thread:
  assumes "nl_code t0" "code t0 = x # is" "exec i x (t0\<lparr>code := is\<rparr>) s = Some (t, s')"
    and odd: "\<And>m. odd m \<Longrightarrow> vals s m = vector_init m"
  shows "nl_code t \<and> (\<forall>m. odd m \<longrightarrow> vals s' m = vector_init m) \<and>
    (\<forall>m j. j < VECTOR_SIZE \<longrightarrow> (\<exists>e. todo_code m j (code t0) = todo_code m j (code t) + e \<and>
      vals s' m j = vals s m j + of_nat e * vector_init (Suc m) j))"
proof -
  have x: "nl_instr x" "list_all nl_instr is" "list_all (\<lambda>x. \<not> is_Xadd x) is"
    "\<And>d r k. x = Xadd d r k \<Longrightarrow> rs t0 = vector_init r k"
    using assms(1,2) by (auto simp: nl_code_def)
  have tl: "list_all (\<lambda>x. \<not> is_Xadd x) (tl is)" "\<And>d r k js. is \<noteq> Xadd d r k # js"
    using x(3) by (cases "is"; auto)+
  show ?thesis
  proof (cases x)
    case (Xadd d r k)
    then show ?thesis using assms(2,3) x
      by (auto simp: nl_code_def odd todo_code_def intro: exI [of _ 0] exI [of _ 1])
  qed (use assms(2,3) x odd tl in \<open>auto simp: nl_code_def todo_code_def split: if_splits\<close>)
qed

lemma nl_inv_step:
  assumes inv: "nl_inv n N s" and i: "i < n" and st: "vec_step i s = Some s'"
  shows "nl_inv n N s'"
  using st
proof (cases rule: vec_step_cases)
  case (1 x "is" t s1)
  have t0: "nl_code (thr s i)" and odd: "\<And>m. odd m \<Longrightarrow> vals s m = vector_init m" using inv i by (auto simp: nl_inv_def)
  note th = nl_step_thread [OF t0 1(1,2) odd]
  have s': "thr s' = (thr s)(i := t)" "vals s' = vals s1" by (simp_all add: 1(3))
  have "vals s' m j + of_nat (\<Sum>i<n. todo_code m j (code (thr s' i))) * vector_init (Suc m) j =
      vector_init m j + of_nat (N m) * vector_init (Suc m) j" if j: "j < VECTOR_SIZE" for m j
  proof -
    let ?S = "\<lambda>s. \<Sum>i<n. todo_code m j (code (thr s i))"
    obtain e where e: "todo_code m j (code (thr s i)) = todo_code m j (code t) + e"
      "vals s1 m j = vals s m j + of_nat e * vector_init (Suc m) j" using th j by blast
    have "?S s' + todo_code m j (code (thr s i)) = ?S s + todo_code m j (code (thr s' i))"
      by (rule sum_threads [OF i]) (simp add: s')
    then have "?S s = ?S s' + e" using e(1) by (simp add: s')
    then have "vals s' m j + of_nat (?S s') * vector_init (Suc m) j = vals s m j + of_nat (?S s) * vector_init (Suc m) j"
      using e(2) by (simp add: s' algebra_simps)
    with inv j show ?thesis by (simp add: nl_inv_def)
  qed
  then show ?thesis using inv th by (auto simp: nl_inv_def s')
qed

lemma todo_worker:
  assumes "vpair cfg i = (d, r)"
  shows "todo_code m j (vec_worker vector_add_nolock cfg (thread_arg cfg i)) = (if d = m then nat (loops cfg) else 0)"
proof -
  have "todo_code m j (worker_turn vector_add_nolock cfg (thread_arg cfg i)) = (if d = m then 1 else 0)"
    by (simp add: worker_turn_eq [OF assms] print_info_def vector_add_nolock_def todo_code_def)
  then have "todo_code m j (concat (replicate k (worker_turn vector_add_nolock cfg (thread_arg cfg i)))) =
      (if d = m then k else 0)" for k
    by (induction k) (auto simp: todo_code_def)
  then show ?thesis by (simp add: vec_worker_def)
qed

lemma nl_inv_init:
  assumes "\<not> cause_deadlock cfg"
  shows "nl_inv (nat (num_threads cfg)) (add_count cfg) (vec_init vector_add_nolock cfg)"
proof -
  let ?n = "nat (num_threads cfg)" and ?w = "\<lambda>i. vec_worker vector_add_nolock cfg (thread_arg cfg i)"
  have w: "list_all (\<lambda>x. nl_instr x \<and> \<not> is_Xadd x) (?w i)" for i
  proof -
    obtain d r where p: "vpair cfg i = (d, r)" by (cases "vpair cfg i")
    show ?thesis using vpair_less [OF assms p]
      by (intro all_worker [OF p]) (auto simp: vector_add_nolock_def print_info_def)
  qed
  have "nl_code (thr (vec_init vector_add_nolock cfg) i)" for i
    using w [of i] by (cases "?w i") (auto simp: nl_code_def vec_init_def list_all_iff)
  moreover have "(\<Sum>i<?n. todo_code m j (?w i)) = add_count cfg m" for m j
  proof -
    have "(\<Sum>i<?n. todo_code m j (?w i)) = (\<Sum>i<?n. if fst (vpair cfg i) = m then nat (loops cfg) else 0)"
      by (rule sum.cong) (auto simp: todo_worker [OF surjective_pairing])
    also have "\<dots> = (\<Sum>i | i < ?n \<and> fst (vpair cfg i) = m. nat (loops cfg))"
      by (simp add: sum.If_cases Collect_conj_eq lessThan_def)
    finally show ?thesis by (simp add: add_count_def)
  qed
  moreover have "code (thr (vec_init vector_add_nolock cfg) i) = ?w i" "vals (vec_init vector_add_nolock cfg) = vector_init" for i
    by (simp_all add: vec_init_def)
  ultimately show ?thesis unfolding nl_inv_def by simp
qed

lemma nl_total:
  assumes "\<not> cause_deadlock cfg" "reachable (vec_program cfg) (pool_init (vec_init vector_add_nolock cfg)) p" "ended p"
    "k < VECTOR_SIZE"
  shows "vals (pool p) m k = vector_init m k + of_nat (add_count cfg m) * vector_init (Suc m) k"
proof -
  let ?n = "nat (num_threads cfg)"
  have "safe_workers ?n vec_step (vec_init vector_add_nolock cfg) (nl_inv ?n (add_count cfg)) vec_done"
    by unfold_locales (auto intro: nl_inv_init [OF assms(1)] nl_inv_step vec_done_stays)
  from safe_workers.ended_workers [OF this assms(2,3)]
  have e: "nl_inv ?n (add_count cfg) (pool p)" "\<And>i. i < ?n \<Longrightarrow> code (thr (pool p) i) = []" by (auto simp: vec_done_def)
  have z: "(\<Sum>i<?n. todo_code m k (code (thr (pool p) i))) = 0" by (simp add: e(2) todo_code_def)
  have "vals (pool p) m k + of_nat (\<Sum>i<?n. todo_code m k (code (thr (pool p) i))) * vector_init (Suc m) k =
      vector_init m k + of_nat (add_count cfg m) * vector_init (Suc m) k"
    using e(1) assms(4) unfolding nl_inv_def by blast
  then show ?thesis unfolding z by simp
qed

lemma version_main_returns:
  assumes "returning_version vector_add cfg" "num_threads cfg < int MAX_THREADS"
    and "reachable (vec_program cfg) (pool_init (vec_init vector_add cfg)) p"
  shows "(\<exists>q. reachable (vec_program cfg) p q \<and> ended q) \<and> (\<not> ended p \<longrightarrow> (\<exists>q. vec_program cfg p q)) \<and>
    \<not> (\<exists>f. f 0 = pool_init (vec_init vector_add cfg) \<and> (\<forall>k. vec_program cfg (f k) (f (Suc k))))"
proof -
  obtain ok where "returning_workers (nat (num_threads cfg)) vec_step (vec_init vector_add cfg)
    (returns_inv ok (nat (num_threads cfg))) vec_done (vec_bound (nat (num_threads cfg)))"
    using version_returns [OF assms(1,2)] by blast
  from returning_workers.main_returns [OF this assms(3)] show ?thesis .
qed

subsection \<open>Correctness of the programs\<close>

lemma vec_main_threads: "vec_main argv = Inr (Started cfg) \<Longrightarrow> num_threads cfg < int MAX_THREADS"
  by (auto simp: vec_main_def cbind_def split: sum.splits started.splits if_splits)

text \<open>C29: The versions with locks are serializable: threads inside additions at the same time share no
  vector, and when \<^verbatim>\<open>main\<close> returns the vectors hold what the additions of all threads give when they are
  done one after the other in some order.\<close>

theorem vector_add_serializable:
  assumes "vector_add \<in> {vector_add_deadlock, vector_add_global_order, vector_add_try_wait, vector_add_hold_and_wait}"
    and "vec_main argv = Inr (Started cfg)" "reachable (vec_program cfg) (pool_init (vec_init vector_add cfg)) p"
  shows "(\<forall>i j d r d' r'. i < nat (num_threads cfg) \<longrightarrow> j < nat (num_threads cfg) \<longrightarrow> i \<noteq> j \<longrightarrow>
      head_add (thr (pool p) i) = Some (d, r) \<longrightarrow> head_add (thr (pool p) j) = Some (d', r') \<longrightarrow> {d, r} \<inter> {d', r'} = {}) \<and>
    (ended p \<longrightarrow> (\<exists>log. mset log = all_adds cfg \<and> vals (pool p) = vadds log vector_init))"
proof -
  have "locked_vector_add vector_add"
    using assms(1) dl.locked_vector_add_axioms go.locked_vector_add_axioms tw.locked_vector_add_axioms
      hw.locked_vector_add_axioms by blast
  from locked_vector_add.exclusive [OF this assms(3)] locked_vector_add.serializable [OF this assms(3)]
  show ?thesis by blast
qed

theorem vector_add_serializable_witness:
  "\<exists>cfg q log. vec_main [''vector-global-order'', ''-d''] = Inr (Started cfg) \<and>
    reachable (vec_program cfg) (pool_init (vec_init vector_add_global_order cfg)) q \<and> ended q \<and>
    mset log = {#(0, 1), (1, 0)#} \<and> vals (pool q) = vadds log vector_init"
proof -
  let ?cfg = "vconfig0\<lparr>cause_deadlock := True\<rparr>"
  have m: "vec_main [''vector-global-order'', ''-d''] = Inr (Started ?cfg)" by code_simp
  have "returning_version vector_add_global_order ?cfg" by (simp add: returning_version_def)
  from version_main_returns [OF this _ reachable.start] obtain q where
    q: "reachable (vec_program ?cfg) (pool_init (vec_init vector_add_global_order ?cfg)) q" "ended q"
    by (auto simp: MAX_THREADS_def vconfig0_def)
  have "{..<2} = {0, 1 :: nat}" by auto
  then have "all_adds ?cfg = {#(0, 1), (1, 0)#}"
    by (simp add: all_adds_def vconfig0_def vpair_def thread_arg_def)
  with vector_add_serializable [OF _ m q(1)] q m show ?thesis by auto
qed

text \<open>C31: Without the option \<^verbatim>\<open>-d\<close> all five versions compute the same totals, under every schedule: each
  element of a destination has grown by the element of its source once per turn of each thread that
  adds to it, and no other vector has changed.\<close>

theorem vector_add_totals:
  assumes "vector_add \<in> {vector_add_deadlock, vector_add_global_order, vector_add_try_wait, vector_add_hold_and_wait,
      vector_add_nolock}"
    and "vec_main argv = Inr (Started cfg)" "\<not> cause_deadlock cfg"
    and "reachable (vec_program cfg) (pool_init (vec_init vector_add cfg)) p" "ended p" "k < VECTOR_SIZE"
  shows "vals (pool p) m k = vector_init m k + of_nat (add_count cfg m) * vector_init (Suc m) k"
  using assms(1)
proof (elim insertE emptyE)
qed (use assms dl.total go.total tw.total hw.total nl_total in blast)+

theorem vector_add_totals_witness:
  "\<exists>cfg q. vec_main [''vector-nolock'', ''-n'', ''3'', ''-l2''] = Inr (Started cfg) \<and>
    reachable (vec_program cfg) (pool_init (vec_init vector_add_nolock cfg)) q \<and> ended q \<and> vals (pool q) 0 99 = 6"
proof -
  let ?cfg = "vconfig0\<lparr>num_threads := 3, loops := 2\<rparr>"
  have m: "vec_main [''vector-nolock'', ''-n'', ''3'', ''-l2''] = Inr (Started ?cfg)" by code_simp
  have "returning_version vector_add_nolock ?cfg" by (simp add: returning_version_def)
  from version_main_returns [OF this _ reachable.start] obtain q where
    q: "reachable (vec_program ?cfg) (pool_init (vec_init vector_add_nolock ?cfg)) q" "ended q"
    by (auto simp: MAX_THREADS_def)
  have "{i. i < 3 \<and> fst (vpair ?cfg i) = 0} = {..<3}"
    by (auto simp: vpair_def thread_arg_def vconfig0_def)
  then have "add_count ?cfg 0 = 6" by (simp add: add_count_def)
  moreover have "vals (pool q) 0 99 = vector_init 0 99 + of_nat (add_count ?cfg 0) * vector_init (Suc 0) 99"
    by (rule vector_add_totals [OF _ m _ q]) (simp_all add: vconfig0_def VECTOR_SIZE_def)
  ultimately have "vals (pool q) 0 99 = 6" by (simp add: vector_init_def MAX_THREADS_def VECTOR_SIZE_def)
  with m q show ?thesis by blast
qed

text \<open>C30: The version with the global order and the one that takes all locks at once return under every
  scheduling and with every option: no execution is endless and none gets stuck. So does the
  version without locks, and the one that can deadlock as long as \<^verbatim>\<open>-d\<close> is not given.\<close>

theorem vector_add_returns:
  assumes "vec_main argv = Inr (Started cfg)" "returning_version vector_add cfg"
    and "reachable (vec_program cfg) (pool_init (vec_init vector_add cfg)) p"
  shows "(\<exists>q. reachable (vec_program cfg) p q \<and> ended q) \<and> (\<not> ended p \<longrightarrow> (\<exists>q. vec_program cfg p q)) \<and>
    \<not> (\<exists>f. f 0 = pool_init (vec_init vector_add cfg) \<and> (\<forall>k. vec_program cfg (f k) (f (Suc k))))"
  by (rule version_main_returns [OF assms(2) vec_main_threads [OF assms(1)] assms(3)])

theorem vector_add_returns_witness:
  "\<exists>cfg q. vec_main [''vector-global-order'', ''-d'', ''-n'', ''3''] = Inr (Started cfg) \<and> cause_deadlock cfg \<and>
    reachable (vec_program cfg) (pool_init (vec_init vector_add_global_order cfg)) q \<and> ended q"
proof -
  let ?cfg = "vconfig0\<lparr>cause_deadlock := True, num_threads := 3\<rparr>"
  have m: "vec_main [''vector-global-order'', ''-d'', ''-n'', ''3''] = Inr (Started ?cfg)" by code_simp
  have "returning_version vector_add_global_order ?cfg" by (simp add: returning_version_def)
  from vector_add_returns [OF m this reachable.start] m show ?thesis by (intro exI [of _ ?cfg]) auto
qed

text \<open>C32: Whatever the version and the options, no statement of a thread accesses anything outside the array
  of vectors: the vectors whose elements it loads or stores and those whose mutex it locks, unlocks
  or tries are among the \<^verbatim>\<open>2 * MAX_THREADS\<close> of the array, and the element is inside the vector.\<close>

theorem vector_accesses_in_bounds:
  assumes "vector_add \<in> {vector_add_deadlock, vector_add_global_order, vector_add_try_wait, vector_add_hold_and_wait,
      vector_add_nolock}"
    and "vec_main argv = Inr (Started cfg)" "reachable (vec_program cfg) (pool_init (vec_init vector_add cfg)) p"
    and "i < nat (num_threads cfg)" "code (thr (pool p) i) = x # is"
  shows "in_range x"
proof -
  have "vector_add_version vector_add"
    using assms(1) dl.vector_add_version_axioms go.vector_add_version_axioms tw.vector_add_version_axioms
      hw.vector_add_version_axioms nl.vector_add_version_axioms by blast
  from vector_add_version.in_bounds [OF this vec_main_threads [OF assms(2)] assms(3-5)] show ?thesis .
qed

theorem vector_accesses_in_bounds_witness:
  "\<exists>p is. reachable (vec_program vconfig0) (pool_init (vec_init vector_add_nolock vconfig0)) p \<and>
    code (thr (pool p) 0) = NLoad 0 1 0 # is \<and> in_range (NLoad 0 1 0)"
proof -
  have m: "vec_main [''vector-nolock''] = Inr (Started vconfig0)" by code_simp
  let ?s0 = "vec_init vector_add_nolock vconfig0"
  have n: "nat (num_threads vconfig0) = 2" by (simp add: vconfig0_def)
  have "code (thr ?s0 0) = [NFor 0 1 0]"
    by (simp add: vec_init_def vec_worker_def worker_turn_def thread_arg_def vconfig0_def print_info_def vector_add_nolock_def)
  then obtain p where p: "run_sched (pool_step 2 vec_step vec_done) [2, 2, 0] (pool_init ?s0) = Some p"
    "code (thr (pool p) 0) = [NLoad 0 1 0]"
    by (auto simp: pool_step_def main_step_def pool_init_def vec_step_def VECTOR_SIZE_def)
  have r: "reachable (vec_program vconfig0) (pool_init ?s0) p"
    unfolding n by (rule run_sched_reachable [OF p(1)]) simp
  from vector_accesses_in_bounds [OF _ m r _ p(2)] r p(2) n show ?thesis by auto
qed

subsection \<open>Deadlock and livelock\<close>

text \<open>With \<^verbatim>\<open>-d\<close> and without \<^verbatim>\<open>-p\<close>, threads 0 and 1 add the same two vectors in opposite directions.\<close>

definition crossing :: "vconfig \<Rightarrow> bool" where
  "crossing cfg \<longleftrightarrow> cause_deadlock cfg \<and> \<not> enable_parallelism cfg \<and> \<not> verbose cfg \<and> 1 \<le> loops cfg"

lemma crossing_code:
  assumes "crossing cfg"
  shows "\<exists>d rest. d < 2 \<and> vec_worker vector_add cfg (thread_arg cfg i) = vector_add d (1 - d) @ rest \<and>
    (i = 0 \<longrightarrow> d = 0) \<and> (i = 1 \<longrightarrow> d = 1)"
proof -
  obtain l where l: "nat (loops cfg) = Suc l" using assms by (cases "nat (loops cfg)") (auto simp: crossing_def)
  have p: "vpair cfg i = (i mod 2, 1 - i mod 2)"
    using assms by (auto simp: vpair_def thread_arg_def crossing_def Let_def mod_2_eq_odd)
  show ?thesis
    unfolding vec_worker_def l worker_turn_eq [OF p] using assms
    by (intro exI [of _ "i mod 2"]) (auto simp: print_info_def crossing_def)
qed

lemma vec_step_Lock:
  "code (thr s i) = Lock m # is \<Longrightarrow> owner s m = None \<Longrightarrow>
     vec_step i s = Some (s\<lparr>owner := (owner s)(m \<mapsto> i), thr := (thr s)(i := (thr s i)\<lparr>code := is\<rparr>)\<rparr>)"
  by (simp add: vec_step_def)

text \<open>Both threads take their first lock.\<close>

lemma crossing_start:
  assumes "crossing cfg" "\<And>d. \<exists>x is. vector_add d (1 - d) = Lock (VLock d) # x # is"
    and "s0 = vec_init vector_add cfg"
  shows "\<exists>s. run_sched vec_step [0, 1] s0 = Some s \<and> owner s (VLock 0) = Some 0 \<and> owner s (VLock 1) = Some 1 \<and>
    vals s = vector_init \<and>
    (\<exists>r0. code (thr s 0) = tl (vector_add 0 1) @ r0) \<and> (\<exists>r1. code (thr s 1) = tl (vector_add 1 0) @ r1) \<and>
    (\<forall>j. j \<noteq> 0 \<longrightarrow> j \<noteq> 1 \<longrightarrow> (\<exists>d is. d < 2 \<and> code (thr s j) = Lock (VLock d) # is))"
proof -
  note c = crossing_code [OF assms(1), of vector_add]
  obtain r0 where 0: "code (thr s0 0) = vector_add 0 1 @ r0"
    using c [of 0] by (auto simp: assms(3) vec_init_def)
  obtain r1 where 1: "code (thr s0 1) = vector_add 1 0 @ r1"
    using c [of 1] by (auto simp: assms(3) vec_init_def)
  have j: "\<exists>d is. d < 2 \<and> code (thr s0 j) = Lock (VLock d) # is" for j
  proof -
    obtain d rest where d: "d < 2" "vec_worker vector_add cfg (thread_arg cfg j) = vector_add d (1 - d) @ rest"
      using c [of j] by blast
    obtain x "is" where "vector_add d (1 - d) = Lock (VLock d) # x # is" using assms(2) [of d] by blast
    with d show ?thesis by (simp add: assms(3) vec_init_def)
  qed
  have h: "vector_add 0 1 = Lock (VLock 0) # tl (vector_add 0 1)" "vector_add 1 0 = Lock (VLock 1) # tl (vector_add 1 0)"
    using assms(2) [of 0] assms(2) [of 1] by auto
  have c0: "code (thr s0 0) = Lock (VLock 0) # tl (vector_add 0 1) @ r0" using 0 by (subst (asm) h(1)) simp
  have c1: "code (thr s0 1) = Lock (VLock 1) # tl (vector_add 1 0) @ r1" using 1 by (subst (asm) h(2)) simp
  have o: "owner s0 = (\<lambda>_. None)" "vals s0 = vector_init" by (simp_all add: assms(3) vec_init_def)
  let ?s1 = "s0\<lparr>owner := (owner s0)(VLock 0 \<mapsto> 0), thr := (thr s0)(0 := (thr s0 0)\<lparr>code := tl (vector_add 0 1) @ r0\<rparr>)\<rparr>"
  let ?s2 = "?s1\<lparr>owner := (owner ?s1)(VLock 1 \<mapsto> 1), thr := (thr ?s1)(1 := (thr ?s1 1)\<lparr>code := tl (vector_add 1 0) @ r1\<rparr>)\<rparr>"
  have "vec_step 0 s0 = Some ?s1" by (rule vec_step_Lock) (simp_all add: c0 o)
  moreover have "vec_step 1 ?s1 = Some ?s2" by (rule vec_step_Lock) (simp_all add: c1 [simplified] o)
  ultimately have "run_sched vec_step [0, 1] s0 = Some ?s2" by simp
  then show ?thesis using o j by (intro exI [of _ ?s2]) simp
qed

text \<open>
  One round of a \<^verbatim>\<open>trylock\<close> that fails: count, release, lock again, with nothing changed but the
  counter.
\<close>

lemma retry_round:
  assumes "code (thr s i) = TryLock (VLock m) d # is" "owner s (VLock m) \<noteq> None" "m \<noteq> d" "owner s (VLock d) = Some i"
  shows "\<exists>s'. run_sched vec_step [i, i, i, i, i] s = Some s' \<and> code (thr s' i) = code (thr s i) \<and>
    owner s' = owner s \<and> vals s' = vals s \<and> (\<forall>j. j \<noteq> i \<longrightarrow> thr s' j = thr s j)"
  using assms by (auto simp: vec_step_def fun_eq_iff)

definition livelocked :: "vstate \<Rightarrow> bool" where
  "livelocked s \<longleftrightarrow> (\<exists>is. code (thr s 0) = TryLock (VLock 1) 0 # is) \<and> (\<exists>is. code (thr s 1) = TryLock (VLock 0) 1 # is) \<and>
     owner s (VLock 0) = Some 0 \<and> owner s (VLock 1) = Some 1 \<and> vals s = vector_init"

lemma livelock_round:
  assumes "livelocked s"
  shows "\<exists>s'. run_sched vec_step [0, 0, 0, 0, 0, 1, 1, 1, 1, 1] s = Some s' \<and> livelocked s'"
proof -
  obtain is0 is1 where c: "code (thr s 0) = TryLock (VLock 1) 0 # is0" "code (thr s 1) = TryLock (VLock 0) 1 # is1"
    using assms by (auto simp: livelocked_def)
  have o: "owner s (VLock 0) = Some 0" "owner s (VLock 1) = Some 1" "vals s = vector_init"
    using assms by (auto simp: livelocked_def)
  obtain s1 where s1: "run_sched vec_step [0, 0, 0, 0, 0] s = Some s1" "code (thr s1 0) = code (thr s 0)"
    "owner s1 = owner s" "vals s1 = vals s" "\<forall>j. j \<noteq> 0 \<longrightarrow> thr s1 j = thr s j"
    using retry_round [of s 0 1 0 is0] c o by auto
  have c1: "code (thr s1 1) = TryLock (VLock 0) 1 # is1" using s1(5) c(2) by simp
  obtain s2 where s2: "run_sched vec_step [1, 1, 1, 1, 1] s1 = Some s2" "code (thr s2 1) = code (thr s1 1)"
    "owner s2 = owner s1" "vals s2 = vals s1" "\<forall>j. j \<noteq> 1 \<longrightarrow> thr s2 j = thr s1 j"
    using retry_round [OF c1] s1(3) o by auto
  have "code (thr s2 0) = TryLock (VLock 1) 0 # is0" using s2(5) s1(2) c(1) by simp
  then have "livelocked s2" using s2 s1 c1 o by (simp add: livelocked_def)
  moreover have "run_sched vec_step ([0, 0, 0, 0, 0] @ [1, 1, 1, 1, 1]) s = Some s2"
    unfolding run_sched_append using s1(1) s2(1) by (simp del: run_sched.simps)
  ultimately show ?thesis by (auto simp del: run_sched.simps)
qed

lemma livelock_rounds:
  assumes "livelocked s"
  shows "\<exists>s'. run_sched vec_step (concat (replicate k [0, 0, 0, 0, 0, 1, 1, 1, 1, 1])) s = Some s' \<and> livelocked s'"
  using assms
proof (induction k arbitrary: s)
  case (Suc k)
  obtain s1 where s1: "run_sched vec_step [0, 0, 0, 0, 0, 1, 1, 1, 1, 1] s = Some s1" "livelocked s1"
    using livelock_round [OF Suc.prems] by blast
  then obtain s' where s': "run_sched vec_step (concat (replicate k [0, 0, 0, 0, 0, 1, 1, 1, 1, 1])) s1 = Some s'" "livelocked s'"
    using Suc.IH by blast
  show ?case unfolding replicate.simps concat.simps run_sched_append s1(1) using s' by simp
qed simp

text \<open>C33: With \<^verbatim>\<open>-d\<close>, and neither \<^verbatim>\<open>-p\<close>, which gives each thread vectors of its own, nor \<^verbatim>\<open>-v\<close>, the first version
  can deadlock: with at least two threads and one turn there is an execution in which \<^verbatim>\<open>main\<close> waits and no thread can ever move again.\<close>

theorem vector_deadlock_stuck:
  assumes "vec_main argv = Inr (Started cfg)" "crossing cfg" "2 \<le> num_threads cfg"
  shows "\<exists>p. reachable (vec_program cfg) (pool_init (vec_init vector_add_deadlock cfg)) p \<and> \<not> ended p \<and>
    (\<forall>q. \<not> vec_program cfg p q)"
proof -
  let ?n = "nat (num_threads cfg)" and ?s0 = "vec_init vector_add_deadlock cfg"
  have n: "2 \<le> ?n" using assms(3) by simp
  obtain s r0 r1 where s: "run_sched vec_step [0, 1] ?s0 = Some s" "owner s (VLock 0) = Some 0" "owner s (VLock 1) = Some 1"
    "code (thr s 0) = tl (vector_add_deadlock 0 1) @ r0" "code (thr s 1) = tl (vector_add_deadlock 1 0) @ r1"
    and o: "\<forall>j. j \<noteq> 0 \<longrightarrow> j \<noteq> 1 \<longrightarrow> (\<exists>d is. d < 2 \<and> code (thr s j) = Lock (VLock d) # is)"
    using crossing_start [OF assms(2) _ refl, of vector_add_deadlock] by (auto simp: vector_add_deadlock_def simp del: run_sched.simps)
  let ?p = "(pool_init ?s0)\<lparr>created := ?n, pool := s\<rparr>"
  have "run_sched (pool_step ?n vec_step vec_done) [0, 1] ((pool_init ?s0)\<lparr>created := ?n\<rparr>) = Some ?p"
    using run_sched_pool [of "[0, 1]" ?n "(pool_init ?s0)\<lparr>created := ?n\<rparr>" vec_step s vec_done] s(1) assms(3)
    by (simp add: pool_init_def del: run_sched.simps)
  then have "reachable (vec_program cfg) ((pool_init ?s0)\<lparr>created := ?n\<rparr>) ?p"
    by (rule run_sched_reachable) (use n in auto)
  then have r: "reachable (vec_program cfg) (pool_init ?s0) ?p"
    by (rule reachable_trans) (rule all_created, simp)
  have stuck: "vec_step j s = None" for j
  proof -
    consider "j = 0" | "j = 1" | d "is" where "d < 2" "code (thr s j) = Lock (VLock d) # is" using o by blast
    then show ?thesis
    proof cases
      case 3
      then have "d = 0 \<or> d = 1" by auto
      with 3 s show ?thesis by (auto simp: vec_step_None)
    qed (use s in \<open>auto simp: vec_step_None vector_add_deadlock_def\<close>)
  qed
  have "\<not> vec_done 0 s" using s(4) by (simp add: vec_done_def vector_add_deadlock_def)
  then have "main_step ?n vec_done ?p = None" using n by (simp add: main_step_def pool_init_def)
  then have "\<not> vec_program cfg ?p q" for q
    using stuck by (auto elim!: program_cases)
  with r show ?thesis by (intro exI [of _ ?p]) (simp add: pool_init_def)
qed

theorem vector_deadlock_stuck_witness:
  "\<exists>p. reachable (vec_program (vconfig0\<lparr>cause_deadlock := True\<rparr>))
      (pool_init (vec_init vector_add_deadlock (vconfig0\<lparr>cause_deadlock := True\<rparr>))) p \<and> \<not> ended p \<and>
    (\<forall>q. \<not> vec_program (vconfig0\<lparr>cause_deadlock := True\<rparr>) p q)"
proof -
  have m: "vec_main [''vector-deadlock'', ''-d''] = Inr (Started (vconfig0\<lparr>cause_deadlock := True\<rparr>))" by code_simp
  show ?thesis by (rule vector_deadlock_stuck [OF m]) (simp_all add: crossing_def vconfig0_def)
qed

text \<open>C34: The version with \<^verbatim>\<open>trylock\<close> never gets stuck, but with \<^verbatim>\<open>-d\<close>, neither \<^verbatim>\<open>-p\<close> nor \<^verbatim>\<open>-v\<close>, at least one
  turn and two threads it can livelock: there is a schedule, fair to both threads, that repeats for ever and in which no element is ever added.\<close>

theorem try_wait_livelock:
  assumes "vec_main argv = Inr (Started cfg)"
  shows "(\<forall>p. reachable (vec_program cfg) (pool_init (vec_init vector_add_try_wait cfg)) p \<longrightarrow> \<not> ended p \<longrightarrow>
      (\<exists>q. vec_program cfg p q)) \<and>
    (crossing cfg \<longrightarrow> num_threads cfg = 2 \<longrightarrow> (\<forall>k. \<exists>p.
      run_sched (pool_step 2 vec_step vec_done) ([2, 2, 0, 1] @ concat (replicate k [0, 0, 0, 0, 0, 1, 1, 1, 1, 1]))
        (pool_init (vec_init vector_add_try_wait cfg)) = Some p \<and>
      \<not> vec_done 0 (pool p) \<and> \<not> vec_done 1 (pool p) \<and> vals (pool p) = vector_init))"
proof (intro conjI allI impI)
  fix p assume p: "reachable (vec_program cfg) (pool_init (vec_init vector_add_try_wait cfg)) p" "\<not> ended p"
  from twm.never_stuck [OF p] show "\<exists>q. vec_program cfg p q" .
next
  fix k assume c: "crossing cfg" "num_threads cfg = 2"
  let ?s0 = "vec_init vector_add_try_wait cfg" and ?rounds = "concat (replicate k [0, 0, 0, 0, 0, 1, 1, 1, 1, 1])"
  obtain s where s: "run_sched vec_step [0, 1] ?s0 = Some s" "livelocked s"
    using crossing_start [OF c(1) _ refl, of vector_add_try_wait]
    by (auto simp: vector_add_try_wait_def livelocked_def simp del: run_sched.simps)
  obtain s' where s': "run_sched vec_step ?rounds s = Some s'" "livelocked s'"
    using livelock_rounds [OF s(2)] by blast
  let ?p = "(pool_init ?s0)\<lparr>created := 2\<rparr>"
  have "run_sched vec_step ([0, 1] @ ?rounds) (pool ?p) = Some s'"
    unfolding run_sched_append using s(1) s'(1) by (simp add: pool_init_def del: run_sched.simps)
  then have "run_sched (pool_step 2 vec_step vec_done) ([0, 1] @ ?rounds) ?p = Some (?p\<lparr>pool := s'\<rparr>)"
    by (intro run_sched_pool) auto
  moreover have "run_sched (pool_step 2 vec_step vec_done) [2, 2] (pool_init ?s0) = Some ?p"
    by (simp add: pool_step_def main_step_def pool_init_def)
  ultimately have "run_sched (pool_step 2 vec_step vec_done) ([2, 2] @ [0, 1] @ ?rounds) (pool_init ?s0) = Some (?p\<lparr>pool := s'\<rparr>)"
    unfolding run_sched_append [of _ "[2, 2]"] by simp
  then show "\<exists>p. run_sched (pool_step 2 vec_step vec_done) ([2, 2, 0, 1] @ ?rounds) (pool_init ?s0) = Some p \<and>
      \<not> vec_done 0 (pool p) \<and> \<not> vec_done 1 (pool p) \<and> vals (pool p) = vector_init"
    using s'(2) by (intro exI [of _ "?p\<lparr>pool := s'\<rparr>"]) (auto simp: livelocked_def vec_done_def)
qed

theorem try_wait_livelock_witness:
  "\<exists>p. run_sched (pool_step 2 vec_step vec_done) ([2, 2, 0, 1] @ concat (replicate 7 [0, 0, 0, 0, 0, 1, 1, 1, 1, 1]))
    (pool_init (vec_init vector_add_try_wait (vconfig0\<lparr>cause_deadlock := True\<rparr>))) = Some p \<and>
    \<not> vec_done 0 (pool p) \<and> \<not> vec_done 1 (pool p) \<and> vals (pool p) = vector_init"
proof -
  have m: "vec_main [''vector-try-wait'', ''-d''] = Inr (Started (vconfig0\<lparr>cause_deadlock := True\<rparr>))" by code_simp
  have "crossing (vconfig0\<lparr>cause_deadlock := True\<rparr>)" "num_threads (vconfig0\<lparr>cause_deadlock := True\<rparr>) = 2"
    by (simp_all add: crossing_def vconfig0_def)
  with try_wait_livelock [OF m] show ?thesis by blast
qed

end
