(* ===== verification/Paging.thy ===== *)
theory Paging
  imports CArgs
begin

section \<open>Programs that touch memory\<close>

text \<open>
  \<^verbatim>\<open>swaping/mem.c\<close> increments every element of a large array for ever; \<^verbatim>\<open>tlb/exersies/2/tlb.c\<close> touches one
  byte of every page of an array for a number of trials. Both compute sizes and indices from their
  arguments in different integer types. \<^verbatim>\<open>malloc\<close> is a parameter: for a number of bytes it
  gives no block, or the content of a new one. Reading the clock and the reports are left out.
\<close>

subsection \<open>mem.c\<close>

text \<open>The object \<^verbatim>\<open>x\<close> points to has \<open>x_bytes\<close> bytes; an \<^verbatim>\<open>int\<close> takes 4 of them.\<close>

record mem =
  x_bytes :: nat
  x_vals :: "nat \<Rightarrow> int"
  num_ints :: int
  idx :: int
  loop_count :: int

text \<open>
  \<^verbatim>\<open>size_in_bytes\<close> cannot overflow a \<^verbatim>\<open>long long\<close>. It is converted to \<^verbatim>\<open>size_t\<close> for \<^verbatim>\<open>malloc\<close>, and also for the
  division, because \<^verbatim>\<open>sizeof\<close> is unsigned.
\<close>

definition mem_main :: "(nat \<Rightarrow> (nat \<Rightarrow> int) option) \<Rightarrow> string list \<Rightarrow> mem started cres" where
  "mem_main malloc argv =
     (if length argv \<noteq> 2 then Inr (Exit 1)
      else cbind (atoi (argv ! 1)) (\<lambda>sz.
        let size_in_bytes = sz * 1024 * 1024; u = size_in_bytes mod 2 ^ 64
        in Inr (case malloc (nat u) of
                  None \<Rightarrow> Exit 1
                | Some x \<Rightarrow> Started \<lparr>x_bytes = nat u, x_vals = x, num_ints = u div 4, idx = 0, loop_count = 0\<rparr>)))"

text \<open>One turn of the loop.\<close>

definition mem_iter :: "mem \<Rightarrow> mem cres" where
  "mem_iter s =
     (if int (x_bytes s) < 4 * (idx s + 1) then Inl OutOfBounds
      else cbind (chk (x_vals s (nat (idx s)) + 1)) (\<lambda>v.
        cbind (chk (idx s + 1)) (\<lambda>i.
          let s1 = s\<lparr>x_vals := (x_vals s)(nat (idx s) := v), idx := i\<rparr>
          in if i = num_ints s
             then cbind (chk (loop_count s + 1)) (\<lambda>c. Inr (s1\<lparr>idx := 0, loop_count := c\<rparr>))
             else Inr s1)))"

fun mem_run :: "nat \<Rightarrow> mem \<Rightarrow> mem cres" where
  "mem_run 0 s = Inr s"
| "mem_run (Suc t) s = cbind (mem_run t s) mem_iter"

text \<open>The array after \<open>a\<close> sweeps and \<open>b\<close> more elements, and the whole state.\<close>

definition swept :: "nat \<Rightarrow> nat \<Rightarrow> mem \<Rightarrow> nat \<Rightarrow> int" where
  "swept a b s j = (if j < nat (num_ints s) then x_vals s j + int a + (if j < b then 1 else 0) else x_vals s j)"

definition touched :: "nat \<Rightarrow> nat \<Rightarrow> mem \<Rightarrow> mem" where
  "touched a b s = s\<lparr>x_vals := swept a b s, idx := int b, loop_count := int a\<rparr>"

lemma swept_next: "b < nat (num_ints s) \<Longrightarrow> (swept a b s)(b := x_vals s b + int a + 1) = swept a (Suc b) s"
  by (auto simp: swept_def fun_eq_iff less_Suc_eq)

lemma swept_all: "swept a (nat (num_ints s)) s = swept (Suc a) 0 s"
  by (auto simp: swept_def fun_eq_iff)

text \<open>The elements stay in the range of \<^verbatim>\<open>int\<close> for \<open>a + 1\<close> increments.\<close>

lemma room_mono:
  fixes f :: "nat \<Rightarrow> int"
  assumes "\<forall>j. INT_MIN \<le> f j \<and> f j + int a + 1 \<le> INT_MAX" "c \<le> a"
  shows "\<forall>j. INT_MIN \<le> f j \<and> f j + int c \<le> INT_MAX" "\<forall>j. INT_MIN \<le> f j \<and> f j + int c + 1 \<le> INT_MAX"
proof -
  have "INT_MIN \<le> f j \<and> f j + int c + 1 \<le> INT_MAX" for j using spec [OF assms(1), of j] assms(2) by linarith
  then show "\<forall>j. INT_MIN \<le> f j \<and> f j + int c + 1 \<le> INT_MAX" by blast
  have "INT_MIN \<le> f j \<and> f j + int c \<le> INT_MAX" for j using spec [OF assms(1), of j] assms(2) by linarith
  then show "\<forall>j. INT_MIN \<le> f j \<and> f j + int c \<le> INT_MAX" by blast
qed

lemma mem_iter_step:
  assumes n: "4 * num_ints s \<le> int (x_bytes s)" and b: "int b < num_ints s" "int b + 1 \<le> INT_MAX"
    and v: "\<forall>j. INT_MIN \<le> x_vals s j \<and> x_vals s j + int a + 1 \<le> INT_MAX" and a: "int a + 1 \<le> INT_MAX"
  shows "mem_iter (touched a b s) = Inr (if int b + 1 = num_ints s then touched (Suc a) 0 s else touched a (Suc b) s)"
proof -
  have b': "b < nat (num_ints s)" using b by simp
  have val: "x_vals (touched a b s) (nat (idx (touched a b s))) + 1 = x_vals s b + int a + 1"
    using b' by (simp add: touched_def swept_def)
  have ok: "int_ok (x_vals s b + int a + 1)" "int_ok (int b + 1)" "int_ok (int a + 1)"
    using spec [OF v, of b] a b(2) by (auto simp: int_ok_def INT_MIN_def)
  have "mem_iter (touched a b s) = (let s1 = (touched a b s)\<lparr>x_vals := swept a (Suc b) s, idx := int b + 1\<rparr>
      in if int b + 1 = num_ints s then Inr (s1\<lparr>idx := 0, loop_count := int a + 1\<rparr>) else Inr s1)"
    unfolding mem_iter_def val chk_ok [OF ok(1)] using n b(1) ok swept_next [OF b', of a]
    by (simp add: touched_def chk_ok Let_def)
  moreover have "swept a (Suc b) s = swept (Suc a) 0 s" if "int b + 1 = num_ints s"
    using swept_all [of a s] that by (metis Suc_as_int nat_int of_nat_Suc add.commute)
  ultimately show ?thesis by (simp add: touched_def Let_def add.commute)
qed

lemma mem_run_add: "mem_run (t + u) s = cbind (mem_run t s) (mem_run u)"
proof (induction u)
  case (Suc u)
  then show ?case by (cases "mem_run t s") auto
qed (cases "mem_run t s"; simp)

lemma mem_sweep:
  assumes n: "4 * num_ints s \<le> int (x_bytes s)" and b: "int b < num_ints s" "int b \<le> INT_MAX"
    and v: "\<forall>j. INT_MIN \<le> x_vals s j \<and> x_vals s j + int a + 1 \<le> INT_MAX" and a: "int a + 1 \<le> INT_MAX"
  shows "mem_run b (touched a 0 s) = Inr (touched a b s)"
  using b
proof (induction b)
  case (Suc b)
  have "mem_iter (touched a b s) = Inr (touched a (Suc b) s)"
    using mem_iter_step [OF n _ _ v a, of b] Suc.prems by simp
  with Suc show ?case by simp
qed simp

lemma mem_sweeps_aux:
  assumes n: "4 * num_ints s \<le> int (x_bytes s)" "0 < num_ints s" "num_ints s \<le> INT_MAX"
    and v: "\<forall>j. INT_MIN \<le> x_vals s j \<and> x_vals s j + int a \<le> INT_MAX" and a: "int a \<le> INT_MAX"
  shows "mem_run (a * nat (num_ints s)) (touched 0 0 s) = Inr (touched a 0 s)"
  using v a
proof (induction a)
  case (Suc a)
  have v': "\<forall>j. INT_MIN \<le> x_vals s j \<and> x_vals s j + int a + 1 \<le> INT_MAX" and a': "int a + 1 \<le> INT_MAX"
    using Suc.prems by (auto simp: add.commute add.left_commute)
  have v2: "\<forall>j. INT_MIN \<le> x_vals s j \<and> x_vals s j + int a \<le> INT_MAX" by (rule room_mono(1) [OF v' order.refl])
  obtain b where b: "nat (num_ints s) = Suc b" using n(2) by (cases "nat (num_ints s)") auto
  then have bn: "int b < num_ints s" "int b + 1 = num_ints s" by auto
  have "mem_run b (touched a 0 s) = Inr (touched a b s)" using bn n(3) by (intro mem_sweep [OF n(1) _ _ v' a']) auto
  moreover have "mem_iter (touched a b s) = Inr (touched (Suc a) 0 s)"
    using mem_iter_step [OF n(1) bn(1) _ v' a'] bn(2) n(3) by simp
  ultimately have one: "mem_run (nat (num_ints s)) (touched a 0 s) = Inr (touched (Suc a) 0 s)" unfolding b by simp
  have "mem_run (a * nat (num_ints s)) (touched 0 0 s) = Inr (touched a 0 s)" using Suc.IH v2 a' by simp
  then show ?case unfolding mult_Suc using one by (subst add.commute, subst mem_run_add) simp
qed simp

lemma mem_main_Started:
  assumes "mem_main malloc argv = Inr (Started s)" "atoi (argv ! 1) = Inr sz" "1 \<le> sz"
  shows "num_ints s = sz * 262144 \<and> 4 * num_ints s = int (x_bytes s) \<and> touched 0 0 s = s"
proof -
  have "sz \<le> INT_MAX" using atoi_ok [OF assms(2)] by (simp add: int_ok_def)
  then have "(sz * 1024 * 1024) mod 2 ^ 64 = sz * 1048576" using assms(3) by (subst mod_pos_pos_trivial) (auto simp: INT_MAX_def)
  then show ?thesis using assms
    by (auto simp: mem_main_def Let_def touched_def swept_def fun_eq_iff split: if_splits option.splits)
qed

text \<open>C38: For 1 to 8191 MB \<^verbatim>\<open>mem.c\<close> stays inside its array and defined: after \<open>a\<close> sweeps and \<open>b\<close> more elements
  every element has been incremented \<open>a\<close> times, the first \<open>b\<close> of them once more, as long as the
  elements and the count of sweeps fit an \<^verbatim>\<open>int\<close>. From 8192 MB on the index overflows before the first
  sweep is complete.\<close>

theorem mem_sweeps:
  assumes "mem_main malloc argv = Inr (Started s)" "atoi (argv ! 1) = Inr sz"
    and "\<forall>j. INT_MIN \<le> x_vals s j \<and> x_vals s j + int a + 1 \<le> INT_MAX" "int a + 1 \<le> INT_MAX"
  shows "(1 \<le> sz \<and> sz \<le> 8191 \<and> int b < num_ints s \<longrightarrow>
      mem_run (a * nat (num_ints s) + b) s = Inr (touched a b s)) \<and>
    (8192 \<le> sz \<longrightarrow> mem_run 2147483648 s = Inl Overflow)"
proof (intro conjI impI)
  assume sz: "1 \<le> sz \<and> sz \<le> 8191 \<and> int b < num_ints s"
  note m = mem_main_Started [OF assms(1,2)]
  have n: "4 * num_ints s \<le> int (x_bytes s)" "0 < num_ints s" "num_ints s \<le> INT_MAX"
    using m sz by (auto simp: INT_MAX_def)
  have v: "\<forall>j. INT_MIN \<le> x_vals s j \<and> x_vals s j + int a \<le> INT_MAX"
    by (rule room_mono(1) [OF assms(3) order.refl])
  have "mem_run (a * nat (num_ints s)) s = Inr (touched a 0 s)" using mem_sweeps_aux [OF n v] assms(4) m sz by simp
  moreover have "mem_run b (touched a 0 s) = Inr (touched a b s)"
    using sz n by (intro mem_sweep [OF n(1) _ _ assms(3,4)]) auto
  ultimately show "mem_run (a * nat (num_ints s) + b) s = Inr (touched a b s)" by (simp add: mem_run_add)
next
  assume sz: "8192 \<le> sz"
  note m = mem_main_Started [OF assms(1,2)]
  have n: "4 * num_ints s \<le> int (x_bytes s)" "INT_MAX < num_ints s" "touched 0 0 s = s"
    using m sz by (auto simp: INT_MAX_def)
  have v: "\<forall>j. INT_MIN \<le> x_vals s j \<and> x_vals s j + int 0 + 1 \<le> INT_MAX"
    by (rule room_mono(2) [OF assms(3) le0])
  have "mem_run 2147483647 (touched 0 0 s) = Inr (touched 0 2147483647 s)"
    using n(2) by (intro mem_sweep [OF n(1) _ _ v]) (auto simp: INT_MAX_def)
  moreover have "mem_iter (touched 0 2147483647 s) = Inl Overflow"
  proof -
    have "swept 0 2147483647 s 2147483647 = x_vals s 2147483647" by (simp add: swept_def)
    moreover have "chk (x_vals s 2147483647 + 1) = Inr (x_vals s 2147483647 + 1)"
      using spec [OF v, of 2147483647] by (intro chk_ok) (auto simp: int_ok_def INT_MIN_def)
    ultimately show ?thesis using n by (simp add: mem_iter_def touched_def INT_MAX_def) (simp add: chk_def int_ok_simps)
  qed
  ultimately have "mem_run (Suc 2147483647) s = Inl Overflow" unfolding mem_run.simps n(3) by simp
  moreover have "2147483648 = Suc 2147483647" by simp
  ultimately show "mem_run 2147483648 s = Inl Overflow" by (simp only:)
qed

theorem mem_sweeps_witness:
  "\<exists>s. mem_main (\<lambda>_. Some (\<lambda>_. 0)) [''mem'', ''1''] = Inr (Started s) \<and>
    mem_run (2 * 262144 + 5) s = Inr (touched 2 5 s) \<and> x_vals (touched 2 5 s) 4 = 3 \<and> x_vals (touched 2 5 s) 5 = 2"
proof -
  have at: "atoi ([''mem'', ''1''] ! 1) = Inr 1" by code_simp
  obtain s where s: "mem_main (\<lambda>_. Some (\<lambda>_. 0)) [''mem'', ''1''] = Inr (Started s)" "x_vals s = (\<lambda>_. 0)" "num_ints s = 262144"
    using at by (simp add: mem_main_def)
  have "mem_run (2 * nat (num_ints s) + 5) s = Inr (touched 2 5 s)"
    using mem_sweeps [OF s(1) at, of 2 5] s(2,3) by (simp add: INT_MIN_def INT_MAX_def)
  with s show ?thesis by (intro exI [of _ s]) (simp add: touched_def swept_def)
qed

subsection \<open>tlb.c\<close>

definition PAGE_SIZE :: int where "PAGE_SIZE = 4096"

text \<open>The loop over the pages; the index is an \<^verbatim>\<open>int\<close>, and \<open>f\<close> is what is done to the byte.\<close>

function touch_pages :: "(8 word \<Rightarrow> 8 word) \<Rightarrow> int \<Rightarrow> int \<Rightarrow> 8 word list \<Rightarrow> 8 word list cres" where
  "touch_pages f num_pages i a =
     (if i < num_pages then
        cbind (chk (i * PAGE_SIZE)) (\<lambda>k.
          if k < 0 \<or> int (length a) \<le> k then Inl OutOfBounds
          else touch_pages f num_pages (i + 1) (a[nat k := f (a ! nat k)]))
      else Inr a)"
  by pat_completeness auto
termination by (relation "measure (\<lambda>(f, n, i, a). nat (n - i))") auto

declare touch_pages.simps [simp del]

fun tlb_trials :: "int \<Rightarrow> nat \<Rightarrow> 8 word list \<Rightarrow> 8 word list cres" where
  "tlb_trials num_pages 0 a = Inr a"
| "tlb_trials num_pages (Suc t) a = cbind (touch_pages (\<lambda>x. x + 1) num_pages 0 a) (tlb_trials num_pages t)"

text \<open>The clock, in nanoseconds as an unsigned number of 64 bits.\<close>

record timespec =
  tv_sec :: int
  tv_nsec :: int

definition get_ns :: "timespec \<Rightarrow> 64 word" where
  "get_ns ts = of_int (tv_sec ts) * 1000000000 + of_int (tv_nsec ts)"

text \<open>
  The output. The average is a quotient of floating-point numbers; its text is an argument, as a
  function of the two operands.
\<close>

definition tlb_report :: "(64 word \<Rightarrow> int \<times> int \<Rightarrow> string) \<Rightarrow> int \<Rightarrow> int \<Rightarrow> 64 word \<Rightarrow> 64 word \<Rightarrow> string" where
  "tlb_report avg num_pages num_trials t_start t_end =
     (let total_ns = t_end - t_start
      in ''Total time: '' @ dec_nat (unat total_ns) @ '' ns'' @ [NL] @
         ''Average time per access: '' @ avg total_ns (num_pages, num_trials) @ '' ns'' @ [NL])"

text \<open>The array as it is when it is freed, and the output. The clock is read before and after the trials.\<close>

definition tlb_main :: "(nat \<Rightarrow> (nat \<Rightarrow> 8 word) option) \<Rightarrow> timespec \<times> timespec \<Rightarrow>
    (64 word \<Rightarrow> int \<times> int \<Rightarrow> string) \<Rightarrow> string list \<Rightarrow> (8 word list \<times> string) started cres" where
  "tlb_main malloc clock avg argv =
     (if length argv \<noteq> 3 then Inr (Exit 1)
      else cbind (atoi (argv ! 1)) (\<lambda>num_pages.
        cbind (atoi (argv ! 2)) (\<lambda>num_trials.
          let array_size = nat ((num_pages mod 2 ^ 64 * PAGE_SIZE) mod 2 ^ 64)
          in case malloc array_size of
               None \<Rightarrow> Inr (Exit 1)
             | Some x \<Rightarrow>
                 cbind (touch_pages (\<lambda>_. 1) num_pages 0 (map x [0..<array_size])) (\<lambda>a.
                 let t_start = get_ns (fst clock)
                 in cbind (tlb_trials num_pages (nat num_trials) a) (\<lambda>b.
                 let t_end = get_ns (snd clock)
                 in Inr (Started (b, tlb_report avg num_pages num_trials t_start t_end)))))))"

text \<open>The time between two readings is exact, even where the count of nanoseconds wraps.\<close>

definition ns_of :: "timespec \<Rightarrow> int" where
  "ns_of ts = tv_sec ts * 1000000000 + tv_nsec ts"

lemma elapsed_exact:
  assumes "ns_of a \<le> ns_of b" "ns_of b - ns_of a < 2 ^ 64"
  shows "unat (get_ns b - get_ns a) = nat (ns_of b - ns_of a)"
proof -
  have "get_ns b - get_ns a = of_int (ns_of b - ns_of a)" by (simp add: get_ns_def ns_of_def)
  moreover have "uint (of_int (ns_of b - ns_of a) :: 64 word) = ns_of b - ns_of a"
    using assms by (simp add: uint_word_of_int del: of_int_diff)
  ultimately show ?thesis by (metis unat_eq_nat_uint)
qed

text \<open>What has been done to a byte: those at the start of a page from page \<open>i\<close> on.\<close>

definition page_start :: "int \<Rightarrow> int \<Rightarrow> nat \<Rightarrow> bool" where
  "page_start i n j \<longleftrightarrow> 4096 dvd j \<and> i \<le> int j div 4096 \<and> int j div 4096 < n"

lemma touch_pages_ok:
  assumes "0 \<le> i" "n \<le> 524288" "n * 4096 \<le> int (length a)"
  shows "touch_pages f n i a = Inr (map (\<lambda>j. if page_start i n j then f (a ! j) else a ! j) [0..<length a])"
  using assms
proof (induction f n i a rule: touch_pages.induct)
  case (1 f n i a)
  show ?case
  proof (cases "i < n")
    case False
    then have "map (\<lambda>j. if page_start i n j then f (a ! j) else a ! j) [0..<length a] = a"
      by (intro nth_equalityI) (auto simp: page_start_def)
    then show ?thesis using False by (subst touch_pages.simps) simp
  next
    case True
    let ?k = "i * PAGE_SIZE" and ?a = "a[nat (i * 4096) := f (a ! nat (i * 4096))]"
    have k: "chk ?k = Inr ?k" "\<not> (?k < 0 \<or> int (length a) \<le> ?k)"
      using True "1.prems" by (auto simp: int_ok_simps PAGE_SIZE_def)
    have IH: "touch_pages f n (i + 1) ?a = Inr (map (\<lambda>j. if page_start (i + 1) n j then f (?a ! j) else ?a ! j) [0..<length a])"
      using "1.IH" [OF True k(1) k(2)] "1.prems" by (simp add: PAGE_SIZE_def)
    have "(if page_start (i + 1) n j then f (?a ! j) else ?a ! j) = (if page_start i n j then f (a ! j) else a ! j)"
      if "j < length a" for j
    proof (cases "int j = i * 4096")
      case True
      then have "page_start i n j" "\<not> page_start (i + 1) n j" "nat (i * 4096) = j"
        using \<open>i < n\<close> by (auto simp: page_start_def int_dvd_int_iff [symmetric])
      then show ?thesis using that by simp
    next
      case False
      then have "page_start (i + 1) n j = page_start i n j" unfolding page_start_def by (auto elim!: dvdE)
      then show ?thesis using False "1.prems"(1) by (auto simp: nth_list_update)
    qed
    then have "map (\<lambda>j. if page_start (i + 1) n j then f (?a ! j) else ?a ! j) [0..<length a] =
        map (\<lambda>j. if page_start i n j then f (a ! j) else a ! j) [0..<length a]" by simp
    with True k IH show ?thesis by (subst touch_pages.simps) (simp add: PAGE_SIZE_def chk_ok)
  qed
qed

lemma touch_pages_overflow:
  assumes "0 \<le> i" "i \<le> 524288" "524288 < n" "n * 4096 \<le> int (length a)"
  shows "touch_pages f n i a = Inl Overflow"
  using assms
proof (induction f n i a rule: touch_pages.induct)
  case (1 f n i a)
  show ?case
  proof (cases "i = 524288")
    case True
    then show ?thesis using "1.prems" by (subst touch_pages.simps) (simp add: PAGE_SIZE_def chk_def int_ok_simps)
  next
    case False
    have i: "i < n" "chk (i * PAGE_SIZE) = Inr (i * PAGE_SIZE)" "\<not> (i * PAGE_SIZE < 0 \<or> int (length a) \<le> i * PAGE_SIZE)"
      using "1.prems" False by (auto simp: int_ok_simps PAGE_SIZE_def)
    with "1.IH" [OF i] "1.prems" False show ?thesis by (subst touch_pages.simps) (simp add: chk_ok)
  qed
qed

lemma tlb_trials_ok:
  assumes "n \<le> 524288" "n * 4096 \<le> int (length a)"
  shows "tlb_trials n t a = Inr (map (\<lambda>j. if page_start 0 n j then a ! j + of_nat t else a ! j) [0..<length a])"
  using assms(2)
proof (induction t arbitrary: a)
  case 0
  then show ?case by (simp add: map_nth cong: if_cong)
next
  case (Suc t)
  let ?a = "map (\<lambda>j. if page_start 0 n j then a ! j + 1 else a ! j) [0..<length a]"
  have "tlb_trials n (Suc t) a = tlb_trials n t ?a"
    using touch_pages_ok [OF order.refl assms(1) Suc.prems] by simp
  also have "\<dots> = Inr (map (\<lambda>j. if page_start 0 n j then ?a ! j + of_nat t else ?a ! j) [0..<length ?a])"
    using Suc.prems by (intro Suc.IH) simp
  also have "map (\<lambda>j. if page_start 0 n j then ?a ! j + of_nat t else ?a ! j) [0..<length ?a] =
      map (\<lambda>j. if page_start 0 n j then a ! j + of_nat (Suc t) else a ! j) [0..<length a]"
    by (intro nth_equalityI) (auto simp: add.assoc)
  finally show ?case .
qed

text \<open>C39: With up to 524288 pages \<^verbatim>\<open>tlb.c\<close> touches the first byte of every page and no other byte: after the
  trials it holds one more than their number, modulo 256. It then prints the nanoseconds between the
  two readings of the clock. With more pages the index \<^verbatim>\<open>i * PAGE_SIZE\<close> overflows, although the array
  is large enough.\<close>

theorem tlb_touches_pages:
  assumes "length argv = 3" "atoi (argv ! 1) = Inr n" "atoi (argv ! 2) = Inr t" "0 \<le> n"
    and "malloc (nat n * 4096) = Some x" "ns_of t0 \<le> ns_of t1" "ns_of t1 - ns_of t0 < 2 ^ 64"
  shows "tlb_main malloc (t0, t1) avg argv = (if n \<le> 524288
    then Inr (Started (map (\<lambda>j. if page_start 0 n j then 1 + of_nat (nat t) else x j) [0..<nat n * 4096],
      ''Total time: '' @ dec_nat (nat (ns_of t1 - ns_of t0)) @ '' ns'' @ [NL] @
      ''Average time per access: '' @ avg (get_ns t1 - get_ns t0) (n, t) @ '' ns'' @ [NL]))
    else Inl Overflow)"
proof -
  let ?out = "''Total time: '' @ dec_nat (nat (ns_of t1 - ns_of t0)) @ '' ns'' @ [NL] @
      ''Average time per access: '' @ avg (get_ns t1 - get_ns t0) (n, t) @ '' ns'' @ [NL]"
  have "n \<le> INT_MAX" using atoi_ok [OF assms(2)] by (simp add: int_ok_def)
  then have e: "(n mod 2 ^ 64 * PAGE_SIZE) mod 2 ^ 64 = n * 4096" using assms(4)
    by (simp add: PAGE_SIZE_def INT_MAX_def mod_pos_pos_trivial)
  have sz: "nat ((n mod 2 ^ 64 * PAGE_SIZE) mod 2 ^ 64) = nat n * 4096"
    unfolding e using assms(4) by (simp add: nat_mult_distrib)
  let ?a = "map x [0..<nat n * 4096]"
  have len: "n * 4096 \<le> int (length ?a)" using assms(4) by simp
  have main: "tlb_main malloc (t0, t1) avg argv = cbind (touch_pages (\<lambda>_. 1) n 0 ?a) (\<lambda>a.
      cbind (tlb_trials n (nat t) a) (\<lambda>b. Inr (Started (b, ?out))))"
    using assms(1-5) unfolding tlb_main_def tlb_report_def Let_def
    by (simp add: sz [simplified] elapsed_exact [OF assms(6,7)])
  show ?thesis
  proof (cases "n \<le> 524288")
    case True
    let ?b = "map (\<lambda>j. if page_start 0 n j then 1 else ?a ! j) [0..<length ?a]"
    have "tlb_main malloc (t0, t1) avg argv = cbind (tlb_trials n (nat t) ?b) (\<lambda>b. Inr (Started (b, ?out)))"
      unfolding main touch_pages_ok [OF order.refl True len] by simp
    also have "tlb_trials n (nat t) ?b = Inr (map (\<lambda>j. if page_start 0 n j then ?b ! j + of_nat (nat t) else ?b ! j) [0..<length ?b])"
      using len by (intro tlb_trials_ok True) simp
    also have "map (\<lambda>j. if page_start 0 n j then ?b ! j + of_nat (nat t) else ?b ! j) [0..<length ?b] =
        map (\<lambda>j. if page_start 0 n j then 1 + of_nat (nat t) else x j) [0..<nat n * 4096]"
      by (intro nth_equalityI) auto
    finally show ?thesis using True by simp
  next
    case False
    then show ?thesis unfolding main using touch_pages_overflow [OF order.refl _ _ len] by simp
  qed
qed

theorem tlb_touches_pages_witness:
  "tlb_main (\<lambda>_. Some (\<lambda>_. 7)) (\<lparr>tv_sec = 18446744073, tv_nsec = 709551610\<rparr>, \<lparr>tv_sec = 18446744074, tv_nsec = 0\<rparr>)
     (\<lambda>_ _. ''0.48'') [''tlb'', ''2'', ''300''] =
     Inr (Started (map (\<lambda>j. if page_start 0 2 j then 45 else 7) [0..<8192],
       ''Total time: 290448390 ns'' @ [NL] @ ''Average time per access: 0.48 ns'' @ [NL]))"
proof -
  let ?t0 = "\<lparr>tv_sec = 18446744073, tv_nsec = 709551610\<rparr>" and ?t1 = "\<lparr>tv_sec = 18446744074, tv_nsec = 0\<rparr>"
  have a: "length [''tlb'', ''2'', ''300''] = 3" "atoi ([''tlb'', ''2'', ''300''] ! 1) = Inr 2"
    "atoi ([''tlb'', ''2'', ''300''] ! 2) = Inr 300" by code_simp+
  have w: "1 + of_nat (nat 300) = (45 :: 8 word)" by simp
  have ns: "ns_of ?t1 - ns_of ?t0 = 290448390" "ns_of ?t0 \<le> ns_of ?t1" by (simp_all add: ns_of_def)
  have d: "dec_nat (nat 290448390) = ''290448390''" by code_simp
  show ?thesis
    using tlb_touches_pages [OF a, of "\<lambda>_. Some (\<lambda>_. 7)" "\<lambda>_. 7" ?t0 ?t1 "\<lambda>_ _. ''0.48''"]
    unfolding ns(1) w d using ns(2) by simp
qed

end
