(* ===== verification/Spec2Isabelle.thy ===== *)
theory Spec2Isabelle
  imports FileConversation AioSpec SelectServer ForkJoin Barrier RwLock NsMutex Zemaphore Counter SloppyCounter
    VectorSpec Paging
begin

text \<open>
  \<^bold>\<open>A verification of the C programs of the exercises.\<close>

  The repository holds exercises on operating systems. Its C programs are of three kinds: network
  servers built on an event loop, programs in which threads share data under semaphores or locks,
  and small programs that touch memory. Each is modelled from its source, function by function, as
  a HOL function or a step relation that can be evaluated, and shown to do what it is meant to do, or where
  it does not, that it fails.

  \<^bold>\<open>Conventions.\<close> A call returns a sum: a fault (an operation C leaves undefined, a failed
  assertion, a signal that ends the process, a call that has not come back) or a value; \<^const>\<open>cbind\<close> sequences calls. What the kernel, the
  allocator, the clock and the file system answer are arguments of the definitions, so that a
  theorem holds for all of their answers; counts they return are cut to what was asked for, and descriptors
  they hand out are not in use, as POSIX documents. Memory from \<^verbatim>\<open>malloc\<close> is an explicit heap of
  blocks wherever blocks are freed or shared. Threads interleave between atomic statements, a
  read and a write of a shared variable being two of them; an execution is any sequence of such
  steps, so what is shown holds under every scheduling.

  \<^bold>\<open>Shared theories.\<close>
  \<^item> \<open>Prelude\<close>: results with faults, bytes and C strings, \<^verbatim>\<open>memchr\<close> and \<^verbatim>\<open>memmove\<close>, tables with
    swap-remove, the heap.
  \<^item> \<open>CArgs\<close>: \<^verbatim>\<open>int\<close> with its range, \<^verbatim>\<open>atoi\<close>, decimal output, exit status or start of a \<^verbatim>\<open>main\<close>.
  \<^item> \<open>Syscalls\<close>: what the servers use of the kernel and of the C library: the outcome of reads and
    writes, the loop that writes a whole buffer, formatted output, the listening socket.
  \<^item> \<open>Prompt\<close>: operations that return when the kernel goes on answering their writes; the locale \<open>writing\<close> is about any
    state that holds the answers and is interpreted for both file servers.
  \<^item> \<open>Framing\<close>: the split of a byte stream into lines, and how one turn of the buffer loops of the
    servers relates to it.
  \<^item> \<open>Transitions\<close>: reachable states, schedules, and the locales for an invariant, for the absence of
    deadlock and for the absence of endless executions; sums over threads.
  \<^item> \<open>Workers\<close>: the \<^verbatim>\<open>main\<close> that creates and joins workers, with locales that lift what holds of the
    workers to the program.

  \<^bold>\<open>Servers\<close> (\<^verbatim>\<open>concurrency/event-based-concurrency/exercise\<close>).
  \<^item> \<open>FileCache\<close>: the response cache of \<^verbatim>\<open>file-server.c\<close> (\<^verbatim>\<open>cache_lookup\<close>, \<^verbatim>\<open>cache_insert\<close>, \<^verbatim>\<open>cache_clear\<close>) on the
    heap. It implements a first-in-first-out map of at most 16 entries and owns exactly its live blocks; the
    locale \<open>response_cache\<close> states this interface.
  \<^item> \<open>FileServer\<close>: the definitions: the connection table, \<^verbatim>\<open>write_all\<close>, \<^verbatim>\<open>serve_file\<close> with all of its branches,
    \<^verbatim>\<open>process_requests\<close>, the event loop with its signals, \<^verbatim>\<open>main\<close>.
  \<^item> \<open>FileRequests\<close>, \<open>FileLoop\<close>: what a request and what a turn of the loop do, branch by branch, and the
    invariant of the server.
  \<^item> \<open>FileReturns\<close>: every operation, up to a whole turn of the loop, returns while the kernel takes bytes again and again.
  \<^item> \<open>FileServerSpec\<close>: the answer to a request as a reference function of the file system; no path outside the
    document root is opened; nothing undefined happens and nothing is left behind at exit.
  \<^item> \<open>FileConversation\<close>: whole executions from \<^verbatim>\<open>main\<close> on: what is sent on a connection is the answers to the
    lines received on it, whatever the other connections, the cache and the signals do, and it can be decoded.
  \<^item> \<open>AioServer\<close>: the definitions of \<^verbatim>\<open>aio-file-server.c\<close>, where a connection is a state machine.
  \<^item> \<open>AioStreams\<close>, \<open>AioRequests\<close>, \<open>AioLoop\<close>: its invariant, stated against the locale \<open>reply_world\<close> (which replies a
    request may get, which bytes a file may hold, and what the answers of the system calls say about either), and that
    requests, parts of the loop body and turns keep it.
  \<^item> \<open>AioReturns\<close>: its operations return while the kernel takes bytes and cancelled reads come to an end.
  \<^item> \<open>AioSpec\<close>: the locale is interpreted for arbitrary files and for a file system at rest. No block, file or
    socket is leaked or released twice; every line gets exactly one whole reply, in order; at rest this
    is the answer \<^verbatim>\<open>file-server.c\<close> gives or a refusal for lack of resources. The only thing a
    turn can do that is undefined is to ask for an asynchronous read whose control block has been moved, which does happen.
  \<^item> \<open>TimeServer\<close>, \<open>SelectServer\<close>: \<^verbatim>\<open>tcp-time-server.c\<close> and \<^verbatim>\<open>select-server.c\<close>. Every connection, and every
    complete line, gets exactly one reply in every execution; the table of the select server is that of the file
    server, whose lemmas it reuses. Both programs die of \<^verbatim>\<open>SIGPIPE\<close>, and only of that.

  \<^bold>\<open>Semaphores\<close> (\<^verbatim>\<open>concurrency/semaphores\<close>).
  \<^item> \<open>Semaphore\<close>: the value of a POSIX semaphore.
  \<^item> \<open>ForkJoin\<close>: \<^verbatim>\<open>fork-join.c\<close> and \<^verbatim>\<open>rendezvous.c\<close>: the order of the output, and that both return.
  \<^item> \<open>Barrier\<close>: \<^verbatim>\<open>barrier.c\<close> for any number of children: none passes before all have arrived, and all pass.
  \<^item> \<open>RwLock\<close>: \<^verbatim>\<open>reader-writer.c\<close> and \<^verbatim>\<open>reader-writer-nostarve.c\<close>: exclusion, the final value, and how many
    readers may overtake a writer that waits.
  \<^item> \<open>NsMutex\<close>: \<^verbatim>\<open>mutex-nostarve.c\<close> with its queue on the heap: exclusion holds, but a waiter can be lost for
    good.
  \<^item> \<open>Zemaphore\<close>: \<^verbatim>\<open>zemaphore.h\<close>, a semaphore made of a mutex and a condition variable: it refines a
    semaphore and loses no wake-up.

  \<^bold>\<open>Locks\<close> (\<^verbatim>\<open>concurrency/locked-data-structures\<close>, \<^verbatim>\<open>uncontrolled-scheduling\<close>, \<^verbatim>\<open>concurrency-bugs\<close>).
  \<^item> \<open>Counter\<close>: \<^verbatim>\<open>timer.c\<close> counts exactly and prints the product of its arguments; \<^verbatim>\<open>t1.c\<close>, without a lock, loses updates and
    ends between 1 and the expected value.
  \<^item> \<open>SloppyCounter\<close>: the three sloppy counters stay in range, count exactly in the end and print it, and how far
    the global count lags behind before.
  \<^item> \<open>VectorAdd\<close>, \<open>VectorSpec\<close>: the five versions of \<^verbatim>\<open>vector_add\<close>. A check of the code of a thread gives exclusive
    access and serializability; three lock disciplines, instances of one locale, give the absence of deadlock. The
    first version deadlocks and the one with \<^verbatim>\<open>trylock\<close> livelocks when the option \<^verbatim>\<open>-d\<close> is given.

  \<^bold>\<open>Memory\<close> (\<^verbatim>\<open>vritualization\<close>).
  \<^item> \<open>Paging\<close>: \<^verbatim>\<open>mem.c\<close> and \<^verbatim>\<open>tlb.c\<close>: which bytes are touched how often, and the argument from which on an index
    overflows.

  \<^bold>\<open>Loops and bounds.\<close> No definition runs on fuel: loops over buffers, tables and pages are recursive
  functions with a termination proof, the endless loops of the servers and of the threads are step
  relations, and the loop of \<^verbatim>\<open>mem.c\<close> is unrolled a given number of times. Threads are shown to return
  by a bound that every step decreases, with no assumption on the scheduler. A call of
  \<^verbatim>\<open>write\<close> that has not been answered is \<open>Pending\<close>; a turn of either file server returns on every sequence of answers in which a byte is taken again and
  again. The reads of one file are a finite list, so a file that grows for ever while it is streamed is left out.

  \<^bold>\<open>Integers.\<close> Arguments and the integers of the memory programs have the range of \<^verbatim>\<open>int\<close>, with overflow as a fault;
  the counter of \<^verbatim>\<open>timer.c\<close> is a 64-bit word, the elements of the vectors are 32-bit words (signed overflow
  wraps there, as the compiled code does), the bytes of \<^verbatim>\<open>tlb.c\<close> are 8-bit words. The counters of the other thread
  programs are unbounded in the steps of the threads; those of the sloppy counters are shown to stay within \<^verbatim>\<open>int\<close> whenever the
  expected total does, for the others the theorems speak of runs in which they stay in range.

  \<^bold>\<open>Not modelled.\<close> Log and progress output, except where a program's output is what it is about; floating-point numbers, whose
  texts are arguments of the reports;
  \<^verbatim>\<open>signalfd\<close>, which only wakes the loop; \<^verbatim>\<open>src/main.c\<close>, \<^verbatim>\<open>tlb/exersies/1\<close> and \<^verbatim>\<open>include/common.h\<close>, which have no logic
  of their own beyond reading the clock into floating-point numbers; weak memory: steps are sequentially consistent, which the lock-protected programs cannot tell
  apart. The parts of the repository in other languages are left aside.
\<close>

end
